(* ===== verification/Prelude.thy ===== *)
theory Prelude
  imports Main "HOL-Library.Word" "HOL-Library.Monad_Syntax"
begin

unbundle bit_operations_syntax

text \<open>
  Shared vocabulary of the development: the machine integer types of the C code, the
  return codes of \<^verbatim>\<open>src/src/common/include/tuya_error_code.h\<close>, checked memory accesses and
  the network byte order encodings.

  Memory.  A C buffer is the list of its bytes.  An access outside the buffer is undefined
  behaviour in C, so every access of the models goes through \<open>rd\<close>, \<open>mem_rd\<close> or
  \<open>mem_wr\<close>, which return \<open>None\<close> outside the buffer; a function whose result is an
  \<open>option\<close> therefore returns \<open>None\<close> exactly on the runs that leave a buffer.

  Collections.  \<open>mem_simps\<close> holds the rules for checked accesses inside the bounds,
  \<open>enc_simps\<close> those for the integer encodings.
\<close>

named_theorems mem_simps
named_theorems enc_simps

section \<open>Machine integers and return codes\<close>

type_synonym u8 = "8 word"
type_synonym u16 = "16 word"
type_synonym u32 = "32 word"
type_synonym u64 = "64 word"
type_synonym bytes = "u8 list"
type_synonym operate_ret = int

abbreviation (input) OPRT_OK :: operate_ret where "OPRT_OK \<equiv> 0"
abbreviation (input) OPRT_COM_ERROR :: operate_ret where "OPRT_COM_ERROR \<equiv> - 1"
abbreviation (input) OPRT_INVALID_PARM :: operate_ret where "OPRT_INVALID_PARM \<equiv> - 2"
abbreviation (input) OPRT_MALLOC_FAILED :: operate_ret where "OPRT_MALLOC_FAILED \<equiv> - 3"
abbreviation (input) OPRT_NOT_SUPPORTED :: operate_ret where "OPRT_NOT_SUPPORTED \<equiv> - 4"
abbreviation (input) OPRT_NOT_FOUND :: operate_ret where "OPRT_NOT_FOUND \<equiv> - 6"
abbreviation (input) OPRT_CR_CJSON_ERR :: operate_ret where "OPRT_CR_CJSON_ERR \<equiv> - 7"
abbreviation (input) OPRT_CJSON_GET_ERR :: operate_ret where "OPRT_CJSON_GET_ERR \<equiv> - 9"
abbreviation (input) OPRT_EXCEED_UPPER_LIMIT :: operate_ret where "OPRT_EXCEED_UPPER_LIMIT \<equiv> - 24"
abbreviation (input) OPRT_NOT_EXIST :: operate_ret where "OPRT_NOT_EXIST \<equiv> - 30"
abbreviation (input) OPRT_BUFFER_NOT_ENOUGH :: operate_ret where "OPRT_BUFFER_NOT_ENOUGH \<equiv> - 31"
abbreviation (input) OPRT_VERSION_FMT_ERR :: operate_ret where "OPRT_VERSION_FMT_ERR \<equiv> - 36"
abbreviation (input) OPRT_SVC_BT_API_TRSMITR_CONTINUE :: operate_ret
  where "OPRT_SVC_BT_API_TRSMITR_CONTINUE \<equiv> - 7936"
abbreviation (input) OPRT_SVC_BT_API_TRSMITR_ERROR :: operate_ret
  where "OPRT_SVC_BT_API_TRSMITR_ERROR \<equiv> - 7937"

section \<open>Widths and casts\<close>

lemma unat_u16_less: "unat (x :: u16) < 65536"
  using unsigned_less [of x, where ?'a = nat] by simp

lemma unat_u32_less: "unat (x :: u32) < 4294967296"
  using unsigned_less [of x, where ?'a = nat] by simp

lemma unat_of_nat_u16: "n < 65536 \<Longrightarrow> unat (of_nat n :: u16) = n"
  by (simp add: unat_of_nat)

lemma unat_of_nat_u32: "n < 4294967296 \<Longrightarrow> unat (of_nat n :: u32) = n"
  by (simp add: unat_of_nat)

lemma unat_ucast_16_32: "unat (ucast (x :: u16) :: u32) = unat x"
  using unat_u16_less [of x] by (simp add: unsigned_ucast_eq take_bit_nat_eq_self_iff)

lemma unat_ucast_32_16: "unat (x :: u32) < 65536 \<Longrightarrow> unat (ucast x :: u16) = unat x"
  by (simp add: unsigned_ucast_eq take_bit_nat_eq_self_iff)

lemma u32_sub_nat: "b \<le> (a :: u32) \<Longrightarrow> unat (a - b) = unat a - unat b"
  by (rule unat_sub)

section \<open>Checked memory accesses\<close>

definition rd :: "'a list \<Rightarrow> nat \<Rightarrow> 'a option" where
  "rd xs i = (if i < length xs then Some (xs ! i) else None)"

definition mem_rd :: "nat \<Rightarrow> nat \<Rightarrow> 'a list \<Rightarrow> 'a list option" where
  "mem_rd off n xs = (if off + n \<le> length xs then Some (take n (drop off xs)) else None)"

definition mem_wr :: "nat \<Rightarrow> 'a list \<Rightarrow> 'a list \<Rightarrow> 'a list option" where
  "mem_wr off src dst =
     (if off + length src \<le> length dst
      then Some (take off dst @ src @ drop (off + length src) dst) else None)"

lemma rd_Some [mem_simps]: "i < length xs \<Longrightarrow> rd xs i = Some (xs ! i)"
  by (simp add: rd_def)

lemma rd_None [mem_simps]: "length xs \<le> i \<Longrightarrow> rd xs i = None"
  by (simp add: rd_def)

lemma rd_SomeD: "rd xs i = Some x \<Longrightarrow> i < length xs \<and> x = xs ! i"
  by (simp add: rd_def split: if_splits)

lemma rd_append_right [mem_simps]: "rd (xs @ ys) (length xs + i) = rd ys i"
  by (simp add: rd_def)

lemma mem_rd_Some [mem_simps]:
  "off + n \<le> length xs \<Longrightarrow> mem_rd off n xs = Some (take n (drop off xs))"
  by (simp add: mem_rd_def)

lemma mem_rd_SomeD: "mem_rd off n xs = Some ys \<Longrightarrow> off + n \<le> length xs \<and> ys = take n (drop off xs)"
  by (simp add: mem_rd_def split: if_splits)

lemma length_mem_rd: "mem_rd off n xs = Some ys \<Longrightarrow> length ys = n"
  by (auto simp: mem_rd_def split: if_splits)

lemma mem_rd_mid [mem_simps]:
  "length xs = off \<Longrightarrow> length ys = n \<Longrightarrow> mem_rd off n (xs @ ys @ zs) = Some ys"
  by (simp add: mem_rd_def)

lemma mem_wr_Some [mem_simps]:
  "off + length src \<le> length dst \<Longrightarrow>
     mem_wr off src dst = Some (take off dst @ src @ drop (off + length src) dst)"
  by (simp add: mem_wr_def)

lemma mem_wr_SomeD:
  "mem_wr off src dst = Some d \<Longrightarrow>
     off + length src \<le> length dst \<and> d = take off dst @ src @ drop (off + length src) dst"
  by (simp add: mem_wr_def split: if_splits)

lemma mem_wr_at [mem_simps]:
  "length pre = off \<Longrightarrow> length src \<le> length post \<Longrightarrow> mem_wr off src (pre @ post) = Some (pre @ src @ drop (length src) post)"
  by (simp add: mem_wr_def)

lemma length_mem_wr: "mem_wr off src dst = Some d \<Longrightarrow> length d = length dst"
  by (auto simp: mem_wr_def split: if_splits)

lemma mem_rd_mem_wr: "mem_wr off src dst = Some d \<Longrightarrow> mem_rd off (length src) d = Some src"
  by (auto simp: mem_wr_def mem_rd_def split: if_splits)

section \<open>Counted loops\<close>

text \<open>
  \<open>for_loop i n body s\<close> is \<^verbatim>\<open>for (; i < n; i++) s = body(i, s)\<close>, where the body may leave
  a buffer (\<open>None\<close>).  \<open>for_loop_rule\<close> is its proof rule: an invariant indexed by the
  loop counter that every iteration keeps, and keeps without leaving a buffer.
\<close>

function for_loop :: "nat \<Rightarrow> nat \<Rightarrow> (nat \<Rightarrow> 's \<Rightarrow> 's option) \<Rightarrow> 's \<Rightarrow> 's option" where
  "for_loop i n body s =
     (if i < n then (case body i s of None \<Rightarrow> None | Some s' \<Rightarrow> for_loop (Suc i) n body s')
      else Some s)"
  by pat_completeness auto
termination
  by (relation "measure (\<lambda>(i, n, body, s). n - i)") auto

declare for_loop.simps [simp del]

lemma for_loop_done [simp]: "n \<le> i \<Longrightarrow> for_loop i n body s = Some s"
  by (subst for_loop.simps) simp

lemma for_loop_step:
  "i < n \<Longrightarrow> for_loop i n body s =
     (case body i s of None \<Rightarrow> None | Some s' \<Rightarrow> for_loop (Suc i) n body s')"
  by (subst for_loop.simps) simp

lemma for_loop_rule:
  assumes "i \<le> n" and "P i s"
    and "\<And>j t. i \<le> j \<Longrightarrow> j < n \<Longrightarrow> P j t \<Longrightarrow> \<exists>t'. body j t = Some t' \<and> P (Suc j) t'"
  shows "\<exists>s'. for_loop i n body s = Some s' \<and> P n s'"
  using assms
proof (induction "n - i" arbitrary: i s)
  case 0
  then show ?case by simp
next
  case (Suc k)
  then have "i < n" by simp
  with Suc.prems obtain s' where s': "body i s = Some s'" "P (Suc i) s'"
    by blast
  have "\<exists>t. for_loop (Suc i) n body s' = Some t \<and> P n t"
    using Suc.hyps(2) s'(2) \<open>i < n\<close> Suc.prems(3) by (intro Suc.hyps(1)) auto
  then show ?case
    using s'(1) \<open>i < n\<close> by (simp add: for_loop_step)
qed

section \<open>Network byte order\<close>

text \<open>
  \<open>be32 w\<close> are the four bytes that \<^verbatim>\<open>UNI_HTONL\<close> followed by a \<^verbatim>\<open>memcpy\<close> of the
  variable puts into a buffer; \<open>be32_of\<close> is what \<^verbatim>\<open>memcpy\<close> followed by \<^verbatim>\<open>UNI_NTOHL\<close> reads.
\<close>

definition be16 :: "u16 \<Rightarrow> bytes" where
  "be16 w = [ucast (drop_bit 8 w), ucast w]"

definition be32 :: "u32 \<Rightarrow> bytes" where
  "be32 w = [ucast (drop_bit 24 w), ucast (drop_bit 16 w), ucast (drop_bit 8 w), ucast w]"

fun be16_of :: "bytes \<Rightarrow> u16" where
  "be16_of [a, b] = (push_bit 8 (ucast a) OR ucast b)"
| "be16_of _ = 0"

fun be32_of :: "bytes \<Rightarrow> u32" where
  "be32_of [a, b, c, d] =
     (push_bit 24 (ucast a) OR push_bit 16 (ucast b) OR push_bit 8 (ucast c) OR ucast d)"
| "be32_of _ = 0"

lemma length_be16 [simp]: "length (be16 w) = 2"
  by (simp add: be16_def)

lemma length_be32 [simp]: "length (be32 w) = 4"
  by (simp add: be32_def)

lemma be16_of_be16 [simp, enc_simps]: "be16_of (be16 w) = w"
  unfolding be16_def be16_of.simps
  by (rule bit_word_eqI) (auto simp: bit_simps)

lemma be32_of_be32 [simp, enc_simps]: "be32_of (be32 w) = w"
  unfolding be32_def be32_of.simps
proof (rule bit_word_eqI)
  fix n
  assume n: "n < LENGTH(32)"
  consider "n < 8" | "8 \<le> n" "n < 16" | "16 \<le> n" "n < 24" | "24 \<le> n"
    by linarith
  then show "bit (push_bit 24 (ucast (ucast (drop_bit 24 w) :: u8) :: u32) OR
      push_bit 16 (ucast (ucast (drop_bit 16 w) :: u8)) OR
      push_bit 8 (ucast (ucast (drop_bit 8 w) :: u8)) OR ucast (ucast w :: u8)) n = bit w n"
    by cases (use n in \<open>auto simp: bit_simps\<close>)
qed

lemma not_bit_u8 [simp]: "8 \<le> n \<Longrightarrow> \<not> bit (b :: u8) n"
  using bit_imp_le_length [of b n] by auto

lemma be32_be32_of: "length bs = 4 \<Longrightarrow> be32 (be32_of bs) = bs"
proof -
  assume "length bs = 4"
  then obtain a b c d where bs: "bs = [a, b, c, d]"
    by (auto simp: length_Suc_conv numeral_eq_Suc)
  show ?thesis unfolding bs be32_def be32_of.simps
    by (auto intro!: bit_word_eqI simp: bit_simps)
qed

lemma be32_inject [simp]: "be32 v = be32 w \<longleftrightarrow> v = w"
  by (metis be32_of_be32)

text \<open>A 32-bit variable as it lies in memory; every target of the SDK is little-endian.\<close>

definition le32 :: "u32 \<Rightarrow> bytes" where
  "le32 w = rev (be32 w)"

definition le32_of :: "bytes \<Rightarrow> u32" where
  "le32_of bs = be32_of (rev bs)"

lemma length_le32 [simp]: "length (le32 w) = 4"
  by (simp add: le32_def)

lemma le32_of_le32 [simp, enc_simps]: "le32_of (le32 w) = w"
  by (simp add: le32_def le32_of_def)

lemma le32_inject [simp]: "le32 v = le32 w \<longleftrightarrow> v = w"
  by (simp add: le32_def)

text \<open>
  The byte order macros \<^verbatim>\<open>UNI_HTONL\<close> and \<^verbatim>\<open>UNI_NTOHL\<close> come with the platform.  Where the code
  uses them they are a parameter \<open>htonl\<close>, and \<open>net_order\<close> is their contract: the converted
  variable lies in memory with its most significant byte first.
\<close>

definition net_order :: "(u32 \<Rightarrow> u32) \<Rightarrow> bool" where
  "net_order htonl \<longleftrightarrow> (\<forall>w. le32 (htonl w) = be32 w)"

lemma net_order_le32: "net_order htonl \<Longrightarrow> le32 (htonl w) = be32 w"
  by (simp add: net_order_def)

lemma net_order_be32: "net_order htonl \<Longrightarrow> htonl (le32_of (be32 w)) = w"
proof -
  assume h: "net_order htonl"
  have "le32 (htonl (htonl w)) = be32 (htonl w)" "be32 w = le32 (htonl w)"
    using net_order_le32 [OF h] by simp_all
  moreover have "be32 (htonl w) = rev (le32 (htonl w))"
    by (simp add: le32_def)
  ultimately have "le32 (htonl (htonl w)) = rev (be32 w)"
    by simp
  then have "htonl (htonl w) = w"
    by (simp flip: le32_def)
  moreover have "le32_of (be32 w) = htonl w"
    using \<open>be32 w = le32 (htonl w)\<close> by simp
  ultimately show ?thesis
    by simp
qed

definition swap32 :: "u32 \<Rightarrow> u32" where
  "swap32 w = le32_of (be32 w)"

lemma swap32_net_order: "net_order swap32"
  by (auto simp: net_order_def swap32_def le32_def le32_of_def be32_be32_of)

section \<open>C strings\<close>

text \<open>The bytes of a literal, without the terminator; the string in a buffer that holds a terminator.\<close>

definition cstr :: "string \<Rightarrow> bytes" where
  "cstr s = map of_char s"

definition cstring :: "bytes \<Rightarrow> bytes" where
  "cstring buf = takeWhile (\<lambda>c. c \<noteq> 0) buf"

lemma cstring_id: "0 \<notin> set s \<Longrightarrow> cstring s = s" "0 \<notin> set s \<Longrightarrow> cstring (s @ 0 # rest) = s"
  unfolding cstring_def by (auto simp: takeWhile_eq_all_conv, subst takeWhile_append2) auto

lemma zero_notin_cstring: "0 \<notin> set (cstring buf)"
  by (auto simp: cstring_def dest: set_takeWhileD)

text \<open>The text that the conversion \<^verbatim>\<open>%d\<close> writes.\<close>

fun dec_nat :: "nat \<Rightarrow> bytes" where
  "dec_nat n = (if n < 10 then [0x30 + of_nat n] else dec_nat (n div 10) @ [0x30 + of_nat (n mod 10)])"

declare dec_nat.simps [simp del]

definition dec_int :: "int \<Rightarrow> bytes" where
  "dec_int i = (if i < 0 then 0x2D # dec_nat (nat (- i)) else dec_nat (nat i))"

lemma digit_nonzero: "k < 10 \<Longrightarrow> (0x30 + of_nat k :: u8) \<noteq> 0"
proof -
  assume "k < 10"
  then have "unat (0x30 + of_nat k :: u8) = 48 + k"
    by (simp add: unat_word_ariths unat_of_nat)
  then show ?thesis
    by (metis add_is_0 unat_0 zero_neq_numeral)
qed

lemma zero_notin_dec_nat: "0 \<notin> set (dec_nat n)"
proof (induction n rule: dec_nat.induct)
  case (1 n)
  then show ?case
    using digit_nonzero [of n] digit_nonzero [of "n mod 10"] by (subst dec_nat.simps) (simp add: eq_commute [of 0])
qed

lemma length_dec_nat: "n < 10 ^ Suc k \<Longrightarrow> length (dec_nat n) \<le> Suc k"
proof (induction k arbitrary: n)
  case (Suc k)
  then have "n div 10 < 10 ^ Suc k"
    by (simp add: div_less_iff_less_mult)
  then show ?case
    using Suc.IH [of "n div 10"] by (subst dec_nat.simps) simp
qed (subst dec_nat.simps, simp)

lemma zero_notin_dec_int: "0 \<notin> set (dec_int i)"
  by (simp add: dec_int_def zero_notin_dec_nat)

lemma length_dec_int: "length (dec_int (sint (w :: u32))) \<le> 11"
proof -
  have "- (2 ^ 31) \<le> sint w" "sint w < 2 ^ 31"
    using sint_greater_eq [of w] sint_less [of w] by simp_all
  then have "nat (sint w) < 10 ^ Suc 9" "nat (- sint w) < 10 ^ Suc 9"
    by auto
  then show ?thesis
    using length_dec_nat [of "nat (sint w)" 9] length_dec_nat [of "nat (- sint w)" 9] by (simp add: dec_int_def)
qed

section \<open>Reachable states\<close>

text \<open>
  The states a component passes through: those that satisfy \<open>init\<close>, and what \<open>step\<close> leads to.
  \<open>invariant_system\<close> is the contract under which a predicate holds in all of them.
\<close>

inductive reach :: "('s \<Rightarrow> bool) \<Rightarrow> ('s \<Rightarrow> 's \<Rightarrow> bool) \<Rightarrow> 's \<Rightarrow> bool" for init step where
  reach_init: "init s \<Longrightarrow> reach init step s"
| reach_step: "reach init step s \<Longrightarrow> step s s' \<Longrightarrow> reach init step s'"

locale invariant_system =
  fixes init :: "'s \<Rightarrow> bool"
    and step :: "'s \<Rightarrow> 's \<Rightarrow> bool"
    and inv :: "'s \<Rightarrow> bool"
  assumes inv_init: "init s \<Longrightarrow> inv s"
    and inv_step: "inv s \<Longrightarrow> step s s' \<Longrightarrow> inv s'"
begin

lemma reach_inv: "reach init step s \<Longrightarrow> inv s"
  by (induction rule: reach.induct) (auto intro: inv_init inv_step)

end

end
