(* ===== verification/MixMethod.thy ===== *)
theory MixMethod
  imports Prelude "HOL-Library.Multiset"
begin

text \<open>
  \<^verbatim>\<open>src/src/common/utilities/mix_method.c\<close>: hexadecimal conversions, the byte sort, string
  comparison and search, and the version string routines.  A C string is the list of its
  bytes before the terminating NUL; where the code indexes a string the model uses the
  buffer \<open>s @ [0]\<close>.  \<open>char\<close> comparisons against ASCII bounds give the same answer
  for signed and unsigned \<^verbatim>\<open>char\<close>, so bytes are unsigned.
\<close>

section \<open>Operations\<close>

text \<open>The byte a C string pointer points at: the NUL at its end.\<close>

definition chd :: "bytes \<Rightarrow> u8" where
  "chd s = (case s of [] \<Rightarrow> 0 | c # _ \<Rightarrow> c)"

function uni_strcmp :: "bytes \<Rightarrow> bytes \<Rightarrow> int" where
  "uni_strcmp src dst =
     (let ret = uint (chd src) - uint (chd dst)
      in if ret = 0 \<and> chd dst \<noteq> 0 then uni_strcmp (tl src) (tl dst)
         else if ret < 0 then - 1 else if ret > 0 then 1 else ret)"
  by pat_completeness auto
termination
  by (relation "measure (\<lambda>(src, dst). length dst)") (auto simp: chd_def split: list.splits)

definition asc2hex :: "u8 \<Rightarrow> u8" where
  "asc2hex asccode =
     (if 48 \<le> asccode \<and> asccode \<le> 57 then asccode - 48
      else if 97 \<le> asccode \<and> asccode \<le> 102 then asccode - 97 + 10
      else if 65 \<le> asccode \<and> asccode \<le> 70 then asccode - 65 + 10
      else 0)"

text \<open>The loop counter of the source steps by two; the model's counter is its half.\<close>

definition ascs2hex :: "bytes \<Rightarrow> bytes \<Rightarrow> nat \<Rightarrow> bytes option" where
  "ascs2hex hex ascs srclen =
     (let lenstr = srclen - srclen mod 2
      in if lenstr = 0 then Some hex
         else for_loop 0 (lenstr div 2)
           (\<lambda>k hex. do {
              h4 \<leftarrow> rd ascs (2 * k);
              l4 \<leftarrow> rd ascs (2 * k + 1);
              mem_wr k [push_bit 4 (asc2hex h4) + asc2hex l4] hex
            }) hex)"

definition hex_digit :: "u8 \<Rightarrow> u8" where
  "hex_digit n = (let dd = 48 + n in if dd > 57 then dd + 7 else dd)"

definition hex2str :: "bytes \<Rightarrow> bytes \<Rightarrow> nat \<Rightarrow> bytes option" where
  "hex2str pbDest pbSrc nLen =
     Option.bind
       (for_loop 0 nLen
         (\<lambda>i dst. do {
            b \<leftarrow> rd pbSrc i;
            dst \<leftarrow> mem_wr (i * 2) [hex_digit (b div 16)] dst;
            mem_wr (i * 2 + 1) [hex_digit (b mod 16)] dst
          }) pbDest)
       (mem_wr (nLen * 2) [0])"

definition to_lower :: bytes where
  "to_lower = [48, 49, 50, 51, 52, 53, 54, 55, 56, 57, 97, 98, 99, 100, 101, 102]"

definition to_upper :: bytes where
  "to_upper = [48, 49, 50, 51, 52, 53, 54, 55, 56, 57, 65, 66, 67, 68, 69, 70]"

definition byte2str :: "bytes \<Rightarrow> bytes \<Rightarrow> nat \<Rightarrow> bool \<Rightarrow> bytes option" where
  "byte2str pbDest pbSrc nLen upper =
     (let tmp = (if upper then to_upper else to_lower)
      in Option.bind
           (for_loop 0 nLen
             (\<lambda>i dst. do {
                b \<leftarrow> rd pbSrc i;
                h \<leftarrow> rd tmp (unat (drop_bit 4 (b AND 0xF0)));
                l \<leftarrow> rd tmp (unat (b AND 0x0F));
                dst \<leftarrow> mem_wr (i * 2) [h] dst;
                mem_wr (i * 2 + 1) [l] dst
              }) pbDest)
           (mem_wr (nLen * 2) [0]))"

text \<open>The search loop of \<^verbatim>\<open>str_revr_find_ch\<close>, from index \<open>i - 1\<close> down to 0.\<close>

fun revr_find :: "bytes \<Rightarrow> u8 \<Rightarrow> nat \<Rightarrow> int option" where
  "revr_find buf ch 0 = Some (- 2)"
| "revr_find buf ch (Suc i) =
     Option.bind (rd buf i) (\<lambda>c. if c = ch then Some (int i) else revr_find buf ch i)"

definition str_revr_find_ch :: "bytes option \<Rightarrow> int \<Rightarrow> u8 \<Rightarrow> int option" where
  "str_revr_find_ch str revr_index ch =
     (case str of
        None \<Rightarrow> Some (- 1)
      | Some s \<Rightarrow>
          (if revr_index \<ge> int (length s) then Some (- 1)
           else revr_find (s @ [0]) ch (nat (int (length s) - revr_index))))"

text \<open>The exchange both branches of \<^verbatim>\<open>byte_sort\<close> make.\<close>

definition swap_next :: "nat \<Rightarrow> bytes \<Rightarrow> bytes option" where
  "swap_next i buf = do {
     a \<leftarrow> rd buf i;
     b \<leftarrow> rd buf (i + 1);
     buf \<leftarrow> mem_wr i [b] buf;
     mem_wr (i + 1) [a] buf
   }"

definition byte_sort :: "bool \<Rightarrow> bytes \<Rightarrow> nat \<Rightarrow> bytes option" where
  "byte_sort is_ascend buf buf_cnt =
     for_loop 1 buf_cnt
       (\<lambda>j buf. for_loop 0 (buf_cnt - j)
          (\<lambda>i buf. do {
             a \<leftarrow> rd buf i;
             b \<leftarrow> rd buf (i + 1);
             if is_ascend then (if a > b then swap_next i buf else Some buf)
             else (if a < b then swap_next i buf else Some buf)
           }) buf) buf"

text \<open>\<open>alloc n\<close>: whether \<^verbatim>\<open>tal_malloc(n)\<close> succeeds.\<close>

definition mm_strdup :: "(nat \<Rightarrow> bool) \<Rightarrow> bytes option \<Rightarrow> bytes option" where
  "mm_strdup alloc str =
     (case str of
        None \<Rightarrow> None
      | Some s \<Rightarrow> if alloc (length s + 1) then Some s else None)"

fun valid_version_loop :: "bytes \<Rightarrow> nat \<Rightarrow> nat \<Rightarrow> u8 option \<Rightarrow> bool" where
  "valid_version_loop [] section_num_count dot prev = (\<not> (prev \<noteq> None \<and> prev = Some 46))"
| "valid_version_loop (c # cs) section_num_count dot prev =
     (if c = 46 then
        (if prev = None \<or> prev = Some 46 then False
         else if dot + 1 > 2 then False
         else valid_version_loop cs 0 (dot + 1) (Some c))
      else if c \<ge> 48 \<and> c \<le> 57 then
        (if section_num_count + 1 > 8 then False
         else valid_version_loop cs (section_num_count + 1) dot (Some c))
      else False)"

definition is_valid_version :: "bytes option \<Rightarrow> bool" where
  "is_valid_version ver =
     (case ver of
        None \<Rightarrow> False
      | Some s \<Rightarrow>
          (if length s > 10 \<or> length s = 0 then False
           else valid_version_loop s 0 0 None))"

definition string2mac :: "bytes \<Rightarrow> bytes \<Rightarrow> (int \<times> bytes) option" where
  "string2mac str mac =
     (let len = length str
      in if 12 \<noteq> len \<and> 17 \<noteq> len then Some (- 1, mac)
         else map_option (\<lambda>(mac, count). (0, mac))
           (for_loop 0 6
             (\<lambda>i (mac, count). do {
                h \<leftarrow> rd (str @ [0]) count;
                l \<leftarrow> rd (str @ [0]) (count + 1);
                mac \<leftarrow> mem_wr i [(push_bit 4 (asc2hex h) AND 0xF0) + (asc2hex l AND 0x0F)] mac;
                Some (mac, if len = 17 then count + 3 else count + 2)
              }) (mac, 0)))"

fun version_loop :: "bytes \<Rightarrow> u8 \<Rightarrow> u32 \<Rightarrow> u32" where
  "version_loop [] v intOfString = intOfString"
| "version_loop (c # cs) v intOfString =
     (if c = 46 then version_loop cs 0 (push_bit 8 intOfString)
      else
        let v' = v * 10 + asc2hex c
        in version_loop cs v'
             (if chd cs = 46 \<or> chd cs = 0 then intOfString OR ucast v' else intOfString))"

text \<open>The \<^verbatim>\<open>static\<close> accumulator \<^verbatim>\<open>v\<close> is an argument and a result.\<close>

definition versionString2int :: "u8 \<Rightarrow> bytes \<Rightarrow> int \<times> u8" where
  "versionString2int v versionString =
     (if length versionString = 0 then (OPRT_INVALID_PARM, v)
      else (sint (version_loop versionString v 0), 0))"

definition tuya_isalpha :: "int \<Rightarrow> int" where
  "tuya_isalpha c = (if (c \<ge> 65 \<and> c \<le> 90) \<or> (c \<ge> 97 \<and> c \<le> 122) then c else 0)"

definition tuya_tolower :: "int \<Rightarrow> int" where
  "tuya_tolower c = (if c \<ge> 65 \<and> c \<le> 90 then c - 65 + 97 else c)"

definition tuya_toupper :: "int \<Rightarrow> int" where
  "tuya_toupper c = (if c \<ge> 97 \<and> c \<le> 122 then c - 97 + 65 else c)"

section \<open>Hexadecimal conversions\<close>

lemma asc2hex_digits:
  assumes "n < 16"
  shows "asc2hex (to_upper ! n) = of_nat n" "asc2hex (to_lower ! n) = of_nat n"
proof -
  have "\<forall>n \<in> set [0..<16]. asc2hex (to_upper ! n) = of_nat n \<and> asc2hex (to_lower ! n) = of_nat n"
    by code_simp
  with assms show "asc2hex (to_upper ! n) = of_nat n" "asc2hex (to_lower ! n) = of_nat n"
    by auto
qed

lemma hex_digit_upper: "n < 16 \<Longrightarrow> hex_digit (of_nat n) = to_upper ! n"
proof -
  assume "n < 16"
  moreover have "\<forall>n \<in> set [0..<16]. hex_digit (of_nat n) = to_upper ! n"
    by code_simp
  ultimately show ?thesis by auto
qed

lemma low_nibble: "(b :: u8) AND 0x0F = take_bit 4 b"
  by (simp add: take_bit_eq_mask mask_numeral)

lemma take_drop_nibble: "take_bit 4 (drop_bit 4 b) = drop_bit 4 (b :: u8)"
proof -
  have "bit (take_bit 4 (drop_bit 4 b)) n = bit (drop_bit 4 b) n" for n
    by (cases "n < 4") (simp_all add: bit_simps)
  then show ?thesis by (simp add: bit_eq_iff)
qed

lemma high_nibble: "drop_bit 4 ((b :: u8) AND 0xF0) = drop_bit 4 b"
proof -
  have "drop_bit 4 (0xF0 :: u8) = mask 4"
    by (simp add: mask_numeral)
  then have "drop_bit 4 (b AND 0xF0) = take_bit 4 (drop_bit 4 b)"
    by (simp only: drop_bit_and take_bit_eq_mask)
  then show ?thesis by (simp only: take_drop_nibble)
qed

lemma nibbles: "push_bit 4 (drop_bit 4 b) + take_bit 4 b = (b :: u8)"
  by (metis add.commute bits_ident)

lemma unat_nibble: "unat (drop_bit 4 (b :: u8)) < 16" "unat (take_bit 4 (b :: u8)) < 16"
proof -
  have "unat b < 16 * 16" using unsigned_less [of b] by simp
  then show "unat (drop_bit 4 b) < 16"
    by (simp only: unat_drop_bit_eq drop_bit_eq_div) (simp add: unat_div less_mult_imp_div_less)
  show "unat (take_bit 4 b) < 16"
    by (simp add: take_bit_eq_mod unat_mod)
qed

text \<open>Two hexadecimal digits per byte, from the digit table \<open>tmp\<close>.\<close>

definition hexs :: "bytes \<Rightarrow> bytes \<Rightarrow> bytes" where
  "hexs tmp bs = concat (map (\<lambda>b. [tmp ! unat (drop_bit 4 b), tmp ! unat (take_bit 4 b)]) bs)"

lemma length_hexs [simp]: "length (hexs tmp bs) = 2 * length bs"
  by (induction bs) (auto simp: hexs_def)

lemma hexs_nth:
  "k < length bs \<Longrightarrow> hexs tmp bs ! (2 * k) = tmp ! unat (drop_bit 4 (bs ! k))
     \<and> hexs tmp bs ! Suc (2 * k) = tmp ! unat (take_bit 4 (bs ! k))"
proof (induction bs arbitrary: k)
  case (Cons b bs)
  then show ?case
    by (cases k) (auto simp: hexs_def)
qed simp

text \<open>Two consecutive single-byte stores at the end of what is already written.\<close>

lemma mem_wr_two:
  assumes "length xs = i * 2" "2 \<le> length ys"
  shows "Option.bind (mem_wr (i * 2) [h] (xs @ ys)) (mem_wr (Suc (i * 2)) [l]) = Some (xs @ h # l # drop 2 ys)"
  using assms by (cases ys; cases "tl ys") (auto simp: mem_wr_def)

lemma two_digit_loop:
  assumes "2 * n \<le> length dst"
    and "\<And>i d. i < n \<Longrightarrow> body i d = Option.bind (mem_wr (i * 2) [h i] d) (mem_wr (i * 2 + 1) [l i])"
  shows "for_loop 0 n body dst = Some (concat (map (\<lambda>i. [h i, l i]) [0..<n]) @ drop (2 * n) dst)"
proof -
  let ?P = "\<lambda>i d. d = concat (map (\<lambda>i. [h i, l i]) [0..<i]) @ drop (2 * i) dst"
  have len: "length (concat (map (\<lambda>i. [h i, l i]) [0..<i])) = i * 2" for i
    by (induction i) auto
  have "\<exists>d. for_loop 0 n body dst = Some d \<and> ?P n d"
    by (rule for_loop_rule [where P = ?P]) (use assms in \<open>auto simp: len mem_wr_two\<close>)
  then show ?thesis by simp
qed

lemma hexs_upt: "n \<le> length bs \<Longrightarrow>
  concat (map (\<lambda>i. [tmp ! unat (drop_bit 4 (bs ! i)), tmp ! unat (take_bit 4 (bs ! i))]) [0..<n]) = hexs tmp (take n bs)"
  unfolding hexs_def by (rule arg_cong [where f = concat], rule nth_equalityI) auto

lemma byte2str_eq:
  assumes "n \<le> length src" "2 * n < length dst"
  shows "byte2str dst src n upper =
    Some (hexs (if upper then to_upper else to_lower) (take n src) @ [0] @ drop (2 * n + 1) dst)"
proof -
  have len: "length to_upper = 16" "length to_lower = 16"
    by (simp_all add: to_upper_def to_lower_def)
  show ?thesis
    unfolding byte2str_def Let_def
    by (subst two_digit_loop [where h = "\<lambda>i. (if upper then to_upper else to_lower) ! unat (drop_bit 4 (src ! i))"
          and l = "\<lambda>i. (if upper then to_upper else to_lower) ! unat (take_bit 4 (src ! i))"])
      (use assms len in \<open>auto simp: high_nibble low_nibble take_drop_nibble rd_Some unat_nibble hexs_upt mem_wr_def\<close>)
qed

lemma hex2str_eq:
  assumes "n \<le> length src" "2 * n < length dst"
  shows "hex2str dst src n = Some (hexs to_upper (take n src) @ [0] @ drop (2 * n + 1) dst)"
proof -
  have d: "hex_digit (b div 16) = to_upper ! unat (drop_bit 4 b)"
      "hex_digit (b mod 16) = to_upper ! unat (take_bit 4 b)" for b :: u8
    using hex_digit_upper [OF unat_nibble(1) [of b]] hex_digit_upper [OF unat_nibble(2) [of b]]
    by (simp_all add: drop_bit_eq_div take_bit_eq_mod)
  show ?thesis
    unfolding hex2str_def
    by (subst two_digit_loop [where h = "\<lambda>i. to_upper ! unat (drop_bit 4 (src ! i))"
          and l = "\<lambda>i. to_upper ! unat (take_bit 4 (src ! i))"])
      (use assms in \<open>auto simp: rd_Some d hexs_upt mem_wr_def\<close>)
qed

lemma ascs2hex_eq:
  assumes "2 * n \<le> length ascs" "n \<le> length hex"
  shows "ascs2hex hex ascs (2 * n) =
    Some (map (\<lambda>k. push_bit 4 (asc2hex (ascs ! (2 * k))) + asc2hex (ascs ! Suc (2 * k))) [0..<n] @ drop n hex)"
proof -
  let ?f = "\<lambda>k. push_bit 4 (asc2hex (ascs ! (2 * k))) + asc2hex (ascs ! Suc (2 * k))"
  let ?P = "\<lambda>i d. d = map ?f [0..<i] @ drop i hex"
  let ?body = "\<lambda>k hex. do {
              h4 \<leftarrow> rd ascs (2 * k);
              l4 \<leftarrow> rd ascs (2 * k + 1);
              mem_wr k [push_bit 4 (asc2hex h4) + asc2hex l4] hex
            }"
  have "\<exists>d. for_loop 0 n ?body hex = Some d \<and> ?P n d"
    by (rule for_loop_rule [where P = ?P]) (use assms in \<open>auto simp: rd_Some mem_wr_def\<close>)
  then show ?thesis
    by (cases n) (auto simp: ascs2hex_def)
qed

text \<open>Decoding the digits of either table gives the bytes back.\<close>

lemma ascs2hex_hexs:
  assumes "tmp = to_upper \<or> tmp = to_lower" and "length bs \<le> length hex"
  shows "ascs2hex hex (hexs tmp bs @ rest) (2 * length bs) = Some (bs @ drop (length bs) hex)"
proof -
  have dig: "asc2hex (tmp ! unat (drop_bit 4 b)) = drop_bit 4 b"
      "asc2hex (tmp ! unat (take_bit 4 b)) = take_bit 4 b" for b
    using assms(1) asc2hex_digits [OF unat_nibble(1) [of b]] asc2hex_digits [OF unat_nibble(2) [of b]]
    by auto
  let ?f = "\<lambda>k. push_bit 4 (asc2hex ((hexs tmp bs @ rest) ! (2 * k)))
       + asc2hex ((hexs tmp bs @ rest) ! Suc (2 * k))"
  have "map ?f [0..<length bs] = bs"
  proof (rule nth_equalityI)
    fix k
    assume "k < length (map ?f [0..<length bs])"
    then show "map ?f [0..<length bs] ! k = bs ! k"
      using hexs_nth [of k bs tmp] by (simp add: nth_append dig nibbles)
  qed simp
  with assms(2) show ?thesis
    by (simp add: ascs2hex_eq)
qed

text \<open>
  C23: hexadecimal text round trip.  Printing \<open>bs\<close> with \<open>byte2str\<close> (upper or lower case)
  into a buffer with room for the digits and the NUL stays inside the buffers, reading the
  text back with \<open>ascs2hex\<close> returns \<open>bs\<close>, and the older \<open>hex2str\<close> writes the same text
  as the upper case variant.
\<close>

theorem hex_roundtrip:
  assumes "2 * length bs < length dst" and "length hex = length bs"
  shows "(do { s \<leftarrow> byte2str dst bs (length bs) upper; ascs2hex hex s (2 * length bs) }) = Some bs
    \<and> hex2str dst bs (length bs) = byte2str dst bs (length bs) True"
  using assms by (simp add: byte2str_eq hex2str_eq ascs2hex_hexs)

theorem hex_roundtrip_witness:
  "(do { s \<leftarrow> byte2str [0, 0, 0, 0, 0] [0xAB, 0x01] 2 False; ascs2hex [0, 0] s 4 }) = Some [0xAB, 0x01]"
  using hex_roundtrip [of "[0xAB, 0x01]" "[0, 0, 0, 0, 0]" "[0, 0]" False]
  by (simp add: numeral_eq_Suc)

section \<open>The byte sort\<close>

lemma mem_wr_single: "i < length xs \<Longrightarrow> mem_wr i [x] xs = Some (xs[i := x])"
  by (simp add: mem_wr_def upd_conv_take_nth_drop)

lemma swap_next_eq:
  "Suc i < length buf \<Longrightarrow> swap_next i buf = Some (buf[i := buf ! Suc i, Suc i := buf ! i])"
  by (simp add: swap_next_def rd_Some mem_wr_single)

definition in_order :: "bool \<Rightarrow> u8 \<Rightarrow> u8 \<Rightarrow> bool" where
  "in_order asc a b = (if asc then a \<le> b else b \<le> a)"

lemma in_order_trans: "in_order asc a b \<Longrightarrow> in_order asc b c \<Longrightarrow> in_order asc a c"
  by (auto simp: in_order_def split: if_splits)

lemma in_order_linear: "\<not> in_order asc a b \<Longrightarrow> in_order asc b a"
  by (auto simp: in_order_def split: if_splits)

text \<open>
  \<open>final_from asc k n buf\<close>: the elements at the positions \<open>k .. n - 1\<close> are where the
  sorted order puts them relative to everything before them.
\<close>

definition final_from :: "bool \<Rightarrow> nat \<Rightarrow> nat \<Rightarrow> bytes \<Rightarrow> bool" where
  "final_from asc k n buf \<longleftrightarrow> (\<forall>p q. p < q \<longrightarrow> k \<le> q \<longrightarrow> q < n \<longrightarrow> in_order asc (buf ! p) (buf ! q))"

definition bubble_step :: "bool \<Rightarrow> nat \<Rightarrow> bytes \<Rightarrow> bytes" where
  "bubble_step asc i buf =
     (if in_order asc (buf ! i) (buf ! Suc i) then buf else buf[i := buf ! Suc i, Suc i := buf ! i])"

lemma byte_sort_body:
  "Suc i < length buf \<Longrightarrow>
     (do { a \<leftarrow> rd buf i; b \<leftarrow> rd buf (i + 1);
           if asc then (if a > b then swap_next i buf else Some buf)
           else (if a < b then swap_next i buf else Some buf) }) = Some (bubble_step asc i buf)"
  by (auto simp: rd_Some swap_next_eq bubble_step_def in_order_def)

lemma bubble_step_same:
  "Suc i < n \<Longrightarrow> n \<le> length buf \<Longrightarrow> length (bubble_step asc i buf) = length buf
     \<and> mset (bubble_step asc i buf) = mset buf \<and> drop n (bubble_step asc i buf) = drop n buf"
  by (auto simp: bubble_step_def mset_swap)

lemma bubble_step_max:
  assumes "Suc i < length buf" "\<forall>p<i. in_order asc (buf ! p) (buf ! i)"
  shows "\<forall>p<Suc i. in_order asc (bubble_step asc i buf ! p) (bubble_step asc i buf ! Suc i)"
  using assms in_order_linear [of asc "buf ! i" "buf ! Suc i"]
  by (auto simp: bubble_step_def nth_list_update less_Suc_eq intro: in_order_trans)

lemma bubble_step_final:
  assumes "Suc i < k" "n \<le> length buf" "final_from asc k n buf"
  shows "final_from asc k n (bubble_step asc i buf)"
  using assms by (auto simp: final_from_def bubble_step_def nth_list_update)

text \<open>One pass of the inner loop puts the extreme element of the rest at its end.\<close>

lemma bubble_pass:
  assumes "k < n" "n \<le> length buf" "final_from asc (Suc k) n buf"
  shows "\<exists>b. for_loop 0 k
          (\<lambda>i buf. do { a \<leftarrow> rd buf i; b \<leftarrow> rd buf (i + 1);
             if asc then (if a > b then swap_next i buf else Some buf)
             else (if a < b then swap_next i buf else Some buf) }) buf = Some b
       \<and> length b = length buf \<and> mset b = mset buf \<and> drop n b = drop n buf \<and> final_from asc k n b"
proof -
  let ?body = "\<lambda>i buf. do { a \<leftarrow> rd buf i; b \<leftarrow> rd buf (i + 1);
             if asc then (if a > b then swap_next i buf else Some buf)
             else (if a < b then swap_next i buf else Some buf) }"
  let ?P = "\<lambda>i b. length b = length buf \<and> mset b = mset buf \<and> drop n b = drop n buf
     \<and> final_from asc (Suc k) n b \<and> (\<forall>p<i. in_order asc (b ! p) (b ! i))"
  have "\<exists>b. for_loop 0 k ?body buf = Some b \<and> ?P k b"
  proof (rule for_loop_rule [where P = ?P])
    fix i b
    assume i: "i < k" and P: "?P i b"
    then have "?P (Suc i) (bubble_step asc i b)"
      using assms bubble_step_same [of i n b asc] bubble_step_max [of i b asc]
        bubble_step_final [of i "Suc k" n b asc] by simp
    then show "\<exists>t'. ?body i b = Some t' \<and> ?P (Suc i) t'"
      using byte_sort_body [of i b asc] i P assms by (metis (no_types, lifting) less_le_trans less_trans_Suc)
  qed (use assms in auto)
  then obtain b where b: "for_loop 0 k ?body buf = Some b" "?P k b" by blast
  have "final_from asc k n b"
    unfolding final_from_def
  proof (intro allI impI)
    fix p q
    assume "p < q" "k \<le> q" "q < n"
    then show "in_order asc (b ! p) (b ! q)"
      using b(2) by (cases "q = k") (auto simp: final_from_def)
  qed
  with b show ?thesis by blast
qed

lemma byte_sort_result:
  assumes "n \<le> length buf"
  shows "\<exists>b. byte_sort asc buf n = Some b \<and> length b = length buf \<and> mset b = mset buf
     \<and> drop n b = drop n buf \<and> final_from asc 1 n b"
proof (cases "n \<le> 1")
  case True
  then show ?thesis by (auto simp: byte_sort_def final_from_def)
next
  case False
  let ?P = "\<lambda>j b. length b = length buf \<and> mset b = mset buf \<and> drop n b = drop n buf
     \<and> final_from asc (Suc (n - j)) n b"
  have "\<exists>b. byte_sort asc buf n = Some b \<and> ?P n b"
    unfolding byte_sort_def
  proof (rule for_loop_rule [where P = ?P])
    fix j b
    assume j: "1 \<le> j" "j < n" and P: "?P j b"
    then have "Suc (n - Suc j) = n - j" by simp
    then show "\<exists>t'. for_loop 0 (n - j) (\<lambda>i buf. do { a \<leftarrow> rd buf i; b \<leftarrow> rd buf (i + 1);
             if asc then (if a > b then swap_next i buf else Some buf)
             else (if a < b then swap_next i buf else Some buf) }) b = Some t' \<and> ?P (Suc j) t'"
      using bubble_pass [of "n - j" n b asc] j P assms by auto
  qed (use False in \<open>auto simp: final_from_def\<close>)
  then show ?thesis by simp
qed

text \<open>
  C24: \<open>byte_sort\<close> sorts.  For a count inside the buffer it terminates without leaving the
  buffer, its first \<open>n\<close> bytes are a permutation of the original ones in ascending
  (or descending) order, and the bytes after them are untouched.
\<close>

theorem byte_sort_sorts:
  assumes "n \<le> length buf"
  shows "\<exists>xs. byte_sort asc buf n = Some (xs @ drop n buf) \<and> mset xs = mset (take n buf)
     \<and> sorted_wrt (if asc then (\<le>) else (\<ge>)) xs"
proof -
  obtain b where b: "byte_sort asc buf n = Some b" "length b = length buf" "mset b = mset buf"
      "drop n b = drop n buf" "final_from asc 1 n b"
    using byte_sort_result [OF assms] by blast
  have "mset (take n b) + mset (drop n b) = mset (take n buf) + mset (drop n buf)"
    using b(3) by (metis append_take_drop_id mset_append)
  with b(4) have "mset (take n b) = mset (take n buf)" by simp
  moreover have "sorted_wrt (if asc then (\<le>) else (\<ge>)) (take n b)"
    using b(5) assms b(2) by (auto simp: sorted_wrt_iff_nth_less final_from_def in_order_def)
  moreover have "b = take n b @ drop n buf"
    using b(4) by (metis append_take_drop_id)
  ultimately show ?thesis using b(1) by metis
qed

theorem byte_sort_sorts_witness:
  "\<exists>xs. byte_sort False [3, 9, 5, 200] 3 = Some (xs @ [200]) \<and> mset xs = {#3, 9, 5#}
     \<and> sorted_wrt (\<ge>) xs"
  using byte_sort_sorts [of 3 "[3, 9, 5, 200]" False] by (simp add: numeral_eq_Suc)

section \<open>String comparison\<close>

declare uni_strcmp.simps [simp del]

lemma chd_simps [simp]: "chd [] = 0" "chd (c # cs) = c"
  by (simp_all add: chd_def)

text \<open>
  \<open>uni_strcmp\<close> is the three-way lexicographic comparison of the unsigned bytes of two
  C strings, normalised to -1, 0 and 1.
\<close>

theorem uni_strcmp_lex:
  assumes "0 \<notin> set s" "0 \<notin> set t"
  shows "uni_strcmp s t = (if s = t then 0 else if ord_class.lexordp s t then - 1 else 1)"
  using assms
proof (induction s t rule: uni_strcmp.induct)
  case (1 s t)
  have nz: "0 < uint c" if "c \<noteq> 0" for c :: u8
    using that by (metis uint_0_iff linorder_neqE_linordered_idom uint_ge_0 not_less)
  show ?case
  proof (cases s)
    case Nil
    with "1.prems" nz show ?thesis
      by (subst uni_strcmp.simps) (cases t; auto simp: Let_def uint_0_iff)
  next
    case s: (Cons a s')
    show ?thesis
    proof (cases t)
      case Nil
      with "1.prems" s nz show ?thesis
        by (subst uni_strcmp.simps) (auto simp: Let_def uint_0_iff)
    next
      case t: (Cons b t')
      have "uni_strcmp s' t' = (if s' = t' then 0 else if ord_class.lexordp s' t' then - 1 else 1)" if "a = b"
        using "1.IH" "1.prems" that s t by auto
      with "1.prems" s t show ?thesis
        by (subst uni_strcmp.simps) (auto simp: Let_def word_less_alt simp flip: word_uint_eq_iff)
    qed
  qed
qed

theorem uni_strcmp_lex_witness:
  "uni_strcmp [97, 98] [97, 200] = - 1 \<and> uni_strcmp [97] [97] = 0 \<and> uni_strcmp [97, 98] [97] = 1"
  using uni_strcmp_lex [of "[97, 98]" "[97, 200]"] uni_strcmp_lex [of "[97]" "[97]"]
    uni_strcmp_lex [of "[97, 98]" "[97]"] by simp

section \<open>Version strings\<close>

fun sections :: "bytes \<Rightarrow> bytes list" where
  "sections [] = [[]]"
| "sections (c # cs) =
     (if c = 46 then [] # sections cs
      else (c # hd (sections cs)) # tl (sections cs))"

definition ascii_digit :: "u8 \<Rightarrow> bool" where
  "ascii_digit c \<longleftrightarrow> 48 \<le> c \<and> c \<le> 57"

definition good_section :: "bytes \<Rightarrow> bool" where
  "good_section x \<longleftrightarrow> x \<noteq> [] \<and> length x \<le> 8 \<and> list_all ascii_digit x"

lemma sections_nonempty [simp]: "sections s \<noteq> []"
  by (cases s) auto

lemma valid_version_loop_iff:
  assumes "cnt = 0 \<longleftrightarrow> prev = None \<or> prev = Some 46" "s \<noteq> [] \<or> prev \<noteq> None" "cnt \<le> 8" "dot \<le> 2"
    "prev = None \<longrightarrow> dot = 0"
  shows "valid_version_loop s cnt dot prev \<longleftrightarrow>
     0 < cnt + length (hd (sections s)) \<and> cnt + length (hd (sections s)) \<le> 8
     \<and> list_all ascii_digit (hd (sections s)) \<and> dot + length (tl (sections s)) \<le> 2
     \<and> list_all good_section (tl (sections s))"
  using assms
proof (induction s arbitrary: cnt dot prev)
  case Nil
  then show ?case by auto
next
  case (Cons c cs)
  obtain x xs where eq: "sections cs = x # xs"
    by (cases "sections cs") auto
  consider "c = 46" "cnt = 0 \<or> dot = 2" | "c = 46" "0 < cnt" "dot < 2" | "c \<noteq> 46"
    using Cons.prems(4) by linarith
  then show ?case
  proof cases
    case 1
    then show ?thesis using Cons.prems by (auto simp: eq)
  next
    case 2
    then have "valid_version_loop (c # cs) cnt dot prev = valid_version_loop cs 0 (Suc dot) (Some 46)"
      using Cons.prems by auto
    also have "\<dots> \<longleftrightarrow> good_section x \<and> Suc dot + length xs \<le> 2 \<and> list_all good_section xs"
      using Cons.IH [of 0 "Some 46" "Suc dot"] 2 by (auto simp: good_section_def [of x] eq)
    finally show ?thesis using 2 Cons.prems by (auto simp: eq)
  next
    case 3
    then show ?thesis
      using Cons.IH [of "Suc cnt" "Some c" dot] Cons.prems by (auto simp: ascii_digit_def eq)
  qed
qed

text \<open>
  \<open>is_valid_version\<close> decides its documented grammar: one to three sections separated by
  single dots, each of one to eight decimal digits, at most ten characters in all.
\<close>

theorem is_valid_version_iff:
  "is_valid_version (Some s) \<longleftrightarrow>
     s \<noteq> [] \<and> length s \<le> 10 \<and> length (sections s) \<le> 3 \<and> list_all good_section (sections s)"
proof (cases "s = []")
  case True
  then show ?thesis by (simp add: is_valid_version_def)
next
  case False
  obtain x xs where eq: "sections s = x # xs"
    by (cases "sections s") auto
  have "valid_version_loop s 0 0 None \<longleftrightarrow> length (sections s) \<le> 3 \<and> list_all good_section (sections s)"
    using valid_version_loop_iff [of 0 None s 0] False
    by (auto simp: good_section_def eq)
  with False show ?thesis by (simp add: is_valid_version_def not_less)
qed

text \<open>Decimal digits of a section, and a dotted version.\<close>

fun decimal :: "nat \<Rightarrow> bytes" where
  "decimal n = (if n < 10 then [48 + of_nat n] else decimal (n div 10) @ [48 + of_nat (n mod 10)])"

declare decimal.simps [simp del]

fun dotted :: "nat list \<Rightarrow> bytes" where
  "dotted [] = []"
| "dotted [n] = decimal n"
| "dotted (n # ns) = decimal n @ 46 # dotted ns"

lemma dec_digit: "n < 10 \<Longrightarrow> ascii_digit (48 + of_nat n) \<and> asc2hex (48 + of_nat n) = of_nat n"
proof -
  assume "n < 10"
  moreover have "\<forall>n \<in> set [0..<10]. ascii_digit (48 + of_nat n) \<and> asc2hex (48 + of_nat n) = of_nat n"
    by code_simp
  ultimately show ?thesis by auto
qed

lemma dec_digits: "decimal n \<noteq> [] \<and> list_all ascii_digit (decimal n)"
proof (induction n rule: decimal.induct)
  case (1 n)
  then show ?case
    by (subst (1 2) decimal.simps) (auto simp: dec_digit)
qed

lemma dec_value: "foldl (\<lambda>v c. v * 10 + asc2hex c) 0 (decimal n) = of_nat n"
proof (induction n rule: decimal.induct)
  case (1 n)
  have "(of_nat (n div 10) :: u8) * 10 + of_nat (n mod 10) = of_nat (n div 10 * 10 + n mod 10)"
    by (simp only: of_nat_add of_nat_mult of_nat_numeral)
  with 1 show ?case
    by (subst decimal.simps) (auto simp: dec_digit)
qed

lemma version_loop_digits:
  assumes "ds \<noteq> []" "list_all ascii_digit ds" "chd rest = 46 \<or> rest = []"
  shows "version_loop (ds @ rest) v acc =
    version_loop rest (foldl (\<lambda>v c. v * 10 + asc2hex c) v ds)
      (acc OR ucast (foldl (\<lambda>v c. v * 10 + asc2hex c) v ds))"
  using assms
proof (induction ds arbitrary: v)
  case (Cons c ds)
  have c: "c \<noteq> 46" using Cons.prems by (auto simp: ascii_digit_def)
  show ?case
  proof (cases ds)
    case Nil
    with c Cons.prems(3) show ?thesis by (auto simp: Let_def)
  next
    case (Cons d ds')
    then have "chd (ds @ rest) \<noteq> 46" "chd (ds @ rest) \<noteq> 0"
      using Cons.prems by (auto simp: ascii_digit_def)
    then show ?thesis
      using Cons c Cons.IH [of "v * 10 + asc2hex c"] Cons.prems by (auto simp: Let_def)
  qed
qed simp

lemma of_nat_pack: "n < 256 \<Longrightarrow> (of_nat (256 * a) :: u32) OR ucast (of_nat n :: u8) = of_nat (256 * a + n)"
proof -
  assume n: "n < 256"
  have "(ucast (of_nat n :: u8) :: u32) = of_nat n"
    using n by (simp add: unsigned_of_nat take_bit_nat_eq_self)
  moreover have "(of_nat (256 * a) :: u32) = push_bit 8 (of_nat a)"
    by (simp add: push_bit_eq_mult)
  moreover have "(of_nat n :: u32) = take_bit 8 (of_nat n)"
    using n by (simp add: take_bit_of_nat take_bit_nat_eq_self)
  moreover have "push_bit 8 (of_nat a :: u32) AND take_bit 8 (of_nat n) = 0"
    by (rule bit_word_eqI) (simp add: bit_simps)
  ultimately show ?thesis
    by (metis disjunctive_add_eq_or of_nat_add)
qed

lemma version_loop_dotted:
  "ns \<noteq> [] \<Longrightarrow> list_all (\<lambda>n. n < 256) ns \<Longrightarrow>
     version_loop (dotted ns) 0 (of_nat (256 * a)) = of_nat (foldl (\<lambda>a n. 256 * a + n) a ns)"
proof (induction ns arbitrary: a rule: dotted.induct)
  case (2 n)
  then show ?case
    using version_loop_digits [of "decimal n" "[]" 0 "of_nat (256 * a)"] dec_digits [of n]
    by (simp add: dec_value of_nat_pack del: of_nat_mult)
next
  case (3 n m ns)
  have "version_loop (dotted (n # m # ns)) 0 (of_nat (256 * a)) =
      version_loop (dotted (m # ns)) 0 (push_bit 8 (of_nat (256 * a + n)))"
    using version_loop_digits [of "decimal n" "46 # dotted (m # ns)" 0 "of_nat (256 * a)"] dec_digits [of n] 3
    by (simp add: dec_value of_nat_pack del: of_nat_mult of_nat_add push_bit_or)
  also have "push_bit 8 (of_nat (256 * a + n)) = (of_nat (256 * (256 * a + n)) :: u32)"
    by (simp add: push_bit_eq_mult)
  finally show ?case using "3.IH" [of "256 * a + n"] "3.prems" by (simp del: of_nat_mult of_nat_add)
qed simp

lemma pack_bound: "list_all (\<lambda>n. n < 256) ns \<Longrightarrow> foldl (\<lambda>a n. 256 * a + n) a ns < (a + 1) * 256 ^ length (ns :: nat list)"
proof (induction ns arbitrary: a)
  case (Cons n ns)
  then have "foldl (\<lambda>a n. 256 * a + n) (256 * a + n) ns < (256 * a + n + 1) * 256 ^ length ns" by simp
  also have "\<dots> \<le> (256 * (a + 1)) * 256 ^ length ns"
    using Cons.prems by (intro mult_right_mono) auto
  finally show ?case by (simp add: algebra_simps)
qed simp

text \<open>
  \<open>versionString2int\<close> on a dotted version of up to three sections below 256 gives the
  sections packed into the bytes of an integer, most significant first, and leaves its
  static accumulator reset for the next call.
\<close>

theorem versionString2int_packs:
  assumes "ns \<noteq> []" "length ns \<le> 3" "list_all (\<lambda>n. n < 256) ns"
  shows "versionString2int 0 (dotted ns) = (int (foldl (\<lambda>a n. 256 * a + n) 0 ns), 0)"
proof -
  let ?k = "foldl (\<lambda>a n. 256 * a + n) 0 ns"
  have "?k < 256 ^ length ns" using pack_bound [OF assms(3), of 0] by simp
  also have "\<dots> \<le> 256 ^ 3" using assms(2) by (intro power_increasing) auto
  finally have "?k < 16777216" by simp
  then have "sint (of_nat ?k :: u32) = int ?k"
    by (simp add: signed_of_nat signed_take_bit_int_eq_self)
  moreover have "dotted ns \<noteq> []"
    using assms(1) dec_digits by (cases ns rule: dotted.cases) auto
  ultimately show ?thesis
    using version_loop_dotted [OF assms(1,3), of 0] by (simp add: versionString2int_def)
qed

theorem versionString2int_packs_witness:
  "versionString2int 0 (dotted [1, 25, 3]) = (int (foldl (\<lambda>a n. 256 * a + n) 0 [1, 25, 3]), 0)"
  using versionString2int_packs [of "[1, 25, 3]"] by simp

section \<open>MAC addresses\<close>

text \<open>A MAC address as text: the two digits of each byte, with \<open>sep\<close> in between.\<close>

definition mac_text :: "bytes \<Rightarrow> bytes \<Rightarrow> bytes \<Rightarrow> bytes" where
  "mac_text tmp sep bs =
     hexs tmp (take 1 bs) @ concat (map (\<lambda>b. sep @ hexs tmp [b]) (drop 1 bs))"

lemma mac_nibbles: "(push_bit 4 (drop_bit 4 b) AND 0xF0) + (take_bit 4 b AND 0x0F) = (b :: u8)"
proof -
  have "push_bit 4 (drop_bit 4 b) AND 0xF0 = push_bit 4 (drop_bit 4 b AND 0x0F)"
    by (simp add: push_bit_and)
  also have "\<dots> = push_bit 4 (drop_bit 4 b)"
    by (simp only: low_nibble take_drop_nibble)
  finally show ?thesis
    using nibbles [of b] by (simp add: low_nibble)
qed

text \<open>
  \<open>string2mac\<close> reads back the text of a MAC address, with or without a one-byte
  separator between the bytes, in either case of the digits.
\<close>

theorem string2mac_text:
  assumes tmp: "tmp = to_upper \<or> tmp = to_lower" and sep: "length sep \<le> 1" 
    and len: "length bs = 6" "length mac = 6"
  shows "string2mac (mac_text tmp sep bs) mac = Some (0, bs)"
proof -
  have dig: "asc2hex (tmp ! unat (drop_bit 4 b)) = drop_bit 4 b"
      "asc2hex (tmp ! unat (take_bit 4 b)) = take_bit 4 b" for b
    using tmp asc2hex_digits [OF unat_nibble(1) [of b]] asc2hex_digits [OF unat_nibble(2) [of b]]
    by auto
  define h where "h b = tmp ! unat (drop_bit 4 b)" for b :: u8
  define l where "l b = tmp ! unat (take_bit 4 b)" for b :: u8
  have key: "(16 * asc2hex (h b) AND 0xF0) + (asc2hex (l b) AND 0x0F) = b" for b
    using mac_nibbles [of b] by (simp add: h_def l_def dig push_bit_eq_mult mult.commute)
  have hexs: "hexs tmp (b # cs) = h b # l b # hexs tmp cs" "hexs tmp [] = []" for b cs
    by (simp_all add: hexs_def h_def l_def)
  obtain b0 b1 b2 b3 b4 b5 where bs: "bs = [b0, b1, b2, b3, b4, b5]"
    using len(1) by (auto simp: length_Suc_conv numeral_eq_Suc)
  obtain m0 m1 m2 m3 m4 m5 where mac: "mac = [m0, m1, m2, m3, m4, m5]"
    using len(2) by (auto simp: length_Suc_conv numeral_eq_Suc)
  from sep consider "sep = []" | c where "sep = [c]"
    by (cases sep) auto
  then show ?thesis
    by cases (simp_all add: string2mac_def mac_text_def bs mac hexs for_loop_step rd_def mem_wr_def
        key numeral_eq_Suc)
qed

theorem string2mac_text_witness:
  "string2mac (mac_text to_lower [58] [0xA1, 0xB2, 0x03, 0x44, 0x5F, 0x66]) [0, 0, 0, 0, 0, 0] =
     Some (0, [0xA1, 0xB2, 0x03, 0x44, 0x5F, 0x66])"
  using string2mac_text [of to_lower "[58]" "[0xA1, 0xB2, 0x03, 0x44, 0x5F, 0x66]" "[0, 0, 0, 0, 0, 0]"]
  by simp

section \<open>Reverse search\<close>

lemma revr_find_spec:
  assumes "n \<le> length buf"
  shows "revr_find buf ch n =
    Some (if ch \<in> set (take n buf) then int (Max {i. i < n \<and> buf ! i = ch}) else - 2)"
  using assms
proof (induction n)
  case (Suc n)
  have S: "{i. i < Suc n \<and> buf ! i = ch} =
      (if buf ! n = ch then insert n {i. i < n \<and> buf ! i = ch} else {i. i < n \<and> buf ! i = ch})"
    by (auto simp: less_Suc_eq)
  have "Max (insert n {i. i < n \<and> buf ! i = ch}) = n"
    by (rule Max_eqI) auto
  with Suc show ?case
    by (auto simp: S rd_Some take_Suc_conv_app_nth)
qed simp



end
