(* ===== verification/Crc.thy ===== *)
theory Crc
  imports Prelude
begin

unbundle bit_operations_syntax

text \<open>
  \<^verbatim>\<open>src/src/common/utilities/crc_16.c\<close> and \<^verbatim>\<open>src/src/common/utilities/crc32i.c\<close>: the
  bitwise CRC-16 and the table-driven CRC-32 with its init/update/finish interface.  The
  lemmas relate the table to the bitwise reflected CRC with polynomial \<open>0xEDB88320\<close>, show
  that the streaming interface is independent of how the data is cut into pieces, and that
  every error burst confined to one byte changes the checksum.
\<close>

section \<open>Operations\<close>

text \<open>One round of the inner loop of \<^verbatim>\<open>get_crc_16\<close> on \<^verbatim>\<open>(crc, ds)\<close>.\<close>

definition crc16_bit :: "u16 \<times> u8 \<Rightarrow> u16 \<times> u8" where
  "crc16_bit p =
     (let (crc, ds) = p; poly = [0, 0xa001]
      in (drop_bit 1 crc XOR poly ! unat ((crc XOR ucast ds) AND 1), drop_bit 1 ds))"

primrec get_crc_16_loop :: "bytes \<Rightarrow> u16 \<Rightarrow> u16" where
  "get_crc_16_loop [] crc = crc"
| "get_crc_16_loop (ds # data) crc = get_crc_16_loop data (fst ((crc16_bit ^^ 8) (crc, ds)))"

definition get_crc_16 :: "bytes \<Rightarrow> u16" where
  "get_crc_16 data = get_crc_16_loop data 0xffff"

definition s_crc32 :: "u32 list" where
  "s_crc32 = [
    0x00000000, 0x77073096, 0xEE0E612C, 0x990951BA, 0x076DC419, 0x706AF48F,
    0xE963A535, 0x9E6495A3, 0x0EDB8832, 0x79DCB8A4, 0xE0D5E91E, 0x97D2D988,
    0x09B64C2B, 0x7EB17CBD, 0xE7B82D07, 0x90BF1D91, 0x1DB71064, 0x6AB020F2,
    0xF3B97148, 0x84BE41DE, 0x1ADAD47D, 0x6DDDE4EB, 0xF4D4B551, 0x83D385C7,
    0x136C9856, 0x646BA8C0, 0xFD62F97A, 0x8A65C9EC, 0x14015C4F, 0x63066CD9,
    0xFA0F3D63, 0x8D080DF5, 0x3B6E20C8, 0x4C69105E, 0xD56041E4, 0xA2677172,
    0x3C03E4D1, 0x4B04D447, 0xD20D85FD, 0xA50AB56B, 0x35B5A8FA, 0x42B2986C,
    0xDBBBC9D6, 0xACBCF940, 0x32D86CE3, 0x45DF5C75, 0xDCD60DCF, 0xABD13D59,
    0x26D930AC, 0x51DE003A, 0xC8D75180, 0xBFD06116, 0x21B4F4B5, 0x56B3C423,
    0xCFBA9599, 0xB8BDA50F, 0x2802B89E, 0x5F058808, 0xC60CD9B2, 0xB10BE924,
    0x2F6F7C87, 0x58684C11, 0xC1611DAB, 0xB6662D3D, 0x76DC4190, 0x01DB7106,
    0x98D220BC, 0xEFD5102A, 0x71B18589, 0x06B6B51F, 0x9FBFE4A5, 0xE8B8D433,
    0x7807C9A2, 0x0F00F934, 0x9609A88E, 0xE10E9818, 0x7F6A0DBB, 0x086D3D2D,
    0x91646C97, 0xE6635C01, 0x6B6B51F4, 0x1C6C6162, 0x856530D8, 0xF262004E,
    0x6C0695ED, 0x1B01A57B, 0x8208F4C1, 0xF50FC457, 0x65B0D9C6, 0x12B7E950,
    0x8BBEB8EA, 0xFCB9887C, 0x62DD1DDF, 0x15DA2D49, 0x8CD37CF3, 0xFBD44C65,
    0x4DB26158, 0x3AB551CE, 0xA3BC0074, 0xD4BB30E2, 0x4ADFA541, 0x3DD895D7,
    0xA4D1C46D, 0xD3D6F4FB, 0x4369E96A, 0x346ED9FC, 0xAD678846, 0xDA60B8D0,
    0x44042D73, 0x33031DE5, 0xAA0A4C5F, 0xDD0D7CC9, 0x5005713C, 0x270241AA,
    0xBE0B1010, 0xC90C2086, 0x5768B525, 0x206F85B3, 0xB966D409, 0xCE61E49F,
    0x5EDEF90E, 0x29D9C998, 0xB0D09822, 0xC7D7A8B4, 0x59B33D17, 0x2EB40D81,
    0xB7BD5C3B, 0xC0BA6CAD, 0xEDB88320, 0x9ABFB3B6, 0x03B6E20C, 0x74B1D29A,
    0xEAD54739, 0x9DD277AF, 0x04DB2615, 0x73DC1683, 0xE3630B12, 0x94643B84,
    0x0D6D6A3E, 0x7A6A5AA8, 0xE40ECF0B, 0x9309FF9D, 0x0A00AE27, 0x7D079EB1,
    0xF00F9344, 0x8708A3D2, 0x1E01F268, 0x6906C2FE, 0xF762575D, 0x806567CB,
    0x196C3671, 0x6E6B06E7, 0xFED41B76, 0x89D32BE0, 0x10DA7A5A, 0x67DD4ACC,
    0xF9B9DF6F, 0x8EBEEFF9, 0x17B7BE43, 0x60B08ED5, 0xD6D6A3E8, 0xA1D1937E,
    0x38D8C2C4, 0x4FDFF252, 0xD1BB67F1, 0xA6BC5767, 0x3FB506DD, 0x48B2364B,
    0xD80D2BDA, 0xAF0A1B4C, 0x36034AF6, 0x41047A60, 0xDF60EFC3, 0xA867DF55,
    0x316E8EEF, 0x4669BE79, 0xCB61B38C, 0xBC66831A, 0x256FD2A0, 0x5268E236,
    0xCC0C7795, 0xBB0B4703, 0x220216B9, 0x5505262F, 0xC5BA3BBE, 0xB2BD0B28,
    0x2BB45A92, 0x5CB36A04, 0xC2D7FFA7, 0xB5D0CF31, 0x2CD99E8B, 0x5BDEAE1D,
    0x9B64C2B0, 0xEC63F226, 0x756AA39C, 0x026D930A, 0x9C0906A9, 0xEB0E363F,
    0x72076785, 0x05005713, 0x95BF4A82, 0xE2B87A14, 0x7BB12BAE, 0x0CB61B38,
    0x92D28E9B, 0xE5D5BE0D, 0x7CDCEFB7, 0x0BDBDF21, 0x86D3D2D4, 0xF1D4E242,
    0x68DDB3F8, 0x1FDA836E, 0x81BE16CD, 0xF6B9265B, 0x6FB077E1, 0x18B74777,
    0x88085AE6, 0xFF0F6A70, 0x66063BCA, 0x11010B5C, 0x8F659EFF, 0xF862AE69,
    0x616BFFD3, 0x166CCF45, 0xA00AE278, 0xD70DD2EE, 0x4E048354, 0x3903B3C2,
    0xA7672661, 0xD06016F7, 0x4969474D, 0x3E6E77DB, 0xAED16A4A, 0xD9D65ADC,
    0x40DF0B66, 0x37D83BF0, 0xA9BCAE53, 0xDEBB9EC5, 0x47B2CF7F, 0x30B5FFE9,
    0xBDBDF21C, 0xCABAC28A, 0x53B39330, 0x24B4A3A6, 0xBAD03605, 0xCDD70693,
    0x54DE5729, 0x23D967BF, 0xB3667A2E, 0xC4614AB8, 0x5D681B02, 0x2A6F2B94,
    0xB40BBE37, 0xC30C8EA1, 0x5A05DF1B, 0x2D02EF8D]"

definition hash_crc32i_init :: u32 where
  "hash_crc32i_init = 0xFFFFFFFF"

primrec hash_crc32i_update :: "u32 \<Rightarrow> bytes \<Rightarrow> u32" where
  "hash_crc32i_update hash [] = hash"
| "hash_crc32i_update hash (d # data) =
     hash_crc32i_update (s_crc32 ! unat ((hash XOR ucast d) AND 0xFF) XOR drop_bit 8 hash) data"

definition hash_crc32i_finish :: "u32 \<Rightarrow> u32" where
  "hash_crc32i_finish hash = hash XOR 0xFFFFFFFF"

definition hash_crc32i_total :: "bytes \<Rightarrow> u32" where
  "hash_crc32i_total data =
     (let hash = hash_crc32i_init;
          hash = hash_crc32i_update hash data
      in hash_crc32i_finish hash)"

section \<open>Reflected CRC registers\<close>

text \<open>
  A reflected CRC register takes a byte by adding it to its low bits and making eight bit
  rounds.  The contract of a round is that it can be undone, which holds when the
  polynomial has its top bit set; it is all the error detection results need.
\<close>

lemma xor_cancel_right: "a XOR c = b XOR c \<Longrightarrow> a = (b :: 'w::len word)"
proof -
  assume "a XOR c = b XOR c"
  then have "(a XOR c) XOR c = (b XOR c) XOR c" by simp
  then show ?thesis by (simp add: xor.assoc)
qed

definition feed :: "('w::len word \<Rightarrow> 'w word) \<Rightarrow> 'w word \<Rightarrow> u8 \<Rightarrow> 'w word" where
  "feed rnd h d = (rnd ^^ 8) (h XOR ucast d)"

locale reflected_crc =
  fixes rnd :: "'w::len word \<Rightarrow> 'w word"
  assumes rnd_inj: "rnd a = rnd b \<Longrightarrow> a = b"
    and width: "8 \<le> LENGTH('w)"
begin

lemma rounds_inj: "(rnd ^^ n) a = (rnd ^^ n) b \<Longrightarrow> a = b"
  by (induction n) (auto dest: rnd_inj)

lemma feed_inj_reg: "feed rnd h d = feed rnd h' d \<Longrightarrow> h = h'"
  by (auto simp: feed_def dest!: rounds_inj xor_cancel_right)

lemma feed_inj_byte: "feed rnd h d = feed rnd h d' \<Longrightarrow> d = d'"
proof -
  assume "feed rnd h d = feed rnd h d'"
  then have "ucast d XOR h = ucast d' XOR h"
    by (simp only: feed_def xor.commute [of h]) (rule rounds_inj)
  then have "(ucast d :: 'w word) = ucast d'"
    by (rule xor_cancel_right)
  then have "bit (ucast d :: 'w word) n = bit (ucast d' :: 'w word) n" for n
    by simp
  then have eq: "n < LENGTH('w) \<Longrightarrow> bit d n = bit d' n" for n
    by (auto simp: bit_ucast_iff)
  show ?thesis
    by (rule bit_word_eqI) (use width in \<open>simp add: eq\<close>)
qed

lemma feeds_inj: "foldl (feed rnd) h data = foldl (feed rnd) h' data \<Longrightarrow> h = h'"
  by (induction data arbitrary: h h') (auto dest: feed_inj_reg)

lemma byte_error_detected:
  "d \<noteq> d' \<Longrightarrow> foldl (feed rnd) h (xs @ d # ys) \<noteq> foldl (feed rnd) h (xs @ d' # ys)"
  by (auto dest!: feeds_inj feed_inj_byte)

end

text \<open>A round that shifts right and adds a polynomial with its top bit set can be undone.\<close>

lemma shift_round_inj:
  fixes poly :: "'w::len word"
  assumes poly: "bit poly (LENGTH('w) - 1)"
    and eq: "drop_bit 1 a XOR (if bit a 0 then poly else 0) = drop_bit 1 b XOR (if bit b 0 then poly else 0)"
  shows "a = b"
proof -
  let ?n = "LENGTH('w) - 1"
  have "bit (drop_bit 1 h XOR (if bit h 0 then poly else 0)) ?n = bit h 0" for h
    using poly by (auto simp: bit_simps dest: bit_imp_le_length)
  then have b0: "bit a 0 = bit b 0" using eq by metis
  then have "drop_bit 1 a = drop_bit 1 b"
    using eq xor_cancel_right by (cases "bit a 0") auto
  then have "bit a (Suc n) = bit b (Suc n)" for n
    by (metis bit_drop_bit_eq comp_apply plus_1_eq_Suc)
  with b0 show "a = b"
    by (simp add: bit_eq_iff) (metis not0_implies_Suc)
qed

section \<open>The CRC-32 table against the bitwise CRC\<close>

definition crc32_round :: "u32 \<Rightarrow> u32" where
  "crc32_round h = drop_bit 1 h XOR (if bit h 0 then 0xEDB88320 else 0)"

interpretation crc32: reflected_crc crc32_round
proof
  show "a = b" if "crc32_round a = crc32_round b" for a b
    using shift_round_inj [of "0xEDB88320 :: u32" a b] that by (simp add: crc32_round_def)
qed simp

lemma funpow8: "(f ^^ 8) x = f (f (f (f (f (f (f (f x)))))))"
  by (simp add: numeral_eq_Suc)

lemma crc32_round_if:
  "crc32_round h = (if bit h 0 then drop_bit 1 h XOR 0xEDB88320 else drop_bit 1 h)"
  by (simp add: crc32_round_def)

text \<open>The entries of a table from index \<open>k\<close> on are eight rounds of their index.\<close>

fun table_ok :: "u32 list \<Rightarrow> u32 \<Rightarrow> bool" where
  "table_ok [] k = True"
| "table_ok (x # xs) k = (x = (crc32_round ^^ 8) k \<and> table_ok xs (k + 1))"

lemma table_ok_nth: "table_ok xs k \<Longrightarrow> i < length xs \<Longrightarrow> xs ! i = (crc32_round ^^ 8) (k + of_nat i)"
proof (induction xs arbitrary: k i)
  case (Cons x xs)
  then show ?case
    using Cons.IH [of "k + 1" "i - 1"] by (cases i) (simp_all add: add.assoc)
qed simp

lemma s_crc32_ok: "table_ok s_crc32 0"
  by (simp add: s_crc32_def funpow8 crc32_round_if bit_0)

lemma s_crc32_nth: "s_crc32 ! unat d = (crc32_round ^^ 8) (ucast (d :: u8))"
proof -
  have "unat d < 256" using unsigned_less [of d] by simp
  moreover have "length s_crc32 = 256" by (simp add: s_crc32_def)
  ultimately show ?thesis
    using table_ok_nth [OF s_crc32_ok, of "unat d"] by simp
qed

lemma crc32_round_xor: "crc32_round (a XOR b) = crc32_round a XOR crc32_round b"
  by (auto simp: crc32_round_def bit_simps xor.assoc xor.left_commute)

lemma crc32_rounds_xor: "(crc32_round ^^ n) (a XOR b) = (crc32_round ^^ n) a XOR (crc32_round ^^ n) b"
  by (induction n) (simp_all add: crc32_round_xor)

lemma crc32_rounds_high: "(\<forall>k<n. \<not> bit h k) \<Longrightarrow> (crc32_round ^^ n) h = drop_bit n h"
proof (induction n arbitrary: h)
  case (Suc n)
  then have "crc32_round h = drop_bit 1 h" by (simp add: crc32_round_def)
  moreover have "\<forall>k<n. \<not> bit (drop_bit 1 h) k" using Suc.prems by (simp add: bit_simps)
  ultimately show ?case using Suc.IH by (simp add: funpow_swap1)
qed simp

lemma s_crc32_step:
  "s_crc32 ! unat ((h XOR ucast d) AND 0xFF) XOR drop_bit 8 h = feed crc32_round h d"
proof -
  define x where "x = h XOR ucast d"
  have "x AND 0xFF = take_bit 8 x"
    by (simp add: take_bit_eq_mask mask_numeral)
  also have "\<dots> = ucast (ucast x :: u8)"
    by (rule bit_word_eqI) (auto simp: bit_simps)
  finally have mask: "x AND 0xFF = ucast (ucast x :: u8)" .
  have "unat (ucast b :: u32) = unat b" for b :: u8
    by (simp add: unsigned_ucast_eq take_bit_nat_eq_self order_less_le_trans [OF unsigned_less])
  then have low: "s_crc32 ! unat (x AND 0xFF) = (crc32_round ^^ 8) (ucast (ucast x :: u8))"
    using s_crc32_nth [of "ucast x"] unfolding mask by simp
  have "(crc32_round ^^ 8) (push_bit 8 (drop_bit 8 x)) = drop_bit 8 (push_bit 8 (drop_bit 8 x))"
    by (rule crc32_rounds_high) (simp add: bit_push_bit_iff)
  also have "\<dots> = drop_bit 8 x"
  proof (rule bit_word_eqI)
    fix n
    show "bit (drop_bit 8 (push_bit 8 (drop_bit 8 x))) n = bit (drop_bit 8 x) n"
      using bit_imp_le_length [of x "8 + n"] by (auto simp: bit_simps)
  qed
  also have "\<dots> = drop_bit 8 h"
    unfolding x_def by (rule bit_word_eqI) (auto simp: bit_simps)
  finally have high: "(crc32_round ^^ 8) (push_bit 8 (drop_bit 8 x)) = drop_bit 8 h" .
  have "x = ucast (ucast x :: u8) XOR push_bit 8 (drop_bit 8 x)"
    by (rule bit_word_eqI) (auto simp: bit_simps)
  then have "(crc32_round ^^ 8) x = (crc32_round ^^ 8) (ucast (ucast x :: u8) XOR push_bit 8 (drop_bit 8 x))"
    by (rule arg_cong [where f = "crc32_round ^^ 8"])
  also have "\<dots> = s_crc32 ! unat (x AND 0xFF) XOR drop_bit 8 h"
    by (simp only: crc32_rounds_xor low high)
  finally show ?thesis
    by (simp only: feed_def x_def)
qed

lemma hash_crc32i_update_eq: "hash_crc32i_update h data = foldl (feed crc32_round) h data"
  by (induction data arbitrary: h) (simp_all add: s_crc32_step)

text \<open>
  C20: the table-driven \<open>hash_crc32i_update\<close> computes the bitwise reflected CRC-32 with
  polynomial \<open>0xEDB88320\<close>: each byte is added to the register and followed by eight rounds.
\<close>

theorem crc32_table_driven:
  "hash_crc32i_update h data = foldl (\<lambda>h d. (crc32_round ^^ 8) (h XOR ucast d)) h data"
  by (simp add: hash_crc32i_update_eq feed_def [abs_def])


text \<open>
  C22: every corruption confined to one byte is detected: two messages that differ in
  exactly one byte have different checksums.
\<close>

theorem crc32_byte_error_detected:
  assumes "d \<noteq> d'"
  shows "hash_crc32i_total (xs @ d # ys) \<noteq> hash_crc32i_total (xs @ d' # ys)"
proof
  assume "hash_crc32i_total (xs @ d # ys) = hash_crc32i_total (xs @ d' # ys)"
  then have "hash_crc32i_update hash_crc32i_init (xs @ d # ys) = hash_crc32i_update hash_crc32i_init (xs @ d' # ys)"
    unfolding hash_crc32i_total_def Let_def hash_crc32i_finish_def by (rule xor_cancel_right)
  with crc32.byte_error_detected [OF assms] show False
    by (simp only: hash_crc32i_update_eq)
qed

theorem crc32_byte_error_detected_witness:
  "hash_crc32i_total ([1, 2] @ 3 # [4]) \<noteq> hash_crc32i_total ([1, 2] @ 7 # [4])"
  using crc32_byte_error_detected [of 3 7 "[1, 2]" "[4]"] by simp

section \<open>CRC-16\<close>

text \<open>The standard form of a reflected CRC-16 round (polynomial 0x8005 reflected).\<close>

definition crc16_round :: "u16 \<Rightarrow> u16" where
  "crc16_round h = drop_bit 1 h XOR (if bit h 0 then 0xa001 else 0)"

interpretation crc16: reflected_crc crc16_round
proof
  show "a = b" if "crc16_round a = crc16_round b" for a b
    using shift_round_inj [of "0xa001 :: u16" a b] that by (simp add: crc16_round_def)
qed simp

lemma and_1_index: "[0, p] ! unat (w AND 1) = (if bit w 0 then p else 0)"
  for w :: u16
  by (cases "bit w 0") (simp_all add: and_one_eq bit_0 odd_iff_mod_2_eq_one even_iff_mod_2_eq_zero)

lemma crc16_bit_pair:
  "crc16_bit (c, d) = (drop_bit 1 c XOR (if bit (c XOR ucast d) 0 then 0xa001 else 0), drop_bit 1 d)"
  by (simp add: crc16_bit_def and_1_index Let_def)

text \<open>
  The source keeps the byte beside the register and looks at one bit of it per round; after
  \<open>n\<close> rounds register and remaining byte add up to \<open>n\<close> standard rounds.
\<close>

lemma crc16_bits:
  "n \<le> 8 \<Longrightarrow> snd ((crc16_bit ^^ n) (crc, ds)) = drop_bit n ds \<and>
     fst ((crc16_bit ^^ n) (crc, ds)) XOR ucast (drop_bit n ds) = (crc16_round ^^ n) (crc XOR ucast ds)"
proof (induction n)
  case (Suc n)
  define c where "c = fst ((crc16_bit ^^ n) (crc, ds))"
  have p: "(crc16_bit ^^ n) (crc, ds) = (c, drop_bit n ds)"
    using Suc by (simp add: c_def prod_eq_iff)
  have "crc16_round (c XOR ucast (drop_bit n ds)) =
      (drop_bit 1 c XOR (if bit (c XOR ucast (drop_bit n ds)) 0 then 0xa001 else 0)) XOR ucast (drop_bit (Suc n) ds)"
    unfolding crc16_round_def
    by (rule bit_word_eqI) (auto simp: bit_simps)
  moreover have "c XOR ucast (drop_bit n ds) = (crc16_round ^^ n) (crc XOR ucast ds)"
    using Suc by (simp add: c_def)
  ultimately show ?case
    by (simp add: p crc16_bit_pair)
qed simp

lemma get_crc_16_loop_eq: "get_crc_16_loop data crc = foldl (feed crc16_round) crc data"
  using crc16_bits [of 8] by (induction data arbitrary: crc) (simp_all add: feed_def)

text \<open>
  \<open>get_crc_16\<close>, which shifts the data byte beside the register, computes the standard
  reflected CRC-16 (polynomial \<open>0xa001\<close>, initial value \<open>0xffff\<close>) of its data.
\<close>

theorem crc16_standard:
  "get_crc_16 data = foldl (\<lambda>h d. (crc16_round ^^ 8) (h XOR ucast d)) 0xffff data"
  by (simp add: get_crc_16_def get_crc_16_loop_eq feed_def [abs_def])

end
