(* ===== verification/Symmetry.thy ===== *)
theory Symmetry
  imports Prelude
begin

unbundle bit_operations_syntax

text \<open>
  The AES layer, \<^verbatim>\<open>src/src/tal_security/src/tal_symmetry.c\<close>: one-shot ECB and CBC calls, the CTR
  loop, PKCS#7 padding and the allocating wrappers.

  The block cipher itself is the platform's (\<^verbatim>\<open>tkl_aes_*\<close>, outside the repository) and is the
  record \<open>tkl_aes\<close>: a created context is what was bound to it (direction, key, key bits), a
  crypt call returns its return code and the bytes it left in the output buffer.  \<open>aes_laws\<close>
  states what the platform's header documents of a working implementation: every call succeeds
  on a key of the stated size and on whole blocks, keeps the length, and decryption inverts
  encryption under the same key and initialisation vector.
\<close>

section \<open>The platform cipher\<close>

datatype symmetry_mode = SYMMETRY_DECRYPT | SYMMETRY_ENCRYPT

type_synonym aes_ctx = "symmetry_mode \<times> bytes \<times> nat"

record tkl_aes =
  tkl_aes_create_init :: "operate_ret \<times> bool"
  tkl_aes_free :: operate_ret
  tkl_aes_setkey :: "symmetry_mode \<Rightarrow> bytes \<Rightarrow> nat \<Rightarrow> operate_ret"
  tkl_aes_crypt_ecb :: "aes_ctx \<Rightarrow> symmetry_mode \<Rightarrow> bytes \<Rightarrow> operate_ret \<times> bytes"
  tkl_aes_crypt_cbc :: "aes_ctx \<Rightarrow> symmetry_mode \<Rightarrow> bytes \<Rightarrow> bytes \<Rightarrow> operate_ret \<times> bytes"

definition aes_laws :: "tkl_aes \<Rightarrow> bool" where
  "aes_laws A \<longleftrightarrow>
     tkl_aes_create_init A = (OPRT_OK, True) \<and> tkl_aes_free A = OPRT_OK \<and>
     (\<forall>m key bits. length key * 8 = bits \<longrightarrow> tkl_aes_setkey A m key bits = OPRT_OK) \<and>
     (\<forall>ctx m d. length d mod 16 = 0 \<longrightarrow>
        (\<exists>o'. tkl_aes_crypt_ecb A ctx m d = (OPRT_OK, o') \<and> length o' = length d)) \<and>
     (\<forall>ctx m iv d. length d mod 16 = 0 \<longrightarrow> length iv = 16 \<longrightarrow>
        (\<exists>o'. tkl_aes_crypt_cbc A ctx m iv d = (OPRT_OK, o') \<and> length o' = length d)) \<and>
     (\<forall>key bits d. length d mod 16 = 0 \<longrightarrow>
        snd (tkl_aes_crypt_ecb A (SYMMETRY_DECRYPT, key, bits) SYMMETRY_DECRYPT
          (snd (tkl_aes_crypt_ecb A (SYMMETRY_ENCRYPT, key, bits) SYMMETRY_ENCRYPT d))) = d) \<and>
     (\<forall>key bits iv d. length d mod 16 = 0 \<longrightarrow> length iv = 16 \<longrightarrow>
        snd (tkl_aes_crypt_cbc A (SYMMETRY_DECRYPT, key, bits) SYMMETRY_DECRYPT iv
          (snd (tkl_aes_crypt_cbc A (SYMMETRY_ENCRYPT, key, bits) SYMMETRY_ENCRYPT iv d))) = d)"

text \<open>A platform that satisfies the laws: exclusive or with the bytes of key and vector.\<close>

definition xor_pad :: "bytes \<Rightarrow> bytes \<Rightarrow> bytes" where
  "xor_pad key d = map (\<lambda>b. b XOR foldr (XOR) key 0) d"

definition xor_aes :: tkl_aes where
  "xor_aes = \<lparr> tkl_aes_create_init = (OPRT_OK, True), tkl_aes_free = OPRT_OK,
     tkl_aes_setkey = (\<lambda>m key bits. if length key * 8 = bits then OPRT_OK else OPRT_INVALID_PARM),
     tkl_aes_crypt_ecb = (\<lambda>(m, key, bits) m' d. (OPRT_OK, xor_pad key d)),
     tkl_aes_crypt_cbc = (\<lambda>(m, key, bits) m' iv d. (OPRT_OK, xor_pad (key @ iv) d)) \<rparr>"

lemma xor_pad_xor_pad [simp]: "xor_pad key (xor_pad key d) = d"
  by (simp add: xor_pad_def comp_def xor.assoc)

lemma length_xor_pad [simp]: "length (xor_pad key d) = length d"
  by (simp add: xor_pad_def)

lemma xor_aes_laws: "aes_laws xor_aes"
  by (simp add: aes_laws_def xor_aes_def)

section \<open>One-shot calls\<close>

text \<open>
  The six \<^verbatim>\<open>tal_aes*_raw\<close> calls of the source share one shape: create a context, bind the key,
  run the cipher, leave through the label that frees the context.  \<open>out\<close> is the output buffer
  on entry; the result is the return code and the buffer on exit.
\<close>

definition aes_raw :: "tkl_aes \<Rightarrow> symmetry_mode \<Rightarrow> bytes \<Rightarrow> nat \<Rightarrow> (aes_ctx \<Rightarrow> operate_ret \<times> bytes) \<Rightarrow> bytes \<Rightarrow> operate_ret \<times> bytes" where
  "aes_raw A m key bits crypt out =
     (let (ret, has_ctx) = tkl_aes_create_init A;
          (ret, out) =
            (if ret \<noteq> OPRT_OK then (ret, out)
             else let ret = tkl_aes_setkey A m key bits in
               if ret \<noteq> OPRT_OK then (ret, out) else crypt (m, key, bits))
      in (if has_ctx then tkl_aes_free A else ret, out))"

definition tal_aes128_ecb_encode_raw :: "tkl_aes \<Rightarrow> bytes \<Rightarrow> bytes \<Rightarrow> bytes \<Rightarrow> operate_ret \<times> bytes" where
  "tal_aes128_ecb_encode_raw A d out key =
     aes_raw A SYMMETRY_ENCRYPT key 128 (\<lambda>ctx. tkl_aes_crypt_ecb A ctx SYMMETRY_ENCRYPT d) out"

definition tal_aes128_ecb_decode_raw :: "tkl_aes \<Rightarrow> bytes \<Rightarrow> bytes \<Rightarrow> bytes \<Rightarrow> operate_ret \<times> bytes" where
  "tal_aes128_ecb_decode_raw A d out key =
     aes_raw A SYMMETRY_DECRYPT key 128 (\<lambda>ctx. tkl_aes_crypt_ecb A ctx SYMMETRY_DECRYPT d) out"

definition tal_aes128_cbc_encode_raw :: "tkl_aes \<Rightarrow> bytes \<Rightarrow> bytes \<Rightarrow> bytes \<Rightarrow> bytes \<Rightarrow> operate_ret \<times> bytes" where
  "tal_aes128_cbc_encode_raw A d key iv out =
     aes_raw A SYMMETRY_ENCRYPT key 128 (\<lambda>ctx. tkl_aes_crypt_cbc A ctx SYMMETRY_ENCRYPT iv d) out"

definition tal_aes128_cbc_decode_raw :: "tkl_aes \<Rightarrow> bytes \<Rightarrow> bytes \<Rightarrow> bytes \<Rightarrow> bytes \<Rightarrow> operate_ret \<times> bytes" where
  "tal_aes128_cbc_decode_raw A d key iv out =
     aes_raw A SYMMETRY_DECRYPT key 128 (\<lambda>ctx. tkl_aes_crypt_cbc A ctx SYMMETRY_DECRYPT iv d) out"

definition tal_aes256_cbc_encode_raw :: "tkl_aes \<Rightarrow> bytes \<Rightarrow> bytes \<Rightarrow> bytes \<Rightarrow> bytes \<Rightarrow> operate_ret \<times> bytes" where
  "tal_aes256_cbc_encode_raw A d key iv out =
     aes_raw A SYMMETRY_ENCRYPT key 256 (\<lambda>ctx. tkl_aes_crypt_cbc A ctx SYMMETRY_ENCRYPT iv d) out"

definition tal_aes256_cbc_decode_raw :: "tkl_aes \<Rightarrow> bytes \<Rightarrow> bytes \<Rightarrow> bytes \<Rightarrow> bytes \<Rightarrow> operate_ret \<times> bytes" where
  "tal_aes256_cbc_decode_raw A d key iv out =
     aes_raw A SYMMETRY_DECRYPT key 256 (\<lambda>ctx. tkl_aes_crypt_cbc A ctx SYMMETRY_DECRYPT iv d) out"

section \<open>Counter mode\<close>

text \<open>\<open>ctr_inc i nonce\<close> increments the big-endian counter held by the first \<open>i\<close> bytes.\<close>

fun ctr_inc :: "nat \<Rightarrow> bytes \<Rightarrow> bytes" where
  "ctr_inc 0 nonce = nonce"
| "ctr_inc (Suc i) nonce =
     (let v = nonce ! i + 1; nonce' = nonce[i := v] in if v \<noteq> 0 then nonce' else ctr_inc i nonce')"

text \<open>Before a byte at offset 0 a new key-stream block is made and the counter advances.\<close>

definition ctr_block :: "tkl_aes \<Rightarrow> aes_ctx \<Rightarrow> nat \<Rightarrow> bytes \<Rightarrow> bytes \<Rightarrow> operate_ret \<times> bytes \<times> bytes" where
  "ctr_block A ctx n nonce sb =
     (if n = 0 then
        (case tkl_aes_crypt_ecb A ctx SYMMETRY_ENCRYPT nonce of
           (rc, sb') \<Rightarrow> if rc \<noteq> OPRT_OK then (rc, nonce, sb') else (OPRT_OK, ctr_inc 16 nonce, sb'))
      else (OPRT_OK, nonce, sb))"

text \<open>The byte loop: offset, counter and key-stream block are threaded through, and the output is
  collected.  A failing block encryption ends the loop with its code.\<close>

fun ctr_loop :: "tkl_aes \<Rightarrow> aes_ctx \<Rightarrow> bytes \<Rightarrow> nat \<Rightarrow> bytes \<Rightarrow> bytes \<Rightarrow> (operate_ret \<times> nat \<times> bytes \<times> bytes \<times> bytes) option" where
  "ctr_loop A ctx [] n nonce sb = Some (OPRT_OK, n, nonce, sb, [])"
| "ctr_loop A ctx (c # cs) n nonce sb =
     (case ctr_block A ctx n nonce sb of (rc, nonce, sb) \<Rightarrow>
        if rc \<noteq> OPRT_OK then Some (rc, n, nonce, sb, [])
        else do {
          k \<leftarrow> rd sb n;
          (rc, n', nonce', sb', out) \<leftarrow> ctr_loop A ctx cs ((n + 1) mod 16) nonce sb;
          Some (rc, n', nonce', sb', (c XOR k) # out) })"

definition tal_aes_crypt_ctr ::
  "tkl_aes \<Rightarrow> aes_ctx \<Rightarrow> nat option \<Rightarrow> bytes option \<Rightarrow> bytes option \<Rightarrow> bytes \<Rightarrow>
     (operate_ret \<times> nat option \<times> bytes option \<times> bytes option \<times> bytes) option" where
  "tal_aes_crypt_ctr A ctx nc_off nonce_counter stream_block input =
     (case (nc_off, nonce_counter, stream_block) of
        (Some n, Some nonce, Some sb) \<Rightarrow>
          if n > 0x0F then Some (OPRT_INVALID_PARM, nc_off, nonce_counter, stream_block, [])
          else do {
            (rc, n', nonce', sb', out) \<leftarrow> ctr_loop A ctx input n nonce sb;
            Some (rc, Some (if rc = OPRT_OK then n' else n), Some nonce', Some sb', out) }
      | _ \<Rightarrow> Some (OPRT_INVALID_PARM, nc_off, nonce_counter, stream_block, []))"

definition tal_aes256_ctr_raw ::
  "tkl_aes \<Rightarrow> bytes \<Rightarrow> bytes \<Rightarrow> nat option \<Rightarrow> bytes option \<Rightarrow> bytes option \<Rightarrow>
     (operate_ret \<times> nat option \<times> bytes option \<times> bytes option \<times> bytes) option" where
  "tal_aes256_ctr_raw A input key nc_off nonce_counter stream_block =
     (let (ret, has_ctx) = tkl_aes_create_init A;
          fin = (\<lambda>(ret, st). (if has_ctx then tkl_aes_free A else ret, st)) in
      if ret \<noteq> OPRT_OK then Some (fin (ret, nc_off, nonce_counter, stream_block, []))
      else let ret = tkl_aes_setkey A SYMMETRY_ENCRYPT key 256 in
        if ret \<noteq> OPRT_OK then Some (fin (ret, nc_off, nonce_counter, stream_block, []))
        else map_option fin (tal_aes_crypt_ctr A (SYMMETRY_ENCRYPT, key, 256) nc_off nonce_counter stream_block input))"

section \<open>Padding and the allocating wrappers\<close>

text \<open>The loop counter of the source is a \<^verbatim>\<open>uint8_t\<close>; the padding is at most 16 bytes.\<close>

definition add_pkcs_padding :: "nat \<Rightarrow> nat \<Rightarrow> bytes \<Rightarrow> bytes option" where
  "add_pkcs_padding output_len data_len output =
     for_loop 0 (output_len - data_len)
       (\<lambda>i buf. mem_wr (data_len + i) [of_nat (output_len - data_len)] buf) output"

definition Add_Pkcs :: "bytes \<Rightarrow> u32 \<Rightarrow> (u32 \<times> bytes) option" where
  "Add_Pkcs p len =
     (let cz = 16 - len mod 16 in do {
      p \<leftarrow> add_pkcs_padding (unat (len + cz)) (unat len) p;
      Some (len + cz, p) })"

definition tal_pkcs7padding_buffer :: "bytes \<Rightarrow> u32 \<Rightarrow> (u32 \<times> bytes) option" where
  "tal_pkcs7padding_buffer p len = Add_Pkcs p len"

definition tal_aes_get_actual_length :: "bytes option \<Rightarrow> u32 \<Rightarrow> int option" where
  "tal_aes_get_actual_length dec_data dec_data_len =
     (case dec_data of None \<Rightarrow> Some OPRT_INVALID_PARM
      | Some d \<Rightarrow>
        if dec_data_len = 0 \<or> dec_data_len mod 16 \<noteq> 0 then Some OPRT_INVALID_PARM
        else do {
          v \<leftarrow> rd d (unat (dec_data_len - 1));
          if v > 16 then Some (- 2)
          else if dec_data_len \<le> ucast v then Some (- 3)
          else Some (sint (dec_data_len - ucast v)) })"

text \<open>
  The allocating encoders and decoders.  \<open>alloc n\<close> tells whether an allocation of \<open>n\<close> bytes
  succeeds; fresh memory has arbitrary contents \<open>junk n\<close>.  The result is the code and, on success, the
  new buffer with the reported length.
\<close>

definition aes_encode ::
  "(nat \<Rightarrow> bool) \<Rightarrow> (nat \<Rightarrow> bytes) \<Rightarrow> (bytes \<Rightarrow> operate_ret \<times> bytes) \<Rightarrow> bytes \<Rightarrow> u32 \<Rightarrow>
     (operate_ret \<times> (bytes \<times> u32) option) option" where
  "aes_encode alloc junk raw d len =
     (if len = 0 then Some (OPRT_INVALID_PARM, None)
      else if \<not> alloc (unat (len + 16)) then Some (OPRT_MALLOC_FAILED, None)
      else do {
        src \<leftarrow> mem_rd 0 (unat len) d;
        buf \<leftarrow> mem_wr 0 src (junk (unat (len + 16)));
        (ec_len, buf) \<leftarrow> Add_Pkcs buf len;
        src \<leftarrow> mem_rd 0 (unat ec_len) buf;
        (let (ret, out) = raw src in do {
          buf \<leftarrow> mem_wr 0 out buf;
          Some (if ret \<noteq> OPRT_OK then (ret, None) else (OPRT_OK, Some (buf, ec_len))) }) })"

definition aes_decode ::
  "(nat \<Rightarrow> bool) \<Rightarrow> (nat \<Rightarrow> bytes) \<Rightarrow> (bytes \<Rightarrow> operate_ret \<times> bytes) \<Rightarrow> bytes \<Rightarrow> u32 \<Rightarrow>
     (operate_ret \<times> (bytes \<times> u32) option) option" where
  "aes_decode alloc junk raw d len =
     (if len = 0 then Some (OPRT_INVALID_PARM, None)
      else if \<not> alloc (unat (len + 1)) then Some (OPRT_MALLOC_FAILED, None)
      else do {
        src \<leftarrow> mem_rd 0 (unat len) d;
        buf \<leftarrow> mem_wr 0 src (junk (unat (len + 1)));
        buf \<leftarrow> mem_wr (unat len) [0] buf;
        src \<leftarrow> mem_rd 0 (unat len) buf;
        (let (ret, out) = raw src in do {
          buf \<leftarrow> mem_wr 0 out buf;
          if ret \<noteq> OPRT_OK then Some (ret, None)
          else do { buf \<leftarrow> mem_wr (unat len) [0] buf; Some (OPRT_OK, Some (buf, len)) } }) })"

definition tal_aes128_ecb_encode where
  "tal_aes128_ecb_encode alloc junk A data len key =
     (case (data, key) of
        (Some d, Some k) \<Rightarrow> aes_encode alloc junk (\<lambda>b. tal_aes128_ecb_encode_raw A b b k) d len
      | _ \<Rightarrow> Some (OPRT_INVALID_PARM, None))"

definition tal_aes128_ecb_decode where
  "tal_aes128_ecb_decode alloc junk A data len key =
     (case (data, key) of
        (Some d, Some k) \<Rightarrow> aes_decode alloc junk (\<lambda>b. tal_aes128_ecb_decode_raw A b b k) d len
      | _ \<Rightarrow> Some (OPRT_INVALID_PARM, None))"

definition tal_aes128_cbc_encode where
  "tal_aes128_cbc_encode alloc junk A data len key iv =
     (case (data, key, iv) of
        (Some d, Some k, Some v) \<Rightarrow> aes_encode alloc junk (\<lambda>b. tal_aes128_cbc_encode_raw A b k v b) d len
      | _ \<Rightarrow> Some (OPRT_INVALID_PARM, None))"

definition tal_aes128_cbc_decode where
  "tal_aes128_cbc_decode alloc junk A data len key iv =
     (case (data, key, iv) of
        (Some d, Some k, Some v) \<Rightarrow> aes_decode alloc junk (\<lambda>b. tal_aes128_cbc_decode_raw A b k v b) d len
      | _ \<Rightarrow> Some (OPRT_INVALID_PARM, None))"

section \<open>Padding\<close>

definition pad_len :: "nat \<Rightarrow> nat" where
  "pad_len n = 16 - n mod 16"

lemma pad_len_bounds: "0 < pad_len n" "pad_len n \<le> 16" "(n + pad_len n) mod 16 = 0"
proof -
  show "0 < pad_len n" "pad_len n \<le> 16" by (simp_all add: pad_len_def)
  show "(n + pad_len n) mod 16 = 0"
    unfolding pad_len_def by presburger
qed

lemma add_pkcs_padding_fill:
  assumes "n \<le> m" "m \<le> length buf"
  shows "add_pkcs_padding m n buf = Some (take n buf @ replicate (m - n) (of_nat (m - n)) @ drop m buf)"
proof -
  let ?c = "of_nat (m - n) :: u8"
  have "\<exists>s'. for_loop 0 (m - n) (\<lambda>i b. mem_wr (n + i) [?c] b) buf = Some s' \<and>
      s' = take n buf @ replicate (m - n) ?c @ drop (n + (m - n)) buf"
  proof (rule for_loop_rule [where P = "\<lambda>i s. s = take n buf @ replicate i ?c @ drop (n + i) buf"])
    fix j t assume "0 \<le> j" and j: "j < m - n" and t: "t = take n buf @ replicate j ?c @ drop (n + j) buf"
    then have "drop (n + j) buf = buf ! (n + j) # drop (Suc (n + j)) buf"
      using assms by (simp add: Cons_nth_drop_Suc)
    then show "\<exists>t'. mem_wr (n + j) [?c] t = Some t' \<and> t' = take n buf @ replicate (Suc j) ?c @ drop (n + Suc j) buf"
      using j t assms by (simp add: mem_wr_def replicate_append_same flip: replicate_Suc)
  qed auto
  then show ?thesis
    using assms by (simp add: add_pkcs_padding_def)
qed

lemma Add_Pkcs_fill:
  assumes "unat len + 16 \<le> length p" "unat len + 16 < 2 ^ 32"
  shows "Add_Pkcs p len = Some (of_nat (unat len + pad_len (unat len)),
     take (unat len) p @ replicate (pad_len (unat len)) (of_nat (pad_len (unat len))) @ drop (unat len + pad_len (unat len)) p)"
proof -
  have "unat (len mod 16) = unat len mod 16"
    by (simp add: unat_mod)
  then have cz: "unat (16 - len mod 16) = pad_len (unat len)"
    unfolding pad_len_def by (subst unat_sub) (simp_all add: word_le_nat_alt)
  then have "unat (len + (16 - len mod 16)) = unat len + pad_len (unat len)"
    using assms pad_len_bounds [of "unat len"] by (simp add: unat_word_ariths)
  moreover from this have "len + (16 - len mod 16) = of_nat (unat len + pad_len (unat len))"
    by (metis of_nat_unat ucast_id)
  ultimately show ?thesis
    using assms pad_len_bounds [of "unat len"] unfolding Add_Pkcs_def Let_def
    by (simp add: add_pkcs_padding_fill)
qed

section \<open>Round trips\<close>

lemma aes_lawsD:
  assumes "aes_laws A"
  shows "tkl_aes_create_init A = (OPRT_OK, True)" "tkl_aes_free A = OPRT_OK"
    and "length key * 8 = bits \<Longrightarrow> tkl_aes_setkey A m key bits = OPRT_OK"
    and "length d mod 16 = 0 \<Longrightarrow> \<exists>o'. tkl_aes_crypt_ecb A ctx m d = (OPRT_OK, o') \<and> length o' = length d"
    and "length d mod 16 = 0 \<Longrightarrow> length iv = 16 \<Longrightarrow>
      \<exists>o'. tkl_aes_crypt_cbc A ctx m iv d = (OPRT_OK, o') \<and> length o' = length d"
    and "length d mod 16 = 0 \<Longrightarrow>
        snd (tkl_aes_crypt_ecb A (SYMMETRY_DECRYPT, key, bits) SYMMETRY_DECRYPT
          (snd (tkl_aes_crypt_ecb A (SYMMETRY_ENCRYPT, key, bits) SYMMETRY_ENCRYPT d))) = d"
    and "length d mod 16 = 0 \<Longrightarrow> length iv = 16 \<Longrightarrow>
        snd (tkl_aes_crypt_cbc A (SYMMETRY_DECRYPT, key, bits) SYMMETRY_DECRYPT iv
          (snd (tkl_aes_crypt_cbc A (SYMMETRY_ENCRYPT, key, bits) SYMMETRY_ENCRYPT iv d))) = d"
  using assms unfolding aes_laws_def by (simp_all only: simp_thms) auto

lemma aes_raw_ok:
  assumes "aes_laws A" "length key * 8 = bits" "crypt (m, key, bits) = (OPRT_OK, o')"
  shows "aes_raw A m key bits crypt out = (OPRT_OK, o')"
  using assms(2,3) aes_lawsD(1-3) [OF assms(1)] by (simp add: aes_raw_def Let_def)

lemma cbc_raw_roundtrip:
  assumes A: "aes_laws A" and k: "length key = 16" "length iv = 16" and d: "length d mod 16 = 0"
  obtains e where "\<And>out. tal_aes128_cbc_encode_raw A d key iv out = (OPRT_OK, e)" "length e = length d"
    "\<And>out. tal_aes128_cbc_decode_raw A e key iv out = (OPRT_OK, d)"
proof -
  let ?enc = "tkl_aes_crypt_cbc A (SYMMETRY_ENCRYPT, key, 128) SYMMETRY_ENCRYPT iv"
  let ?dec = "tkl_aes_crypt_cbc A (SYMMETRY_DECRYPT, key, 128) SYMMETRY_DECRYPT iv"
  obtain e where e: "?enc d = (OPRT_OK, e)" "length e = length d"
    using aes_lawsD(5) [OF A d k(2)] by blast
  obtain d' where d': "?dec e = (OPRT_OK, d')"
    using aes_lawsD(5) [OF A, of e] d e k(2) by metis
  then have "?dec e = (OPRT_OK, d)"
    using aes_lawsD(7) [OF A d k(2), of key 128] e by simp
  then show thesis
    using that e A k
    by (simp add: tal_aes128_cbc_encode_raw_def tal_aes128_cbc_decode_raw_def aes_raw_ok)
qed

lemma aes_encode_ok:
  assumes d: "0 < length d" "length d + 17 < 2 ^ 32" and mem: "alloc (length d + 16)" "\<And>n. length (junk n) = n"
    and raw: "raw (d @ replicate (pad_len (length d)) (of_nat (pad_len (length d)))) = (OPRT_OK, e)"
      "length e = length d + pad_len (length d)"
  shows "\<exists>buf. aes_encode alloc junk raw d (of_nat (length d)) =
      Some (OPRT_OK, Some (buf, of_nat (length d + pad_len (length d)))) \<and>
    take (length d + pad_len (length d)) buf = e"
proof -
  let ?p = "pad_len (length d)"
  have len: "unat (of_nat (length d) :: u32) = length d" "unat (of_nat (length d) + 16 :: u32) = length d + 16"
    "unat (of_nat (length d + ?p) :: u32) = length d + ?p"
    using d pad_len_bounds(2) [of "length d"] by (simp_all add: unat_of_nat unat_word_ariths)
  have nz: "(of_nat (length d) :: u32) \<noteq> 0"
    using d len(1) by force
  define rest where "rest = drop (length d) (junk (length d + 16))"
  have rest: "length rest = 16"
    by (simp add: rest_def mem)
  have "Add_Pkcs (d @ rest) (of_nat (length d)) =
      Some (of_nat (length d + ?p), d @ replicate ?p (of_nat ?p) @ drop ?p rest)"
    using Add_Pkcs_fill [of "of_nat (length d)" "d @ rest"] d rest by (simp add: len)
  moreover have "mem_wr 0 d (junk (length d + 16)) = Some (d @ rest)"
    by (simp add: mem_wr_def mem rest_def)
  moreover have "mem_rd 0 (length d + ?p) (d @ replicate ?p (of_nat ?p) @ drop ?p rest) = Some (d @ replicate ?p (of_nat ?p))"
    using pad_len_bounds(2) [of "length d"] rest by (simp add: mem_rd_def)
  ultimately show ?thesis
    using raw nz mem rest pad_len_bounds(2) [of "length d"]
    by (simp add: aes_encode_def len mem_rd_Some mem_wr_def del: of_nat_add)
qed

lemma aes_decode_ok:
  assumes d: "len \<noteq> 0" "unat len + 1 < 2 ^ 32" "unat len \<le> length d" and mem: "alloc (unat len + 1)" "\<And>n. length (junk n) = n"
    and raw: "raw (take (unat len) d) = (OPRT_OK, p)" "length p = unat len"
  shows "aes_decode alloc junk raw d len = Some (OPRT_OK, Some (p @ [0], len))"
proof -
  have "unat (len + 1) = unat len + 1"
    using d by (simp add: unat_word_ariths)
  then show ?thesis
    using d mem raw by (simp add: aes_decode_def mem_rd_def mem_wr_def)
qed

lemma get_actual_length_pad:
  assumes "length d + 17 < 2 ^ 31" "p = pad_len (length d)" "0 < length d"
  shows "tal_aes_get_actual_length (Some (d @ replicate p (of_nat p) @ rest)) (of_nat (length d + p)) = Some (int (length d))"
proof -
  let ?n = "of_nat (length d + p) :: u32"
  have p: "0 < p" "p \<le> 16" "(length d + p) mod 16 = 0"
    using pad_len_bounds [of "length d"] assms(2) by auto
  have n: "unat ?n = length d + p"
    using assms(1) p by (intro unat_of_nat_u32) simp
  have v: "unat (of_nat p :: u8) = p" "ucast (of_nat p :: u8) = (of_nat p :: u32)"
    using p by (simp_all add: unsigned_of_nat take_bit_nat_eq_self)
  have "?n \<noteq> 0" "unat (?n - 1) = length d + p - 1"
    using n p by (auto simp: unat_sub word_le_nat_alt)
  moreover have "?n mod 16 = 0"
    using n p(3) by (simp add: word_arith_nat_mod del: of_nat_add)
  moreover have "rd (d @ replicate p (of_nat p) @ rest) (length d + p - 1) = Some (of_nat p :: u8)"
    using p rd_append_right [of d "replicate p (of_nat p) @ rest" "p - 1"] by (simp add: rd_def nth_append)
  moreover have "?n - of_nat p = of_nat (length d)"
    by simp
  moreover have "sint (of_nat (length d) :: u32) = int (length d)"
    using assms(1) by (simp add: signed_of_nat signed_take_bit_int_eq_self)
  moreover have "unat (of_nat p :: u32) = p"
    using p by (intro unat_of_nat_u32) simp
  ultimately show ?thesis
    using n v p assms(3) by (simp add: tal_aes_get_actual_length_def word_less_nat_alt word_le_nat_alt del: of_nat_add)
qed

lemma cbc_encode_decode:
  assumes "aes_laws A" "length key = 16" "length iv = 16" "0 < length d" "length d + 17 < 2 ^ 31"
    and "\<And>n. length (junk n) = n"
  shows "\<exists>buf n buf'.
    tal_aes128_cbc_encode (\<lambda>_. True) junk A (Some d) (of_nat (length d)) (Some key) (Some iv) = Some (OPRT_OK, Some (buf, n)) \<and>
    (\<forall>b. unat n \<le> length b \<and> take (unat n) b = take (unat n) buf \<longrightarrow>
      tal_aes128_cbc_decode (\<lambda>_. True) junk A (Some b) n (Some key) (Some iv) = Some (OPRT_OK, Some (buf', n))) \<and>
    tal_aes_get_actual_length (Some buf') n = Some (int (length d)) \<and> take (length d) buf' = d \<and> length d < length buf' \<and>
    unat n \<le> length buf \<and> length d < unat n \<and> unat n \<le> length d + 16"
proof -
  let ?p = "pad_len (length d)"
  let ?m = "d @ replicate ?p (of_nat ?p)"
  let ?n = "of_nat (length d + ?p) :: u32"
  obtain e where e: "\<And>out. tal_aes128_cbc_encode_raw A ?m key iv out = (OPRT_OK, e)" "length e = length ?m"
    "\<And>out. tal_aes128_cbc_decode_raw A e key iv out = (OPRT_OK, ?m)"
    using cbc_raw_roundtrip [of A key iv ?m] assms pad_len_bounds(3) [of "length d"] by auto
  obtain buf where buf: "tal_aes128_cbc_encode (\<lambda>_. True) junk A (Some d) (of_nat (length d)) (Some key) (Some iv) =
      Some (OPRT_OK, Some (buf, ?n))" "take (length d + ?p) buf = e"
    using aes_encode_ok [of d "\<lambda>_. True" junk "\<lambda>b. tal_aes128_cbc_encode_raw A b key iv b" e] assms e
    by (auto simp: tal_aes128_cbc_encode_def)
  have n: "unat ?n = length d + ?p"
    using assms(5) pad_len_bounds(2) [of "length d"] by (intro unat_of_nat_u32) simp
  then have nz: "?n \<noteq> 0"
    using assms(4) by force
  have len: "length d + ?p \<le> length buf"
    using buf(2) e(2) by (metis length_append length_replicate length_take min.cobounded1)
  have "tal_aes128_cbc_decode (\<lambda>_. True) junk A (Some b) ?n (Some key) (Some iv) = Some (OPRT_OK, Some (?m @ [0], ?n))"
    if "unat ?n \<le> length b" "take (unat ?n) b = take (unat ?n) buf" for b
    using aes_decode_ok [of ?n b "\<lambda>_. True" junk "\<lambda>b. tal_aes128_cbc_decode_raw A b key iv b" ?m] assms e n nz buf that
      pad_len_bounds(2) [of "length d"]
    by (simp add: tal_aes128_cbc_decode_def del: of_nat_add)
  moreover have "tal_aes_get_actual_length (Some (?m @ [0])) ?n = Some (int (length d))"
    using get_actual_length_pad [of d ?p "[0]"] assms by simp
  moreover have "unat ?n \<le> length buf \<and> length d < unat ?n \<and> unat ?n \<le> length d + 16"
    using n len pad_len_bounds(1,2) [of "length d"] by simp
  ultimately show ?thesis
    using buf by (intro exI [of _ buf] exI [of _ ?n] exI [of _ "?m @ [0]"]) simp
qed



section \<open>Return codes of the one-shot calls\<close>

text \<open>
  C17: Masked failures.  Once a context exists, the return code of a one-shot call is the one of
  releasing the context: a failing key setup or a failing encryption is reported as success
  when the release succeeds, and the output buffer then holds what the failed call left in it.
\<close>

theorem aes_raw_masks_errors:
  assumes "tkl_aes_create_init A = (OPRT_OK, True)" "tkl_aes_free A = OPRT_OK"
    and "tkl_aes_setkey A SYMMETRY_ENCRYPT key 128 = OPRT_OK"
    and "tkl_aes_crypt_cbc A (SYMMETRY_ENCRYPT, key, 128) SYMMETRY_ENCRYPT iv d = (err, left)" "err \<noteq> OPRT_OK"
  shows "tal_aes128_cbc_encode_raw A d key iv out = (OPRT_OK, left)"
  using assms by (simp add: tal_aes128_cbc_encode_raw_def aes_raw_def)

theorem aes_raw_masks_errors_witness:
  "tal_aes128_cbc_encode_raw (xor_aes\<lparr> tkl_aes_crypt_cbc := \<lambda>ctx m iv d. (OPRT_COM_ERROR, []) \<rparr>)
     [1, 2, 3] (replicate 16 7) (replicate 16 9) [] = (OPRT_OK, [])"
  by (rule aes_raw_masks_errors [where err = OPRT_COM_ERROR]) (simp_all add: xor_aes_def)

section \<open>Counter mode\<close>

text \<open>The number that a byte string denotes in big-endian order.\<close>

definition be_num :: "bytes \<Rightarrow> nat" where
  "be_num bs = foldl (\<lambda>a b. a * 256 + unat b) 0 bs"

lemma be_num_snoc [simp]: "be_num (bs @ [b]) = be_num bs * 256 + unat b"
  by (simp add: be_num_def)

lemma be_num_bound: "be_num bs < 256 ^ length bs"
proof (induction bs rule: rev_induct)
  case (snoc b bs)
  have "unat b < 256"
    using unsigned_less [of b, where ?'a = nat] by simp
  moreover have "be_num bs + 1 \<le> 256 ^ length bs"
    using snoc by simp
  ultimately show ?case
    by simp
qed (simp add: be_num_def)

lemma ctr_inc_append: "i \<le> length xs \<Longrightarrow> ctr_inc i (xs @ ys) = ctr_inc i xs @ ys"
  by (induction i xs rule: ctr_inc.induct) (auto simp: Let_def nth_append list_update_append)

lemma length_ctr_inc [simp]: "length (ctr_inc i nonce) = length nonce"
  by (induction i nonce rule: ctr_inc.induct) (auto simp: Let_def)

text \<open>
  The counter step.  Incrementing the counter block adds one to the number it denotes,
  modulo the number of counter values.
\<close>

theorem ctr_inc_number:
  "be_num (ctr_inc (length nonce) nonce) = (be_num nonce + 1) mod 256 ^ length nonce"
proof (induction nonce rule: rev_induct)
  case Nil
  show ?case by (simp add: be_num_def)
next
  case (snoc b bs)
  show ?case
  proof (cases "b + 1 = 0")
    case True
    then have "b = 255"
      by (simp add: eq_neg_iff_add_eq_0 flip: eq_neg_iff_add_eq_0)
    then have "unat b = 255"
      by simp
    moreover have "ctr_inc (length (bs @ [b])) (bs @ [b]) = ctr_inc (length bs) bs @ [0]"
      using True by (simp add: Let_def nth_append list_update_append ctr_inc_append)
    ultimately show ?thesis
      using snoc.IH mult_mod_right [of 256 "be_num bs + 1" "256 ^ length bs"] by (simp add: algebra_simps)
  next
    case False
    then have "unat (b + 1) = unat b + 1"
      using unatSuc [of b] by (simp add: add.commute)
    moreover have "ctr_inc (length (bs @ [b])) (bs @ [b]) = bs @ [b + 1]"
      using False by (simp add: Let_def nth_append list_update_append)
    moreover have "be_num bs * 256 + unat (b + 1) < 256 ^ length (bs @ [b])"
      using be_num_bound [of "bs @ [b + 1]"] by simp
    ultimately show ?thesis
      by simp
  qed
qed

lemma ctr_loop_inverse:
  "ctr_loop A ctx cs n nonce sb = Some (OPRT_OK, n', nonce', sb', out) \<Longrightarrow>
     length out = length cs \<and> ctr_loop A ctx out n nonce sb = Some (OPRT_OK, n', nonce', sb', cs)"
proof (induction cs arbitrary: n nonce sb out)
  case (Cons c cs)
  obtain rc nonce1 sb1 where b: "ctr_block A ctx n nonce sb = (rc, nonce1, sb1)"
    by (metis prod_cases3)
  with Cons.prems obtain k out' where k: "rc = OPRT_OK" "rd sb1 n = Some k" "out = (c XOR k) # out'"
    "ctr_loop A ctx cs ((n + 1) mod 16) nonce1 sb1 = Some (OPRT_OK, n', nonce', sb', out')"
    by (auto simp: bind_eq_Some_conv split: if_splits)
  show ?case
    using Cons.IH [OF k(4)] b k by (simp add: xor.assoc)
qed simp

lemma ctr_loop_append:
  "ctr_loop A ctx (xs @ ys) n nonce sb = do {
     (rc, n1, nonce1, sb1, o1) \<leftarrow> ctr_loop A ctx xs n nonce sb;
     if rc \<noteq> OPRT_OK then Some (rc, n1, nonce1, sb1, o1)
     else do {
       (rc, n2, nonce2, sb2, o2) \<leftarrow> ctr_loop A ctx ys n1 nonce1 sb1;
       Some (rc, n2, nonce2, sb2, o1 @ o2) } }"
proof (induction xs arbitrary: n nonce sb)
  case Nil
  show ?case by (auto split: Option.bind_split)
next
  case (Cons x xs)
  obtain rc nonce1 sb1 where b: "ctr_block A ctx n nonce sb = (rc, nonce1, sb1)"
    by (metis prod_cases3)
  show ?case
    by (cases "rd sb1 n") (auto simp: b Cons.IH split: Option.bind_split)
qed

lemma ctr_loop_total:
  assumes "aes_laws A" "length nonce = 16" "length sb = 16" "n < 16"
  shows "\<exists>nonce' sb' out. ctr_loop A ctx cs n nonce sb = Some (OPRT_OK, (n + length cs) mod 16, nonce', sb', out) \<and>
     length nonce' = 16 \<and> length sb' = 16"
  using assms(2-4)
proof (induction cs arbitrary: n nonce sb)
  case (Cons c cs)
  obtain nonce1 sb1 where b: "ctr_block A ctx n nonce sb = (OPRT_OK, nonce1, sb1)" "length nonce1 = 16" "length sb1 = 16"
    using aes_lawsD(4) [OF assms(1), of nonce ctx SYMMETRY_ENCRYPT] Cons.prems by (cases "n = 0") (auto simp: ctr_block_def)
  obtain nonce' sb' out where "ctr_loop A ctx cs ((n + 1) mod 16) nonce1 sb1 =
      Some (OPRT_OK, ((n + 1) mod 16 + length cs) mod 16, nonce', sb', out)" "length nonce' = 16" "length sb' = 16"
    using Cons.IH [OF b(2,3), of "(n + 1) mod 16"] by auto
  moreover have "((n + 1) mod 16 + length cs) mod 16 = (n + length (c # cs)) mod 16"
    by (simp add: mod_add_left_eq)
  ultimately show ?case
    using b Cons.prems by (simp add: rd_Some)
qed simp

text \<open>
  C18: Counter mode inverts itself.  From any offset below 16, counter and key-stream block, with
  a working platform cipher, the call succeeds on input of any length without leaving a buffer,
  keeps the length, and applying it to its own output from the same starting state gives
  the input back and ends in the same state.
\<close>

theorem ctr_involution:
  assumes "aes_laws A" "length nonce = 16" "length sb = 16" "n < 16"
  shows "\<exists>nonce' sb' out.
    tal_aes_crypt_ctr A ctx (Some n) (Some nonce) (Some sb) input =
      Some (OPRT_OK, Some ((n + length input) mod 16), Some nonce', Some sb', out) \<and>
    length out = length input \<and>
    tal_aes_crypt_ctr A ctx (Some n) (Some nonce) (Some sb) out =
      Some (OPRT_OK, Some ((n + length input) mod 16), Some nonce', Some sb', input)"
proof -
  obtain nonce' sb' out where loop: "ctr_loop A ctx input n nonce sb = Some (OPRT_OK, (n + length input) mod 16, nonce', sb', out)"
    using ctr_loop_total [OF assms] by blast
  then show ?thesis
    using loop ctr_loop_inverse [OF loop] assms(4) by (simp add: tal_aes_crypt_ctr_def)
qed

theorem ctr_involution_witness:
  "\<exists>nonce' sb' out.
    tal_aes_crypt_ctr xor_aes (SYMMETRY_ENCRYPT, [1], 256) (Some 15) (Some (replicate 16 255)) (Some (replicate 16 3)) [1, 2, 3] =
      Some (OPRT_OK, Some 2, Some nonce', Some sb', out) \<and>
    tal_aes_crypt_ctr xor_aes (SYMMETRY_ENCRYPT, [1], 256) (Some 15) (Some (replicate 16 255)) (Some (replicate 16 3)) out =
      Some (OPRT_OK, Some 2, Some nonce', Some sb', [1, 2, 3])"
  using ctr_involution [OF xor_aes_laws, of "replicate 16 255" "replicate 16 3" 15 "(SYMMETRY_ENCRYPT, [1], 256)" "[1, 2, 3]"]
  by simp blast

text \<open>
  C19: Counter mode can be fed in pieces.  Splitting the input at any point and carrying offset,
  counter and key-stream block from the first call to the second gives the output and the final state of one call.
\<close>

theorem ctr_streaming:
  assumes "tal_aes_crypt_ctr A ctx (Some n) (Some nonce) (Some sb) xs = Some (OPRT_OK, Some n1, Some nonce1, Some sb1, o1)"
    and "tal_aes_crypt_ctr A ctx (Some n1) (Some nonce1) (Some sb1) ys = Some (OPRT_OK, Some n2, Some nonce2, Some sb2, o2)"
  shows "tal_aes_crypt_ctr A ctx (Some n) (Some nonce) (Some sb) (xs @ ys) = Some (OPRT_OK, Some n2, Some nonce2, Some sb2, o1 @ o2)"
  using assms by (auto simp: tal_aes_crypt_ctr_def ctr_loop_append bind_eq_Some_conv split: if_splits)

theorem ctr_streaming_witness:
  "tal_aes_crypt_ctr xor_aes (SYMMETRY_ENCRYPT, [1], 8) (Some 0) (Some (replicate 16 5)) (Some (replicate 16 0)) ([1, 2, 3] @ [4, 5]) =
     Some (OPRT_OK, Some 5, Some (replicate 15 5 @ [6]), Some (replicate 16 4), [5, 6, 7] @ [0, 1])"
proof -
  have inc: "ctr_inc 16 (replicate 16 5) = replicate 15 5 @ [6]"
    by code_simp
  show ?thesis
    by (rule ctr_streaming [where ?n1.0 = 3 and ?nonce1.0 = "replicate 15 5 @ [6]" and ?sb1.0 = "replicate 16 4"])
       (simp_all add: tal_aes_crypt_ctr_def ctr_block_def xor_aes_def xor_pad_def rd_def inc)
qed

end
