(* ===== verification/BleTrsmitr.thy ===== *)
theory BleTrsmitr
  imports Prelude
begin

unbundle bit_operations_syntax

text \<open>
  The BLE frame transmitter, \<^verbatim>\<open>src/src/tuya_cloud_service/ble/ble_trsmitr.c\<close>: a frame is cut into
  sub-packets of at most \<^verbatim>\<open>s_ble_frame_packet_len\<close> bytes, each starting with its number in a
  7-bit variable-length encoding; the first one also carries the length of the frame and a
  version/sequence byte.  The receiver checks the numbers and hands over the data of each
  sub-packet.

  The transmitter object is a record with the fields of the C struct, the two file-level
  variables are the record \<open>ble_frame_globals\<close>, and a pointer that may be \<^verbatim>\<open>NULL\<close> is an
  option.  The results are options: \<open>None\<close> is a run that leaves a buffer.  The offset into the
  sub-packet is at most 9, so the \<^verbatim>\<open>unsigned char\<close> of the source is a \<open>nat\<close> here.
\<close>

section \<open>State\<close>

datatype ble_frame_pkg_desc = BLE_FRAME_PKG_INIT | BLE_FRAME_PKG_FIRST | BLE_FRAME_PKG_MIDDLE | BLE_FRAME_PKG_END

record ble_frame_trsmitr =
  trs_total :: u32
  trs_version :: u8
  trs_seq :: u8
  trs_pkg_desc :: ble_frame_pkg_desc
  trs_subpkg_num :: u32
  trs_pkg_trsmitr_cnt :: u32
  trs_subpkg_len :: u32
  trs_subpkg :: bytes

record ble_frame_globals =
  s_ble_frame_seq :: u8
  s_ble_frame_packet_len :: u16

definition BLE_FRAME_SEQ_LMT :: u8 where "BLE_FRAME_SEQ_LMT = 16"

section \<open>Operations\<close>

definition ble_frame_trsmitr_create :: "bool \<Rightarrow> bool \<Rightarrow> ble_frame_globals \<Rightarrow> ble_frame_trsmitr option" where
  "ble_frame_trsmitr_create obj_alloc buf_alloc g =
     (let n = unat (s_ble_frame_packet_len g) in
      if \<not> obj_alloc then None else if \<not> buf_alloc then None
      else Some \<lparr> trs_total = 0, trs_version = 0, trs_seq = 0, trs_pkg_desc = BLE_FRAME_PKG_INIT,
                  trs_subpkg_num = 0, trs_pkg_trsmitr_cnt = 0, trs_subpkg_len = 0,
                  trs_subpkg = replicate n 0 \<rparr>)"

definition ble_frame_subpacket_len_get :: "ble_frame_trsmitr \<Rightarrow> u32" where
  "ble_frame_subpacket_len_get t = trs_subpkg_len t"

definition ble_frame_packet_len_get :: "ble_frame_globals \<Rightarrow> u16" where
  "ble_frame_packet_len_get g = s_ble_frame_packet_len g"

definition ble_frame_packet_len_set :: "u16 \<Rightarrow> ble_frame_globals \<Rightarrow> ble_frame_globals" where
  "ble_frame_packet_len_set n g = g\<lparr> s_ble_frame_packet_len := n \<rparr>"

definition ble_frame_subpacket_get :: "ble_frame_trsmitr \<Rightarrow> bytes" where
  "ble_frame_subpacket_get t = trs_subpkg t"

definition ble_frame_seq_get :: "ble_frame_globals \<Rightarrow> u8 \<times> ble_frame_globals" where
  "ble_frame_seq_get g =
     (if s_ble_frame_seq g \<ge> BLE_FRAME_SEQ_LMT then (0, g)
      else (s_ble_frame_seq g, g\<lparr> s_ble_frame_seq := s_ble_frame_seq g + 1 \<rparr>))"

text \<open>The two encoding loops of the sender: at most \<open>k\<close> more digits of \<open>tmp\<close> at \<open>off\<close>.\<close>

fun put_num :: "nat \<Rightarrow> u32 \<Rightarrow> nat \<Rightarrow> bytes \<Rightarrow> (nat \<times> bytes) option" where
  "put_num 0 tmp off buf = Some (off, buf)"
| "put_num (Suc k) tmp off buf = do {
     buf \<leftarrow> mem_wr off [ucast (tmp mod 0x80) OR (if tmp div 0x80 \<noteq> 0 then 0x80 else 0)] buf;
     if tmp div 0x80 = 0 then Some (Suc off, buf) else put_num k (tmp div 0x80) (Suc off) buf }"

text \<open>The two decoding loops of the receiver: at most \<open>k\<close> more digits at \<open>off\<close>, added to \<open>acc\<close>.\<close>

fun get_num :: "nat \<Rightarrow> u32 \<Rightarrow> nat \<Rightarrow> bytes \<Rightarrow> u32 \<Rightarrow> (u32 \<times> nat) option" where
  "get_num 0 multiplier off raw acc = Some (acc, off)"
| "get_num (Suc k) multiplier off raw acc = do {
     digit \<leftarrow> rd raw off;
     (let acc' = acc + ucast (digit AND 0x7f) * multiplier in
      if digit AND 0x80 = 0 then Some (acc', Suc off)
      else get_num k (multiplier * 0x80) (Suc off) raw acc') }"

definition send_init :: "ble_frame_globals \<Rightarrow> ble_frame_trsmitr \<Rightarrow> u8 \<Rightarrow> u32 \<Rightarrow> ble_frame_trsmitr \<times> ble_frame_globals" where
  "send_init g t version len =
     (if trs_pkg_desc t = BLE_FRAME_PKG_INIT then
        (let (s, g') = ble_frame_seq_get g in
         (t\<lparr> trs_total := len, trs_version := version, trs_seq := s, trs_subpkg_num := 0,
             trs_pkg_trsmitr_cnt := 0 \<rparr>, g'))
      else (t, g))"

definition put_header :: "ble_frame_trsmitr \<Rightarrow> u32 \<Rightarrow> (nat \<times> bytes) option" where
  "put_header t len = do {
     (off, sub) \<leftarrow> put_num 4 (trs_subpkg_num t) 0 (trs_subpkg t);
     if trs_subpkg_num t = 0 then do {
       (off, sub) \<leftarrow> put_num 4 len off sub;
       sub \<leftarrow> mem_wr off [push_bit 4 (trs_version t) OR (trs_seq t AND 0x0f)] sub;
       Some (Suc off, sub) }
     else Some (off, sub) }"

definition ble_frame_trsmitr_send_pkg_encode ::
  "ble_frame_globals \<Rightarrow> ble_frame_trsmitr option \<Rightarrow> u8 \<Rightarrow> bytes \<Rightarrow> u32 \<Rightarrow>
     (operate_ret \<times> ble_frame_trsmitr option \<times> ble_frame_globals) option" where
  "ble_frame_trsmitr_send_pkg_encode g tr version buf len =
     (case tr of None \<Rightarrow> Some (OPRT_INVALID_PARM, None, g)
      | Some t0 \<Rightarrow>
        (let (t, g') = send_init g t0 version len in
         if trs_subpkg_num t \<ge> 0x10000000 \<or> len \<ge> 0x10000000 then Some (OPRT_COM_ERROR, Some t, g')
         else do {
           (off, sub) \<leftarrow> put_header t len;
           (let room = ble_frame_packet_len_get g' - of_nat off;
                left = len - trs_pkg_trsmitr_cnt t;
                send_data = (if left < ucast room then ucast left else room) in
            do {
              dat \<leftarrow> mem_rd (unat (trs_pkg_trsmitr_cnt t)) (unat send_data) buf;
              sub \<leftarrow> mem_wr off dat sub;
              (let t1 = t\<lparr> trs_subpkg := sub, trs_subpkg_len := of_nat off + ucast send_data,
                           trs_pkg_trsmitr_cnt := trs_pkg_trsmitr_cnt t + ucast send_data,
                           trs_pkg_desc := (if trs_subpkg_num t = 0 then BLE_FRAME_PKG_FIRST else BLE_FRAME_PKG_MIDDLE) \<rparr> in
               if trs_pkg_trsmitr_cnt t1 < trs_total t1
               then Some (OPRT_SVC_BT_API_TRSMITR_CONTINUE, Some (t1\<lparr> trs_subpkg_num := trs_subpkg_num t1 + 1 \<rparr>), g')
               else Some (OPRT_OK, Some (t1\<lparr> trs_pkg_desc := BLE_FRAME_PKG_END \<rparr>), g')) }) }))"

definition recv_reset :: "ble_frame_trsmitr \<Rightarrow> ble_frame_trsmitr" where
  "recv_reset t = t\<lparr> trs_total := 0, trs_version := 0, trs_seq := 0, trs_pkg_trsmitr_cnt := 0 \<rparr>"

text \<open>
  The verdict on a sub-packet number: \<open>Some rc\<close> is an early return.  The object is the one
  whose \<open>trs_pkg_desc\<close> has just been set.
\<close>

definition recv_num_check :: "ble_frame_trsmitr \<Rightarrow> u32 \<Rightarrow> operate_ret option" where
  "recv_num_check t n =
     (if trs_subpkg_num t \<ge> 0x10000000 then Some OPRT_COM_ERROR
      else if trs_pkg_desc t \<noteq> BLE_FRAME_PKG_FIRST then
        (if n < trs_subpkg_num t then Some OPRT_SVC_BT_API_TRSMITR_ERROR
         else if n = trs_subpkg_num t then Some OPRT_SVC_BT_API_TRSMITR_CONTINUE
         else if n - trs_subpkg_num t > 1 then Some OPRT_SVC_BT_API_TRSMITR_ERROR
         else None)
      else None)"

text \<open>The length, version and sequence of a first sub-packet; \<open>Inl\<close> is an early return.\<close>

definition recv_head :: "ble_frame_trsmitr \<Rightarrow> nat \<Rightarrow> bytes \<Rightarrow> (operate_ret \<times> ble_frame_trsmitr + ble_frame_trsmitr \<times> nat) option" where
  "recv_head t off raw =
     (if trs_subpkg_num t = 0 then do {
        (total, off) \<leftarrow> get_num 4 1 off raw (trs_total t);
        (let t = t\<lparr> trs_total := total \<rparr> in
         if total \<ge> 0x10000000 then Some (Inl (OPRT_COM_ERROR, t))
         else do {
           b \<leftarrow> rd raw off;
           Some (Inr (t\<lparr> trs_version := drop_bit 4 (b AND 0xf0), trs_seq := b AND 0x0f \<rparr>, Suc off)) }) }
      else Some (Inr (t, off)))"

text \<open>The last part of the receiver: copy the data behind the header at \<open>off\<close>.\<close>

definition recv_data :: "ble_frame_trsmitr \<Rightarrow> nat \<Rightarrow> bytes \<Rightarrow> u16 \<Rightarrow> (operate_ret \<times> ble_frame_trsmitr) option" where
  "recv_data t off raw raw_data_len =
     (let rest = raw_data_len - of_nat off;
          left = trs_total t - trs_pkg_trsmitr_cnt t;
          n = (if left < ucast rest then ucast left else rest) in
      do {
        dat \<leftarrow> mem_rd off (unat n) raw;
        sub \<leftarrow> mem_wr 0 dat (trs_subpkg t);
        (let t = t\<lparr> trs_subpkg := sub, trs_subpkg_len := ucast n,
                    trs_pkg_trsmitr_cnt := trs_pkg_trsmitr_cnt t + ucast n \<rparr> in
         if trs_pkg_trsmitr_cnt t < trs_total t then Some (OPRT_SVC_BT_API_TRSMITR_CONTINUE, t)
         else Some (OPRT_OK, t\<lparr> trs_pkg_desc := BLE_FRAME_PKG_END \<rparr>)) })"

definition ble_frame_trsmitr_recv_pkg_decode ::
  "ble_frame_trsmitr option \<Rightarrow> bytes option \<Rightarrow> u16 \<Rightarrow> (operate_ret \<times> ble_frame_trsmitr option) option" where
  "ble_frame_trsmitr_recv_pkg_decode tr raw_data raw_data_len =
     (case (tr, raw_data) of
        (Some t, Some raw) \<Rightarrow>
          (let t = (if trs_pkg_desc t = BLE_FRAME_PKG_INIT then recv_reset t else t) in
           do {
             (n, off) \<leftarrow> get_num 4 1 0 raw 0;
             (let t = (if n = 0 then (recv_reset t)\<lparr> trs_pkg_desc := BLE_FRAME_PKG_FIRST \<rparr>
                       else t\<lparr> trs_pkg_desc := BLE_FRAME_PKG_MIDDLE \<rparr>) in
              case recv_num_check t n of
                Some rc \<Rightarrow> Some (rc, Some t)
              | None \<Rightarrow> do {
                  h \<leftarrow> recv_head (t\<lparr> trs_subpkg_num := n \<rparr>) off raw;
                  (case h of
                     Inl (rc, t) \<Rightarrow> Some (rc, Some t)
                   | Inr (t, off) \<Rightarrow> do {
                       (rc, t) \<leftarrow> recv_data t off raw raw_data_len;
                       Some (rc, Some t) }) }) })
      | _ \<Rightarrow> Some (OPRT_INVALID_PARM, tr))"

section \<open>The number encoding\<close>

text \<open>\<open>varint k n\<close> is what \<open>put_num k n\<close> writes: the base-128 digits of \<open>n\<close>, least first.\<close>

fun varint :: "nat \<Rightarrow> u32 \<Rightarrow> bytes" where
  "varint 0 n = []"
| "varint (Suc k) n = (ucast (n mod 0x80) OR (if n div 0x80 \<noteq> 0 then 0x80 else 0)) #
     (if n div 0x80 = 0 then [] else varint k (n div 0x80))"

lemma length_varint: "length (varint k n) \<le> k"
  by (induction k n rule: varint.induct) auto

lemma mem_wr_Cons:
  "mem_wr off (x # xs) buf = do { b \<leftarrow> mem_wr off [x] buf; mem_wr (Suc off) xs b }"
  by (auto simp: mem_wr_def bind_eq_Some_conv take_Cons' min_def drop_Cons' ac_simps split: if_splits)

lemma put_num_varint:
  "put_num (Suc k) n off buf = map_option (Pair (off + length (varint (Suc k) n))) (mem_wr off (varint (Suc k) n) buf)"
proof (induction k arbitrary: n off buf)
  case 0
  show ?case
    by (cases "mem_wr off [ucast (n mod 0x80) OR (if n div 0x80 \<noteq> 0 then 0x80 else 0)] buf") auto
next
  case (Suc k)
  show ?case
  proof (cases "n div 0x80 = 0")
    case True
    then show ?thesis
      by (cases "mem_wr off [ucast (n mod 0x80)] buf") auto
  next
    case False
    define v where "v = varint (Suc k) (n div 0x80)"
    show ?thesis
      using False Suc.IH [of "n div 0x80"] mem_wr_Cons [of off _ v buf]
      by (simp del: put_num.simps varint.simps
            add: put_num.simps(2) [of "Suc k"] varint.simps(2) [of "Suc k"] flip: v_def)
         (simp add: map_option_bind comp_def)
  qed
qed

lemma x7f_mask: "(0x7f :: u8) = mask 7"
  by (simp add: mask_numeral)

lemma bit_x80: "bit (0x80 :: int) n \<longleftrightarrow> n = 7"
proof -
  have "bit (push_bit 7 (1 :: int)) n \<longleftrightarrow> n = 7"
    unfolding bit_push_bit_iff bit_1_iff by auto
  then show ?thesis by simp
qed

lemma mod_x80: "(n :: u32) mod 0x80 = take_bit 7 n"
  by (simp add: take_bit_eq_mod)

lemma digit_low: "ucast ((ucast ((n::u32) mod 0x80) OR (if b then 0x80 else 0) :: u8) AND 0x7f) = n mod 0x80"
  unfolding x7f_mask mod_x80 by (rule bit_word_eqI) (auto simp: bit_simps bit_x80)

lemma digit_high: "((ucast ((n::u32) mod 0x80) OR (if b then 0x80 else 0) :: u8) AND 0x80 = 0) \<longleftrightarrow> \<not> b"
proof -
  have "(x :: u8) AND 0x80 = 0 \<longleftrightarrow> \<not> bit x 7" for x
    by (auto simp: bit_eq_iff [of "x AND 0x80" 0] bit_simps bit_x80 dest: spec [of _ 7])
  then show ?thesis
    unfolding mod_x80 by (simp add: bit_simps bit_x80)
qed

lemma get_num_varint:
  "unat n < 128 ^ Suc k \<Longrightarrow>
     get_num (Suc k) m (length pre) (pre @ varint (Suc k) n @ rest) acc =
       Some (acc + n * m, length pre + length (varint (Suc k) n))"
proof (induction k arbitrary: n m pre acc)
  case 0
  then have "n < 0x80"
    by (simp add: word_less_nat_alt)
  then have "n div 0x80 = 0" "n mod 0x80 = n"
    by (simp_all add: div_word_less mod_word_less)
  then show ?case
    using digit_low [of n False] digit_high [of n False] by (simp add: rd_append_right [of pre _ 0, simplified] rd_Some Let_def)
next
  case (Suc k)
  define d where "d = (ucast (n mod 0x80) OR (if n div 0x80 \<noteq> 0 then 0x80 else 0) :: u8)"
  have low: "ucast (d AND 0x7f) = n mod 0x80" and high: "d AND 0x80 = 0 \<longleftrightarrow> n div 0x80 = 0"
    using digit_low [of n "n div 0x80 \<noteq> 0"] digit_high [of n "n div 0x80 \<noteq> 0"] by (auto simp: d_def)
  have n: "n = n div 0x80 * 0x80 + n mod 0x80"
    by (simp add: word_mod_div_equality)
  show ?case
  proof (cases "n div 0x80 = 0")
    case True
    then show ?thesis
      using n low high unfolding d_def
      by (simp add: rd_append_right [of pre _ 0, simplified] rd_Some Let_def)
  next
    case False
    have "unat (n div 0x80) < 128 ^ Suc k"
      using Suc.prems by (simp add: unat_div less_mult_imp_div_less)
    from Suc.IH [OF this, of "m * 0x80" "pre @ [d]" "acc + n mod 0x80 * m"] have
      "get_num (Suc k) (m * 0x80) (Suc (length pre)) (pre @ d # varint (Suc k) (n div 0x80) @ rest) (acc + n mod 0x80 * m) =
        Some (acc + n mod 0x80 * m + n div 0x80 * (m * 0x80), Suc (length pre) + length (varint (Suc k) (n div 0x80)))"
      by simp
    moreover have "n mod 0x80 * m + n div 0x80 * (m * 0x80) = n * m"
      by (subst (3) n) (simp add: algebra_simps)
    ultimately show ?thesis
      using False low high unfolding d_def
      by (simp del: varint.simps get_num.simps
          add: varint.simps(2) [of "Suc k"] get_num.simps(2) [of "Suc k"] rd_append_right [of pre _ 0, simplified] rd_Some Let_def add.assoc)
  qed
qed

lemma put_num4: "put_num 4 n off buf = map_option (Pair (off + length (varint 4 n))) (mem_wr off (varint 4 n) buf)"
proof -
  have "Suc 3 = (4 :: nat)" by simp
  then show ?thesis
    using put_num_varint [of 3 n off buf] by metis
qed

lemma get_num4:
  assumes "n < 0x10000000"
  shows "get_num 4 1 (length pre) (pre @ varint 4 n @ rest) acc = Some (acc + n, length pre + length (varint 4 n))"
proof -
  have "unat n < 128 ^ Suc 3"
    using assms by (simp add: word_less_nat_alt)
  moreover have "Suc 3 = (4 :: nat)" by simp
  ultimately show ?thesis
    using get_num_varint [of n 3 1 pre rest acc] by (metis mult_1_right)
qed

section \<open>One sub-packet\<close>

text \<open>The header of the sub-packet that a sender in state \<open>t\<close> produces for a frame of length \<open>len\<close>.\<close>

definition hdr :: "ble_frame_trsmitr \<Rightarrow> u32 \<Rightarrow> bytes" where
  "hdr t len = varint 4 (trs_subpkg_num t) @
     (if trs_subpkg_num t = 0
      then varint 4 len @ [push_bit 4 (trs_version t) OR (trs_seq t AND 0x0f)] else [])"

lemma length_hdr: "length (hdr t len) \<le> 6"
proof (cases "trs_subpkg_num t = 0")
  case True
  then show ?thesis
    using length_varint [of 4 len] by (simp add: hdr_def numeral_eq_Suc)
next
  case False
  then show ?thesis
    using length_varint [of 4 "trs_subpkg_num t"] by (simp add: hdr_def)
qed

lemma put_header_hdr:
  assumes "length (hdr t len) \<le> length (trs_subpkg t)"
  shows "put_header t len = Some (length (hdr t len), hdr t len @ drop (length (hdr t len)) (trs_subpkg t))"
  using assms by (auto simp: put_header_def hdr_def mem_wr_def put_num4 add.commute)

lemma version_byte:
  "drop_bit 4 ((push_bit 4 v OR (s AND 0x0f)) AND 0xf0) = (v AND 0x0f :: u8)"
  "(push_bit 4 v OR (s AND 0x0f)) AND 0x0f = (s AND 0x0f :: u8)"
  "drop_bit 4 (push_bit 4 v) AND 0x0f = (v AND 0x0f :: u8)"
proof -
  have f: "(0x0f :: u8) = mask 4" and h: "(0xf0 :: u8) = push_bit 4 (mask 4)"
    by (simp_all add: mask_numeral)
  show "drop_bit 4 ((push_bit 4 v OR (s AND 0x0f)) AND 0xf0) = (v AND 0x0f :: u8)"
    unfolding f h by (rule bit_word_eqI) (auto simp: bit_simps)
  show "(push_bit 4 v OR (s AND 0x0f)) AND 0x0f = (s AND 0x0f :: u8)"
    unfolding f by (rule bit_word_eqI) (auto simp: bit_simps)
  show "drop_bit 4 (push_bit 4 v) AND 0x0f = (v AND 0x0f :: u8)"
    unfolding f by (rule bit_word_eqI) (auto simp: bit_simps)
qed

lemma send_step:
  assumes init: "send_init g t0 v len = (t, g')"
    and num: "trs_subpkg_num t < 0x10000000" and len: "len < 0x10000000"
    and sub: "length (trs_subpkg t) = unat (s_ble_frame_packet_len g')"
    and room: "length (hdr t len) < unat (s_ble_frame_packet_len g')"
    and buf: "length buf = unat len" and cnt: "trs_pkg_trsmitr_cnt t \<le> len" and tot: "trs_total t = len"
    and n: "n = min (unat (s_ble_frame_packet_len g') - length (hdr t len)) (length buf - unat (trs_pkg_trsmitr_cnt t))"
    and t1: "t1 = t\<lparr> trs_subpkg := hdr t len @ take n (drop (unat (trs_pkg_trsmitr_cnt t)) buf) @ drop (length (hdr t len) + n) (trs_subpkg t),
                    trs_subpkg_len := of_nat (length (hdr t len) + n),
                    trs_pkg_trsmitr_cnt := trs_pkg_trsmitr_cnt t + of_nat n,
                    trs_pkg_desc := (if trs_subpkg_num t = 0 then BLE_FRAME_PKG_FIRST else BLE_FRAME_PKG_MIDDLE) \<rparr>"
  shows "ble_frame_trsmitr_send_pkg_encode g (Some t0) v buf len =
    (if unat (trs_pkg_trsmitr_cnt t) + n < length buf
     then Some (OPRT_SVC_BT_API_TRSMITR_CONTINUE, Some (t1\<lparr> trs_subpkg_num := trs_subpkg_num t + 1 \<rparr>), g')
     else Some (OPRT_OK, Some (t1\<lparr> trs_pkg_desc := BLE_FRAME_PKG_END \<rparr>), g'))"
proof -
  let ?h = "length (hdr t len)"
  define c where "c = trs_pkg_trsmitr_cnt t"
  define room' where "room' = s_ble_frame_packet_len g' - of_nat ?h"
  define sd where "sd = (if len - c < ucast room' then ucast (len - c) else room')"
  have "?h \<le> 6"
    by (rule length_hdr)
  then have "unat (of_nat ?h :: u16) = ?h"
    by (simp add: unat_of_nat)
  then have r: "unat room' = unat (s_ble_frame_packet_len g') - ?h"
    using room unfolding room'_def by (subst unat_sub) (simp_all add: word_le_nat_alt)
  have left: "unat (len - c) = length buf - unat c"
    using cnt buf by (simp add: u32_sub_nat c_def)
  have sd: "unat sd = n"
    using n r left unat_ucast_32_16 [of "len - c"] unat_u16_less [of room']
    by (auto simp: sd_def c_def word_less_nat_alt unat_ucast_16_32 min_def)
  have sdc: "ucast sd = (of_nat n :: u32)"
    by (simp flip: sd)
  have "unat c + n \<le> unat len"
    using n cnt buf by (simp add: c_def word_le_nat_alt)
  then have lt: "c + of_nat n < len \<longleftrightarrow> unat c + n < length buf"
    using buf unat_u32_less [of len] by (simp add: word_less_nat_alt unat_word_ariths unat_of_nat)
  define d where "d = take n (drop (unat c) buf)"
  have d: "length d = n"
    using n by (simp add: d_def c_def)
  have ph: "put_header t len = Some (?h, hdr t len @ drop ?h (trs_subpkg t))"
    using room sub by (simp add: put_header_hdr)
  have rdb: "mem_rd (unat c) (unat sd) buf = Some d"
    using n cnt buf sd by (simp add: mem_rd_def d_def c_def word_le_nat_alt)
  have wr: "mem_wr ?h d (hdr t len @ drop ?h (trs_subpkg t)) = Some (hdr t len @ d @ drop (?h + n) (trs_subpkg t))"
    using n d room sub by (simp add: mem_wr_def add.commute)
  have "\<not> 0x10000000 \<le> trs_subpkg_num t" "\<not> 0x10000000 \<le> len"
    using num len by (simp_all add: not_le)
  then show ?thesis
    unfolding ble_frame_trsmitr_send_pkg_encode_def t1 ble_frame_packet_len_get_def
    using rdb [unfolded c_def] wr tot
    by (simp add: init ph Let_def lt [unfolded c_def] sdc split del: if_split cong: if_cong
          flip: sd_def [unfolded c_def room'_def] d_def [unfolded c_def])
qed

lemma recv_data_step:
  assumes raw: "length h + length d < 65536" and cnt: "trs_pkg_trsmitr_cnt t \<le> trs_total t"
    and d: "length d \<le> unat (trs_total t) - unat (trs_pkg_trsmitr_cnt t)" "length d \<le> length (trs_subpkg t)"
    and t1: "t1 = t\<lparr> trs_subpkg := d @ drop (length d) (trs_subpkg t), trs_subpkg_len := of_nat (length d),
                       trs_pkg_trsmitr_cnt := trs_pkg_trsmitr_cnt t + of_nat (length d) \<rparr>"
  shows "recv_data t (length h) (h @ d) (of_nat (length h) + of_nat (length d)) =
    (if unat (trs_pkg_trsmitr_cnt t) + length d < unat (trs_total t)
     then Some (OPRT_SVC_BT_API_TRSMITR_CONTINUE, t1)
     else Some (OPRT_OK, t1\<lparr> trs_pkg_desc := BLE_FRAME_PKG_END \<rparr>))"
proof -
  define rest where "rest = (of_nat (length h) + of_nat (length d) - of_nat (length h) :: u16)"
  have "rest = of_nat (length d)"
    by (simp add: rest_def)
  then have rest: "unat rest = length d"
    using raw by (simp add: unat_of_nat)
  have rest32: "ucast rest = (of_nat (length d) :: u32)"
    by (simp flip: rest)
  have "unat (trs_total t - trs_pkg_trsmitr_cnt t) = unat (trs_total t) - unat (trs_pkg_trsmitr_cnt t)"
    using cnt by (rule u32_sub_nat)
  then have le: "\<not> trs_total t - trs_pkg_trsmitr_cnt t < ucast rest"
    using d rest by (simp add: word_less_nat_alt unat_ucast_16_32)
  have "unat (trs_pkg_trsmitr_cnt t) + length d \<le> unat (trs_total t)"
    using d cnt by (simp add: word_le_nat_alt)
  then have lt: "trs_pkg_trsmitr_cnt t + of_nat (length d) < trs_total t \<longleftrightarrow> unat (trs_pkg_trsmitr_cnt t) + length d < unat (trs_total t)"
    using unat_u32_less [of "trs_total t"] by (simp add: word_less_nat_alt unat_word_ariths unat_of_nat)
  have "mem_rd (length h) (length d) (h @ d) = Some d" "mem_wr 0 d (trs_subpkg t) = Some (d @ drop (length d) (trs_subpkg t))"
    using d by (simp_all add: mem_rd_def mem_wr_def)
  then show ?thesis
    using le lt rest rest32 unfolding recv_data_def t1 rest_def [symmetric] Let_def by simp
qed

lemma recv_step:
  assumes num: "trs_subpkg_num t < 0x10000000" "trs_subpkg_num r < 0x10000000" and len: "len < 0x10000000"
    and mid: "trs_subpkg_num t \<noteq> 0 \<Longrightarrow>
      trs_subpkg_num t = trs_subpkg_num r + 1 \<and> trs_total r = len \<and> trs_pkg_desc r \<noteq> BLE_FRAME_PKG_INIT"
    and c: "c = (if trs_subpkg_num t = 0 then 0 else trs_pkg_trsmitr_cnt r)" "c \<le> len"
    and d: "length d \<le> unat len - unat c" "length d \<le> length (trs_subpkg r)"
    and raw: "length (hdr t len @ d) < 65536"
    and r1: "r1 = r\<lparr> trs_total := len,
      trs_version := (if trs_subpkg_num t = 0 then trs_version t AND 0x0f else trs_version r),
      trs_seq := (if trs_subpkg_num t = 0 then trs_seq t AND 0x0f else trs_seq r),
      trs_pkg_desc := (if trs_subpkg_num t = 0 then BLE_FRAME_PKG_FIRST else BLE_FRAME_PKG_MIDDLE),
      trs_subpkg_num := trs_subpkg_num t, trs_pkg_trsmitr_cnt := c + of_nat (length d),
      trs_subpkg_len := of_nat (length d), trs_subpkg := d @ drop (length d) (trs_subpkg r) \<rparr>"
  shows "ble_frame_trsmitr_recv_pkg_decode (Some r) (Some (hdr t len @ d)) (of_nat (length (hdr t len @ d))) =
    (if unat c + length d < unat len
     then Some (OPRT_SVC_BT_API_TRSMITR_CONTINUE, Some r1)
     else Some (OPRT_OK, Some (r1\<lparr> trs_pkg_desc := BLE_FRAME_PKG_END \<rparr>)))"
proof (cases "trs_subpkg_num t = 0")
  case True
  let ?v = "push_bit 4 (trs_version t) OR (trs_seq t AND 0x0f)"
  have h: "hdr t len = varint 4 0 @ varint 4 len @ [?v]"
    using True by (simp add: hdr_def)
  have n: "get_num 4 1 0 (hdr t len @ d) 0 = Some (0, length (varint 4 0))"
    using get_num4 [of 0 "[]"] by (simp add: h)
  have hd: "recv_head s (length (varint 4 0)) (hdr t len @ d) =
      Some (Inr (s\<lparr> trs_total := len, trs_version := trs_version t AND 0x0f, trs_seq := trs_seq t AND 0x0f \<rparr>, length (hdr t len)))"
    if "trs_subpkg_num s = 0" "trs_total s = 0" for s
    using that len get_num4 [of len "varint 4 0" "?v # d" 0] rd_append_right [of "varint 4 0 @ varint 4 len" "?v # d" 0]
    by (simp add: recv_head_def h Let_def not_le [symmetric] version_byte rd_Some)
  have "\<not> 0x10000000 \<le> trs_subpkg_num r"
    using num by (simp add: not_le)
  then have "ble_frame_trsmitr_recv_pkg_decode (Some r) (Some (hdr t len @ d)) (of_nat (length (hdr t len @ d))) =
     do { (rc, t) \<leftarrow> recv_data (r\<lparr> trs_pkg_trsmitr_cnt := 0, trs_pkg_desc := BLE_FRAME_PKG_FIRST, trs_subpkg_num := 0,
             trs_total := len, trs_version := trs_version t AND 0x0f, trs_seq := trs_seq t AND 0x0f \<rparr>)
             (length (hdr t len)) (hdr t len @ d) (of_nat (length (hdr t len)) + of_nat (length d));
          Some (rc, Some t) }"
    using True n hd
    by (simp add: ble_frame_trsmitr_recv_pkg_decode_def recv_num_check_def Let_def recv_reset_def)
  also have "\<dots> = (if unat c + length d < unat len
     then Some (OPRT_SVC_BT_API_TRSMITR_CONTINUE, Some r1)
     else Some (OPRT_OK, Some (r1\<lparr> trs_pkg_desc := BLE_FRAME_PKG_END \<rparr>)))"
    using True c d raw by (subst recv_data_step [OF _ _ _ _ refl]) (simp_all add: r1)
  finally show ?thesis .
next
  case False
  have h: "hdr t len = varint 4 (trs_subpkg_num t)"
    using False by (simp add: hdr_def)
  have n: "get_num 4 1 0 (hdr t len @ d) 0 = Some (trs_subpkg_num t, length (hdr t len))"
    using get_num4 [of "trs_subpkg_num t" "[]"] num by (simp add: h)
  have "\<not> trs_subpkg_num t < trs_subpkg_num r" "trs_subpkg_num t \<noteq> trs_subpkg_num r"
      "\<not> 0x10000000 \<le> trs_subpkg_num r"
    using mid [OF False] num by (auto simp: word_less_nat_alt unat_word_ariths not_le)
  then show ?thesis
    using False mid num n c d raw
    by (simp add: ble_frame_trsmitr_recv_pkg_decode_def recv_num_check_def Let_def recv_head_def r1
        recv_data_step [of "hdr t len" d])
qed

section \<open>A whole frame\<close>

text \<open>
  \<open>send_frames\<close> calls the sender until it no longer asks to continue and collects the
  sub-packets; \<open>fuel\<close> bounds the number of calls, and \<open>None\<close> also stands for running out of it.
  \<open>recv_frames\<close> hands sub-packets to the receiver and collects the return codes and the states.
\<close>

fun send_frames :: "nat \<Rightarrow> ble_frame_globals \<Rightarrow> ble_frame_trsmitr \<Rightarrow> u8 \<Rightarrow> bytes \<Rightarrow> bytes list option" where
  "send_frames 0 g t version buf = None"
| "send_frames (Suc fuel) g t version buf =
     (case ble_frame_trsmitr_send_pkg_encode g (Some t) version buf (of_nat (length buf)) of
        Some (rc, Some t', g') \<Rightarrow>
          (let p = take (unat (ble_frame_subpacket_len_get t')) (ble_frame_subpacket_get t') in
           if rc = OPRT_SVC_BT_API_TRSMITR_CONTINUE then map_option ((#) p) (send_frames fuel g' t' version buf)
           else if rc = OPRT_OK then Some [p] else None)
      | _ \<Rightarrow> None)"

fun recv_frames :: "ble_frame_trsmitr \<Rightarrow> bytes list \<Rightarrow> (operate_ret \<times> ble_frame_trsmitr) list option" where
  "recv_frames r [] = Some []"
| "recv_frames r (p # ps) =
     (case ble_frame_trsmitr_recv_pkg_decode (Some r) (Some p) (of_nat (length p)) of
        Some (rc, Some r') \<Rightarrow> map_option ((#) (rc, r')) (recv_frames r' ps)
      | _ \<Rightarrow> None)"

definition subpkg_data :: "ble_frame_trsmitr \<Rightarrow> bytes" where
  "subpkg_data r = take (unat (ble_frame_subpacket_len_get r)) (ble_frame_subpacket_get r)"

text \<open>A receiver state reports the start of a frame.\<close>

definition starts_frame :: "ble_frame_trsmitr \<Rightarrow> bool" where
  "starts_frame r \<longleftrightarrow>
     trs_pkg_desc r = BLE_FRAME_PKG_FIRST \<or> trs_pkg_desc r = BLE_FRAME_PKG_END \<and> trs_subpkg_num r = 0"

text \<open>The state shared by a sender about to send and a receiver that has got everything so far.\<close>

definition synced :: "nat \<Rightarrow> bytes \<Rightarrow> ble_frame_trsmitr \<Rightarrow> ble_frame_trsmitr \<Rightarrow> bool" where
  "synced plen buf t r \<longleftrightarrow>
     length buf < 0x10000000 \<and> 6 < plen \<and> plen < 65536 \<and> trs_total t = of_nat (length buf) \<and>
     length (trs_subpkg t) = plen \<and> plen \<le> length (trs_subpkg r) \<and>
     unat (trs_subpkg_num t) \<le> unat (trs_pkg_trsmitr_cnt t) \<and> unat (trs_pkg_trsmitr_cnt t) \<le> length buf \<and>
     trs_subpkg_num r < 0x10000000 \<and>
     (if trs_subpkg_num t = 0 then trs_pkg_trsmitr_cnt t = 0
      else trs_subpkg_num t = trs_subpkg_num r + 1 \<and> trs_total r = of_nat (length buf) \<and>
           trs_pkg_desc r \<noteq> BLE_FRAME_PKG_INIT \<and> trs_pkg_trsmitr_cnt r = trs_pkg_trsmitr_cnt t \<and>
           unat (trs_pkg_trsmitr_cnt t) < length buf)"

lemma synced_step:
  assumes init: "send_init g t0 v (of_nat (length buf)) = (t, g')"
    and sync: "synced (unat (s_ble_frame_packet_len g')) buf t r"
  obtains t' r' n p rc where
    "unat (trs_pkg_trsmitr_cnt t) + n \<le> length buf"
    "rc = (if unat (trs_pkg_trsmitr_cnt t) + n < length buf then OPRT_SVC_BT_API_TRSMITR_CONTINUE else OPRT_OK)"
    "ble_frame_trsmitr_send_pkg_encode g (Some t0) v buf (of_nat (length buf)) = Some (rc, Some t', g')"
    "p = take (unat (trs_subpkg_len t')) (trs_subpkg t')" "length p \<le> unat (s_ble_frame_packet_len g')"
    "ble_frame_trsmitr_recv_pkg_decode (Some r) (Some p) (of_nat (length p)) = Some (rc, Some r')"
    "take (unat (trs_subpkg_len r')) (trs_subpkg r') = take n (drop (unat (trs_pkg_trsmitr_cnt t)) buf)"
    "trs_version r' = (if trs_subpkg_num t = 0 then trs_version t AND 0x0f else trs_version r)"
    "rc = OPRT_SVC_BT_API_TRSMITR_CONTINUE \<longrightarrow> synced (unat (s_ble_frame_packet_len g')) buf t' r' \<and> 0 < n \<and>
       trs_pkg_desc t' \<noteq> BLE_FRAME_PKG_INIT \<and> unat (trs_pkg_trsmitr_cnt t') = unat (trs_pkg_trsmitr_cnt t) + n \<and>
       trs_subpkg_num t' \<noteq> 0"
    "rc = OPRT_OK \<longrightarrow> trs_pkg_desc r' = BLE_FRAME_PKG_END"
    "trs_subpkg_num r' = trs_subpkg_num t" "starts_frame r' \<longleftrightarrow> trs_subpkg_num t = 0" "unat (trs_subpkg_len r') \<le> length (trs_subpkg r')"
proof -
  define plen where "plen = unat (s_ble_frame_packet_len g')"
  define len where "len = (of_nat (length buf) :: u32)"
  define c where "c = unat (trs_pkg_trsmitr_cnt t)"
  define h where "h = hdr t len"
  define n where "n = min (plen - length h) (length buf - c)"
  define d where "d = take n (drop c buf)"
  have s: "length buf < 0x10000000" "6 < plen" "plen < 65536" "length (trs_subpkg t) = plen" "plen \<le> length (trs_subpkg r)" "c \<le> length buf"
    and nums: "unat (trs_subpkg_num t) \<le> c" "trs_subpkg_num r < 0x10000000"
    using sync by (simp_all add: synced_def plen_def c_def)
  have h: "length h \<le> 6"
    unfolding h_def by (rule length_hdr)
  have len: "unat len = length buf" "len < 0x10000000"
    using s by (simp_all add: len_def unat_of_nat word_less_nat_alt)
  have num: "trs_subpkg_num t < 0x10000000"
    using nums s by (simp add: word_less_nat_alt)
  have cnt: "trs_pkg_trsmitr_cnt t \<le> len"
    using s len by (simp add: word_le_nat_alt c_def)
  have d: "length d = n" "length h + n \<le> plen"
    using h s by (simp_all add: d_def n_def)
  define first where "first \<longleftrightarrow> trs_subpkg_num t = 0"
  define more where "more \<longleftrightarrow> c + n < length buf"
  define rc where "rc = (if more then OPRT_SVC_BT_API_TRSMITR_CONTINUE else OPRT_OK)"
  define desc where "desc = (if first then BLE_FRAME_PKG_FIRST else BLE_FRAME_PKG_MIDDLE)"
  define t1 where "t1 = t\<lparr> trs_subpkg := h @ d @ drop (length h + n) (trs_subpkg t),
    trs_subpkg_len := of_nat (length h + n), trs_pkg_trsmitr_cnt := trs_pkg_trsmitr_cnt t + of_nat n,
    trs_pkg_desc := desc \<rparr>"
  define t' where "t' = (if more then t1\<lparr> trs_subpkg_num := trs_subpkg_num t + 1 \<rparr> else t1\<lparr> trs_pkg_desc := BLE_FRAME_PKG_END \<rparr>)"
  define r1 where "r1 = r\<lparr> trs_total := len, trs_version := (if first then trs_version t AND 0x0f else trs_version r),
    trs_seq := (if first then trs_seq t AND 0x0f else trs_seq r), trs_pkg_desc := desc,
    trs_subpkg_num := trs_subpkg_num t, trs_pkg_trsmitr_cnt := trs_pkg_trsmitr_cnt t + of_nat n,
    trs_subpkg_len := of_nat n, trs_subpkg := d @ drop n (trs_subpkg r) \<rparr>"
  define r' where "r' = (if more then r1 else r1\<lparr> trs_pkg_desc := BLE_FRAME_PKG_END \<rparr>)"
  have snd: "ble_frame_trsmitr_send_pkg_encode g (Some t0) v buf len = Some (rc, Some t', g')"
  proof (subst send_step [OF init [folded len_def] num len(2) _ _ _ cnt _ n_def [unfolded plen_def c_def h_def]
        t1_def [unfolded d_def c_def h_def desc_def first_def]])
    show "trs_total t = len"
      using sync by (simp add: synced_def len_def)
  qed (use s h len in \<open>simp_all add: h_def plen_def rc_def t'_def more_def c_def\<close>)
  have rcv: "ble_frame_trsmitr_recv_pkg_decode (Some r) (Some (h @ d)) (of_nat (length (h @ d))) = Some (rc, Some r')"
    unfolding h_def
  proof (subst recv_step [OF num nums(2) len(2) _ _ cnt])
    show "r1 = r\<lparr> trs_total := len,
      trs_version := (if trs_subpkg_num t = 0 then trs_version t AND 0x0f else trs_version r),
      trs_seq := (if trs_subpkg_num t = 0 then trs_seq t AND 0x0f else trs_seq r),
      trs_pkg_desc := (if trs_subpkg_num t = 0 then BLE_FRAME_PKG_FIRST else BLE_FRAME_PKG_MIDDLE),
      trs_subpkg_num := trs_subpkg_num t, trs_pkg_trsmitr_cnt := trs_pkg_trsmitr_cnt t + of_nat (length d),
      trs_subpkg_len := of_nat (length d), trs_subpkg := d @ drop (length d) (trs_subpkg r) \<rparr>"
      by (simp add: r1_def first_def desc_def d)
    show "trs_subpkg_num t = trs_subpkg_num r + 1 \<and> trs_total r = len \<and> trs_pkg_desc r \<noteq> BLE_FRAME_PKG_INIT"
      if "trs_subpkg_num t \<noteq> 0"
      using sync that by (simp add: synced_def len_def)
    show "trs_pkg_trsmitr_cnt t = (if trs_subpkg_num t = 0 then 0 else trs_pkg_trsmitr_cnt r)"
      using sync by (simp add: synced_def split: if_splits)
  qed (use s h len d in \<open>simp_all add: n_def h_def rc_def r'_def more_def c_def\<close>)
  have pkt: "h @ d = take (unat (trs_subpkg_len t')) (trs_subpkg t')"
    using d h s by (simp add: t'_def t1_def unat_of_nat unat_word_ariths)
  have dat: "take (unat (trs_subpkg_len r')) (trs_subpkg r') = d"
    using d h s by (simp add: r'_def r1_def unat_of_nat)
  have nxt: "synced plen buf t' r' \<and> 0 < n \<and> trs_pkg_desc t' \<noteq> BLE_FRAME_PKG_INIT \<and>
      unat (trs_pkg_trsmitr_cnt t') = c + n \<and> trs_subpkg_num t' \<noteq> 0" if more
  proof -
    have "0 < n"
      using that h s by (simp add: more_def n_def)
    moreover have c': "unat (trs_pkg_trsmitr_cnt t + of_nat n) = c + n"
      using that s by (simp add: more_def c_def unat_word_ariths unat_of_nat)
    moreover have n': "unat (trs_subpkg_num t + 1) = unat (trs_subpkg_num t) + 1"
      using nums s by (simp add: unat_word_ariths)
    then have "trs_subpkg_num t + 1 \<noteq> 0"
      by (metis add_is_0 one_neq_zero unsigned_0)
    ultimately show ?thesis
      using that sync s nums num n' d h
      by (simp add: t'_def t1_def r'_def r1_def synced_def desc_def more_def len_def plen_def c_def)
  qed
  have le: "c + n \<le> length buf"
    using s(6) by (simp add: n_def)
  have plen': "length (h @ d) \<le> plen"
    using d by simp
  have ver: "trs_version r' = (if trs_subpkg_num t = 0 then trs_version t AND 0x0f else trs_version r)"
    by (simp add: r'_def r1_def first_def)
  show thesis
  proof (rule that [OF le [unfolded c_def] rc_def [unfolded more_def c_def] snd [unfolded len_def] pkt
        plen' [unfolded plen_def] rcv dat [unfolded d_def c_def] ver])
    show "rc = OPRT_OK \<longrightarrow> trs_pkg_desc r' = BLE_FRAME_PKG_END"
      by (simp add: r'_def rc_def)
    show "trs_subpkg_num r' = trs_subpkg_num t"
      by (simp add: r'_def r1_def)
    show "starts_frame r' \<longleftrightarrow> trs_subpkg_num t = 0"
      by (auto simp: starts_frame_def r'_def r1_def desc_def first_def)
    show "unat (trs_subpkg_len r') \<le> length (trs_subpkg r')"
      using d h s by (simp add: r'_def r1_def unat_of_nat)
  qed (use nxt in \<open>auto simp: rc_def plen_def c_def split: if_splits\<close>)
qed

lemma frames_sync:
  assumes "send_init g t0 v (of_nat (length buf)) = (t, g')"
    and "synced (unat (s_ble_frame_packet_len g')) buf t r" and "length buf - unat (trs_pkg_trsmitr_cnt t) < fuel"
  shows "\<exists>ps rs. send_frames fuel g t0 v buf = Some ps \<and> recv_frames r ps = Some rs \<and> rs \<noteq> [] \<and>
    map fst rs = replicate (length ps - 1) OPRT_SVC_BT_API_TRSMITR_CONTINUE @ [OPRT_OK] \<and>
    concat (map (\<lambda>x. subpkg_data (snd x)) rs) = drop (unat (trs_pkg_trsmitr_cnt t)) buf \<and>
    (\<forall>p \<in> set ps. length p \<le> unat (s_ble_frame_packet_len g')) \<and>
    trs_version (snd (last rs)) = (if trs_subpkg_num t = 0 then trs_version t AND 0x0f else trs_version r) \<and>
    (starts_frame (snd (hd rs)) \<longleftrightarrow> trs_subpkg_num t = 0) \<and> (\<forall>x \<in> set (tl rs). \<not> starts_frame (snd x)) \<and>
    (\<forall>x \<in> set rs. unat (trs_subpkg_len (snd x)) \<le> length (trs_subpkg (snd x)))"
  using assms
proof (induction fuel arbitrary: g t0 t r)
  case 0
  then show ?case by simp
next
  case (Suc fuel)
  obtain t' r' n p rc where st:
    "unat (trs_pkg_trsmitr_cnt t) + n \<le> length buf"
    "rc = (if unat (trs_pkg_trsmitr_cnt t) + n < length buf then OPRT_SVC_BT_API_TRSMITR_CONTINUE else OPRT_OK)"
    "ble_frame_trsmitr_send_pkg_encode g (Some t0) v buf (of_nat (length buf)) = Some (rc, Some t', g')"
    "p = take (unat (trs_subpkg_len t')) (trs_subpkg t')" "length p \<le> unat (s_ble_frame_packet_len g')"
    "ble_frame_trsmitr_recv_pkg_decode (Some r) (Some p) (of_nat (length p)) = Some (rc, Some r')"
    "take (unat (trs_subpkg_len r')) (trs_subpkg r') = take n (drop (unat (trs_pkg_trsmitr_cnt t)) buf)"
    "trs_version r' = (if trs_subpkg_num t = 0 then trs_version t AND 0x0f else trs_version r)"
    "rc = OPRT_SVC_BT_API_TRSMITR_CONTINUE \<longrightarrow> synced (unat (s_ble_frame_packet_len g')) buf t' r' \<and> 0 < n \<and>
       trs_pkg_desc t' \<noteq> BLE_FRAME_PKG_INIT \<and> unat (trs_pkg_trsmitr_cnt t') = unat (trs_pkg_trsmitr_cnt t) + n \<and>
       trs_subpkg_num t' \<noteq> 0"
    "rc = OPRT_OK \<longrightarrow> trs_pkg_desc r' = BLE_FRAME_PKG_END"
    "trs_subpkg_num r' = trs_subpkg_num t" "starts_frame r' \<longleftrightarrow> trs_subpkg_num t = 0" "unat (trs_subpkg_len r') \<le> length (trs_subpkg r')"
    by (rule synced_step [OF Suc.prems(1,2)], rule that, assumption+)
  have dat: "subpkg_data r' = take n (drop (unat (trs_pkg_trsmitr_cnt t)) buf)"
    using st(7) by (simp add: subpkg_data_def ble_frame_subpacket_len_get_def ble_frame_subpacket_get_def)
  note pkt = st(3,4) ble_frame_subpacket_len_get_def ble_frame_subpacket_get_def
  show ?case
  proof (cases "unat (trs_pkg_trsmitr_cnt t) + n < length buf")
    case True
    then have rc: "rc = OPRT_SVC_BT_API_TRSMITR_CONTINUE"
      using st(2) by simp
    note st' = st(9) [rule_format, OF rc]
    have "send_init g' t' v (of_nat (length buf)) = (t', g')"
      using st' by (simp add: send_init_def)
    moreover have "length buf - unat (trs_pkg_trsmitr_cnt t') < fuel"
      using st' Suc.prems(3) True by auto
    ultimately obtain ps rs where ps: "send_frames fuel g' t' v buf = Some ps" "recv_frames r' ps = Some rs" "rs \<noteq> []"
      "map fst rs = replicate (length ps - 1) OPRT_SVC_BT_API_TRSMITR_CONTINUE @ [OPRT_OK]"
      "concat (map (\<lambda>x. subpkg_data (snd x)) rs) = drop (unat (trs_pkg_trsmitr_cnt t) + n) buf"
      "\<forall>p \<in> set ps. length p \<le> unat (s_ble_frame_packet_len g')"
      "trs_version (snd (last rs)) = trs_version r'"
      "\<not> starts_frame (snd (hd rs))" "\<forall>x \<in> set (tl rs). \<not> starts_frame (snd x)"
      "\<forall>x \<in> set rs. unat (trs_subpkg_len (snd x)) \<le> length (trs_subpkg (snd x))"
      using Suc.IH [of g' t' t' r'] st' by auto
    have ns: "\<forall>x \<in> set rs. \<not> starts_frame (snd x)"
      using ps(3,8,9) by (cases rs) auto
    have rcs: "OPRT_SVC_BT_API_TRSMITR_CONTINUE # map fst rs = replicate (length ps) OPRT_SVC_BT_API_TRSMITR_CONTINUE @ [OPRT_OK]"
      using ps(2,3,4) by (cases ps) auto
    have send: "send_frames (Suc fuel) g t0 v buf = Some (p # ps)"
      using ps(1) rc by (simp add: pkt)
    have recv: "recv_frames r (p # ps) = Some ((rc, r') # rs)"
      using st(6) ps(2) by simp
    have cat: "concat (map (\<lambda>x. subpkg_data (snd x)) ((rc, r') # rs)) = drop (unat (trs_pkg_trsmitr_cnt t)) buf"
      using dat ps(5) by (simp add: add.commute flip: drop_drop)
    show ?thesis
      using rcs rc cat ps(3,6,7,10) st(5,8,12,13) ns
      by (intro exI [of _ "p # ps"] exI [of _ "(rc, r') # rs"]) (simp add: send recv del: send_frames.simps recv_frames.simps)
  next
    case False
    have send: "send_frames (Suc fuel) g t0 v buf = Some [p]"
      using False st(2) by (simp add: pkt)
    have "recv_frames r [p] = Some [(OPRT_OK, r')]"
      using False st(2,6) by simp
    then show ?thesis
      using False st(1,5,8,12,13) dat
      by (intro exI [of _ "[p]"] exI [of _ "[(OPRT_OK, r')]"]) (simp add: send del: send_frames.simps recv_frames.simps)
  qed
qed

lemma frames_transfer:
  assumes "length buf < 0x10000000" and "6 < unat (s_ble_frame_packet_len g)"
    and "ble_frame_trsmitr_create True True g = Some t"
    and "unat (s_ble_frame_packet_len g) \<le> length (trs_subpkg r)" and "trs_subpkg_num r < 0x10000000"
  shows "\<exists>ps rs. send_frames (Suc (length buf)) g t version buf = Some ps \<and> recv_frames r ps = Some rs \<and> rs \<noteq> [] \<and>
    map fst rs = replicate (length ps - 1) OPRT_SVC_BT_API_TRSMITR_CONTINUE @ [OPRT_OK] \<and>
    concat (map (\<lambda>x. subpkg_data (snd x)) rs) = buf \<and>
    (\<forall>p \<in> set ps. length p \<le> unat (s_ble_frame_packet_len g)) \<and>
    trs_version (snd (last rs)) = version AND 0x0f \<and>
    starts_frame (snd (hd rs)) \<and> (\<forall>x \<in> set (tl rs). \<not> starts_frame (snd x)) \<and>
    (\<forall>x \<in> set rs. unat (trs_subpkg_len (snd x)) \<le> length (trs_subpkg (snd x)))"
proof -
  obtain s g' where s: "ble_frame_seq_get g = (s, g')" and g': "s_ble_frame_packet_len g' = s_ble_frame_packet_len g"
    by (cases "BLE_FRAME_SEQ_LMT \<le> s_ble_frame_seq g") (auto simp: ble_frame_seq_get_def)
  let ?t = "t\<lparr> trs_total := of_nat (length buf), trs_version := version, trs_seq := s,
    trs_subpkg_num := 0, trs_pkg_trsmitr_cnt := 0 \<rparr>"
  have t: "trs_pkg_desc t = BLE_FRAME_PKG_INIT" "length (trs_subpkg t) = unat (s_ble_frame_packet_len g)"
    using assms(3) by (auto simp: ble_frame_trsmitr_create_def Let_def)
  then have "send_init g t version (of_nat (length buf)) = (?t, g')"
    by (simp add: send_init_def s)
  from frames_sync [OF this, of r "Suc (length buf)"] show ?thesis
    using assms t unat_u16_less [of "s_ble_frame_packet_len g"] by (auto simp: synced_def g')
qed

text \<open>
  C2: Fragmentation and reassembly.  A new transmitter that is called until it stops asking to
  continue cuts a frame of any length below 2^28 into sub-packets no longer than the packet
  length (at least 7), without leaving a buffer and in at most one call per byte plus one; a
  receiver with a buffer of the packet length that is given these sub-packets in order delivers
  exactly the frame, answers continue on every sub-packet but the last and OPRT_OK on the last,
  and learns the low four bits of the version.
\<close>

theorem ble_frame_roundtrip:
  assumes "length buf < 0x10000000" and "6 < unat (s_ble_frame_packet_len g)"
    and "ble_frame_trsmitr_create True True g = Some t"
    and "unat (s_ble_frame_packet_len g) \<le> length (trs_subpkg r)" and "trs_subpkg_num r < 0x10000000"
  shows "\<exists>ps rs. send_frames (Suc (length buf)) g t version buf = Some ps \<and> recv_frames r ps = Some rs \<and>
    map fst rs = replicate (length ps - 1) OPRT_SVC_BT_API_TRSMITR_CONTINUE @ [OPRT_OK] \<and>
    concat (map (\<lambda>x. subpkg_data (snd x)) rs) = buf \<and>
    (\<forall>p \<in> set ps. length p \<le> unat (s_ble_frame_packet_len g)) \<and>
    trs_version (snd (last rs)) = version AND 0x0f"
  using frames_transfer [OF assms] by blast

theorem ble_frame_roundtrip_witness:
  "\<exists>g t ps rs. ble_frame_trsmitr_create True True g = Some t \<and>
      send_frames (Suc (length [1, 2, 3, 4, 5, 6, 7, 8, 9, 10 :: u8])) g t 4 [1, 2, 3, 4, 5, 6, 7, 8, 9, 10] = Some ps \<and>
      recv_frames t ps = Some rs \<and> map fst rs = replicate (length ps - 1) OPRT_SVC_BT_API_TRSMITR_CONTINUE @ [OPRT_OK] \<and>
      concat (map (\<lambda>x. subpkg_data (snd x)) rs) = [1, 2, 3, 4, 5, 6, 7, 8, 9, 10] \<and> s_ble_frame_packet_len g = 8"
proof -
  define g where "g = \<lparr> s_ble_frame_seq = 3, s_ble_frame_packet_len = 8 \<rparr>"
  obtain t where t: "ble_frame_trsmitr_create True True g = Some t" "length (trs_subpkg t) = 8" "trs_subpkg_num t = 0"
    by (auto simp: ble_frame_trsmitr_create_def g_def)
  have "s_ble_frame_packet_len g = 8"
    by (simp add: g_def)
  then show ?thesis
    using ble_frame_roundtrip [of "[1, 2, 3, 4, 5, 6, 7, 8, 9, 10]" g t t 4] t
    by (intro exI [of _ g] exI [of _ t]) (simp del: send_frames.simps, blast)
qed

section \<open>The receiver on any input\<close>

text \<open>
  Sub-packet numbers.  A later sub-packet that is not the next one is never stored: a
  repeated number is answered with continue, a smaller one or a gap with an error, and of the
  receiver only the package description changes.
\<close>

theorem recv_number_verdict:
  assumes "n \<noteq> 0" "n < 0x10000000" "trs_subpkg_num r < 0x10000000" "n \<noteq> trs_subpkg_num r + 1"
    and "trs_pkg_desc r \<noteq> BLE_FRAME_PKG_INIT"
  shows "ble_frame_trsmitr_recv_pkg_decode (Some r) (Some (varint 4 n @ rest)) len =
    Some (if n = trs_subpkg_num r then OPRT_SVC_BT_API_TRSMITR_CONTINUE else OPRT_SVC_BT_API_TRSMITR_ERROR,
          Some (r\<lparr> trs_pkg_desc := BLE_FRAME_PKG_MIDDLE \<rparr>))"
proof -
  have "n - trs_subpkg_num r > 1" if "trs_subpkg_num r < n"
  proof -
    have "n - trs_subpkg_num r \<noteq> 0" "n - trs_subpkg_num r \<noteq> 1"
      using that assms(4) by (auto simp: diff_eq_eq add.commute)
    then have "unat (n - trs_subpkg_num r) \<noteq> unat (0 :: u32)" "unat (n - trs_subpkg_num r) \<noteq> unat (1 :: u32)"
      by (metis unsigned_word_eqI)+
    then show ?thesis
      by (simp add: word_less_nat_alt)
  qed
  moreover have "\<not> 0x10000000 \<le> trs_subpkg_num r"
    using assms(3) by (simp add: not_le)
  ultimately show ?thesis
    using assms get_num4 [of n "[]" rest 0]
    by (auto simp: ble_frame_trsmitr_recv_pkg_decode_def recv_num_check_def Let_def)
qed

theorem recv_number_verdict_witness:
  "let r = \<lparr> trs_total = 100, trs_version = 4, trs_seq = 0, trs_pkg_desc = BLE_FRAME_PKG_FIRST,
      trs_subpkg_num = 3, trs_pkg_trsmitr_cnt = 40, trs_subpkg_len = 10, trs_subpkg = replicate 20 0 \<rparr> in
   ble_frame_trsmitr_recv_pkg_decode (Some r) (Some (varint 4 9 @ [7])) 2 =
     Some (OPRT_SVC_BT_API_TRSMITR_ERROR, Some (r\<lparr> trs_pkg_desc := BLE_FRAME_PKG_MIDDLE \<rparr>))"
  using recv_number_verdict [of 9 "\<lparr> trs_total = 100, trs_version = 4, trs_seq = 0, trs_pkg_desc = BLE_FRAME_PKG_FIRST,
      trs_subpkg_num = 3, trs_pkg_trsmitr_cnt = 40, trs_subpkg_len = 10, trs_subpkg = replicate 20 0 \<rparr>" "[7]" 2]
  by (simp add: Let_def)

text \<open>What the receiver keeps between calls: it never counts more than the announced total and
  the length it reports lies in its buffer.\<close>

definition recv_inv :: "ble_frame_trsmitr \<Rightarrow> bool" where
  "recv_inv r \<longleftrightarrow> trs_pkg_trsmitr_cnt r \<le> trs_total r \<and> unat (trs_subpkg_len r) \<le> length (trs_subpkg r)"

lemma recv_reset_idem: "recv_reset (recv_reset r) = recv_reset r"
  by (simp add: recv_reset_def)

lemma get_num_safe:
  "off + k \<le> length raw \<Longrightarrow> \<exists>n off'. get_num k m off raw acc = Some (n, off') \<and> off' \<le> off + k"
  by (induction k m off raw acc rule: get_num.induct) (fastforce simp: rd_def Let_def)+

lemma recv_data_safe:
  assumes len: "length raw = unat len" "off \<le> length raw" "length raw \<le> length (trs_subpkg t)" and inv: "recv_inv t"
  shows "\<exists>rc t'. recv_data t off raw len = Some (rc, t') \<and> recv_inv t' \<and> length (trs_subpkg t') = length (trs_subpkg t)"
proof -
  define rest where "rest = len - of_nat off"
  define left where "left = trs_total t - trs_pkg_trsmitr_cnt t"
  define n where "n = (if left < ucast rest then ucast left else rest)"
  have off: "unat (of_nat off :: u16) = off"
    using len unat_u16_less [of len] by (simp add: unat_of_nat)
  have rest: "unat rest = length raw - off"
    unfolding rest_def using len off by (subst unat_sub) (simp_all add: word_le_nat_alt)
  have left: "unat left = unat (trs_total t) - unat (trs_pkg_trsmitr_cnt t)"
    using inv unfolding left_def recv_inv_def by (intro u32_sub_nat) simp
  have n: "unat n \<le> unat rest" "unat n \<le> unat left"
    using unat_ucast_32_16 [of left] unat_u16_less [of rest]
    by (auto simp: n_def word_less_nat_alt unat_ucast_16_32)
  have "mem_rd off (unat n) raw = Some (take (unat n) (drop off raw))"
    using n rest len by (simp add: mem_rd_def)
  moreover have "unat (trs_pkg_trsmitr_cnt t) + unat n \<le> unat (trs_total t)"
    using n left inv by (auto simp: recv_inv_def word_le_nat_alt)
  then have "trs_pkg_trsmitr_cnt t + ucast n \<le> trs_total t"
    using unat_u32_less [of "trs_total t"] by (simp add: word_le_nat_alt unat_word_ariths unat_ucast_16_32)
  moreover have "unat n \<le> length (trs_subpkg t)"
    using n rest len by linarith
  ultimately show ?thesis
    using n rest len unfolding recv_data_def rest_def [symmetric] left_def [symmetric] Let_def n_def [symmetric]
    by (simp add: mem_wr_def recv_inv_def unat_ucast_16_32)
qed

lemma recv_head_safe:
  assumes "off \<le> 4" "9 \<le> length raw" "recv_inv t" "trs_subpkg_num t = 0 \<longrightarrow> trs_pkg_trsmitr_cnt t = 0"
  obtains rc t' where "recv_head t off raw = Some (Inl (rc, t'))" "recv_inv t'" "length (trs_subpkg t') = length (trs_subpkg t)"
    | t' off' where "recv_head t off raw = Some (Inr (t', off'))" "recv_inv t'" "off' \<le> 9" "length (trs_subpkg t') = length (trs_subpkg t)"
proof (cases "trs_subpkg_num t = 0")
  case True
  obtain m off' where m: "get_num 4 1 off raw (trs_total t) = Some (m, off')" "off' \<le> 8"
    using get_num_safe [of off 4 raw] assms by fastforce
  then show thesis
    using True assms that by (cases "0x10000000 \<le> m") (auto simp: recv_head_def Let_def rd_def recv_inv_def)
next
  case False
  then show thesis
    using that assms by (auto simp: recv_head_def)
qed

text \<open>
  C14: Memory safety of the receiver.  On any sub-packet of at least 9 bytes that is no longer
  than the receive buffer, the receiver stays inside both buffers whatever the bytes are, keeps
  its invariant (bytes counted at most the announced total, reported length inside the buffer)
  and keeps its buffer.
\<close>

theorem recv_safe:
  assumes "length raw = unat len" "9 \<le> length raw" "length raw \<le> length (trs_subpkg r)" "recv_inv r"
  shows "\<exists>rc r'. ble_frame_trsmitr_recv_pkg_decode (Some r) (Some raw) len = Some (rc, Some r') \<and>
    recv_inv r' \<and> length (trs_subpkg r') = length (trs_subpkg r)"
proof -
  obtain n off where n: "get_num 4 1 0 raw 0 = Some (n, off)" "off \<le> 4"
    using get_num_safe [of 0 4 raw] assms(2) by fastforce
  define t where "t = (if n = 0 then (recv_reset r)\<lparr> trs_pkg_desc := BLE_FRAME_PKG_FIRST \<rparr>
      else (if trs_pkg_desc r = BLE_FRAME_PKG_INIT then recv_reset r else r)\<lparr> trs_pkg_desc := BLE_FRAME_PKG_MIDDLE \<rparr>)"
  have recv: "ble_frame_trsmitr_recv_pkg_decode (Some r) (Some raw) len =
     (case recv_num_check t n of
        Some rc \<Rightarrow> Some (rc, Some t)
      | None \<Rightarrow> do {
          h \<leftarrow> recv_head (t\<lparr> trs_subpkg_num := n \<rparr>) off raw;
          (case h of Inl (rc, t) \<Rightarrow> Some (rc, Some t)
           | Inr (t, off) \<Rightarrow> do { (rc, t) \<leftarrow> recv_data t off raw len; Some (rc, Some t) }) })"
    unfolding t_def by (simp add: ble_frame_trsmitr_recv_pkg_decode_def n recv_reset_idem Let_def cong: option.case_cong)
  have t: "recv_inv t" "length (trs_subpkg t) = length (trs_subpkg r)" "n = 0 \<longrightarrow> trs_pkg_trsmitr_cnt t = 0"
    using assms by (auto simp: t_def recv_inv_def recv_reset_def)
  then have inv: "recv_inv (t\<lparr> trs_subpkg_num := n \<rparr>)"
    by (simp add: recv_inv_def)
  show ?thesis
  proof (cases "recv_num_check t n")
    case None
    show ?thesis
    proof (rule recv_head_safe [of off raw "t\<lparr> trs_subpkg_num := n \<rparr>"])
      fix t' off'
      assume "recv_head (t\<lparr> trs_subpkg_num := n \<rparr>) off raw = Some (Inr (t', off'))" "recv_inv t'" "off' \<le> 9"
        "length (trs_subpkg t') = length (trs_subpkg (t\<lparr> trs_subpkg_num := n \<rparr>))"
      then show ?thesis
        using recv None recv_data_safe [of raw len off' t'] assms t by fastforce
    qed (use n assms t inv recv None in auto)
  qed (use recv t in simp)
qed

theorem recv_safe_witness:
  "let r = \<lparr> trs_total = 0, trs_version = 0, trs_seq = 0, trs_pkg_desc = BLE_FRAME_PKG_INIT,
      trs_subpkg_num = 0, trs_pkg_trsmitr_cnt = 0, trs_subpkg_len = 0, trs_subpkg = replicate 20 0 \<rparr> in
   recv_inv r \<and> (\<exists>rc r'. ble_frame_trsmitr_recv_pkg_decode (Some r) (Some (replicate 12 255)) 12 = Some (rc, Some r') \<and> recv_inv r')"
  using recv_safe [of "replicate 12 255" 12 "\<lparr> trs_total = 0, trs_version = 0, trs_seq = 0, trs_pkg_desc = BLE_FRAME_PKG_INIT,
      trs_subpkg_num = 0, trs_pkg_trsmitr_cnt = 0, trs_subpkg_len = 0, trs_subpkg = replicate 20 0 \<rparr>"]
  by (auto simp: Let_def recv_inv_def)

end
