(* ===== verification/BleCryption.thy ===== *)
theory BleCryption
  imports Symmetry MixMethod
begin

unbundle bit_operations_syntax

text \<open>
  The BLE link encryption, \<^verbatim>\<open>src/src/tuya_cloud_service/ble/ble_cryption.c\<close>: key derivation for
  the encryption modes, padding, encryption and decryption of a link frame, and the packing of
  a 20 character device id into 16 bytes.

  The two static arrays of the file are the record \<open>ble_key_state\<close>.  MD5 is a parameter
  \<open>md5\<close> (the digest of a byte string), the block cipher is the platform record of \<open>Symmetry\<close>.
\<close>

section \<open>Keys\<close>

abbreviation (input) ENCRYPTION_MODE_NONE :: u8 where "ENCRYPTION_MODE_NONE \<equiv> 0"
abbreviation (input) ENCRYPTION_MODE_KEY_11 :: u8 where "ENCRYPTION_MODE_KEY_11 \<equiv> 11"
abbreviation (input) ENCRYPTION_MODE_KEY_12 :: u8 where "ENCRYPTION_MODE_KEY_12 \<equiv> 12"
abbreviation (input) ENCRYPTION_MODE_KEY_14 :: u8 where "ENCRYPTION_MODE_KEY_14 \<equiv> 14"
abbreviation (input) ENCRYPTION_MODE_SESSION_KEY15 :: u8 where "ENCRYPTION_MODE_SESSION_KEY15 \<equiv> 15"
abbreviation (input) ENCRYPTION_MODE_KEY_16 :: u8 where "ENCRYPTION_MODE_KEY_16 \<equiv> 16"
abbreviation (input) ENCRYPTION_MODE_MAX :: u8 where "ENCRYPTION_MODE_MAX \<equiv> 17"

record ble_crypto_param =
  cp_auth_key :: bytes
  cp_user_rand :: bytes
  cp_login_key :: bytes
  cp_sec_key :: bytes
  cp_uuid :: bytes
  cp_pair_rand :: bytes

record ble_key_state =
  service_rand :: bytes
  key_out_key11 :: bytes

text \<open>\<^verbatim>\<open>memcpy(key_in_buffer + len, src, n); len += n;\<close>\<close>

definition key_in :: "bytes \<Rightarrow> nat \<Rightarrow> nat \<times> bytes \<Rightarrow> (nat \<times> bytes) option" where
  "key_in src n = (\<lambda>(len, buf). do {
     d \<leftarrow> mem_rd 0 n src; buf \<leftarrow> mem_wr len d buf; Some (len + n, buf) })"

text \<open>The switch over the mode: the filled part of the key buffer.\<close>

definition key_material :: "(bytes \<Rightarrow> bytes) \<Rightarrow> ble_crypto_param \<Rightarrow> ble_key_state \<Rightarrow> u8 \<Rightarrow> nat \<times> bytes \<Rightarrow> (nat \<times> bytes) option" where
  "key_material md5 p g mode s =
     (if mode = ENCRYPTION_MODE_KEY_11 then do {
        s \<leftarrow> key_in (cp_auth_key p) 32 s; s \<leftarrow> key_in (cp_uuid p) 16 s; key_in (service_rand g) 16 s }
      else if mode = ENCRYPTION_MODE_KEY_12 then do {
        s \<leftarrow> key_in (key_out_key11 g) 16 s; key_in (cp_pair_rand p) 6 s }
      else if mode = ENCRYPTION_MODE_KEY_14 then do {
        s \<leftarrow> key_in (cp_login_key p) 16 s; key_in (cp_sec_key p) 16 s }
      else if mode = ENCRYPTION_MODE_SESSION_KEY15 then do {
        s \<leftarrow> key_in (cp_login_key p) 16 s; s \<leftarrow> key_in (cp_sec_key p) 16 s; key_in (cp_pair_rand p) 6 s }
      else if mode = ENCRYPTION_MODE_KEY_16 then do {
        s \<leftarrow> key_in (cp_auth_key p) 32 s;
        uuid \<leftarrow> mem_rd 0 16 (cp_uuid p);
        s \<leftarrow> key_in (md5 uuid) 16 s; key_in (service_rand g) 16 s }
      else Some s)"

text \<open>
  The result is \<open>None\<close> when a buffer is left, otherwise the flag, the key written (none when the
  function returns early) and the state of the file.  The source first copies the
  authentication key into the zeroed buffer and then starts again at offset 0.
\<close>

definition ble_key_generate ::
  "(bytes \<Rightarrow> bytes) \<Rightarrow> ble_crypto_param \<Rightarrow> ble_key_state \<Rightarrow> u8 \<Rightarrow> (bool \<times> bytes option \<times> ble_key_state) option" where
  "ble_key_generate md5 p g mode =
     (if mode \<ge> ENCRYPTION_MODE_MAX then Some (False, None, g)
      else if mode = ENCRYPTION_MODE_NONE then Some (True, None, g)
      else do {
        (_, buf) \<leftarrow> key_in (cp_auth_key p) 32 (0, replicate 64 0);
        (len, buf) \<leftarrow> key_material md5 p g mode (0, buf);
        if len = 0 then Some (False, None, g)
        else let key = take 16 (md5 (take len buf)) in
          Some (True, Some key, if mode = ENCRYPTION_MODE_KEY_11 then g\<lparr> key_out_key11 := key \<rparr> else g) })"

section \<open>Padding and ids\<close>

definition ble_add_pkcs :: "bytes \<Rightarrow> u16 \<Rightarrow> (u16 \<times> bytes) option" where
  "ble_add_pkcs p len =
     (if len mod 16 = 0 then Some (len, p)
      else let cz = 16 - len mod 16 in do {
        p \<leftarrow> mem_wr (unat len) (replicate (unat cz) (ucast cz)) p;
        Some (len + cz, p) })"

definition tuya_ble_register_key_generate :: "tkl_aes \<Rightarrow> ble_key_state \<Rightarrow> bytes \<Rightarrow> bytes \<Rightarrow> bool \<times> bytes" where
  "tuya_ble_register_key_generate A g out auth_key =
     (let (rt, out) = tal_aes128_ecb_encode_raw A (service_rand g) out auth_key in (rt = OPRT_OK, out))"

text \<open>\<^verbatim>\<open>MAX_LENGTH_SECKEY\<close> is 16; the work buffer of 114 bytes holds the text and its encryption.\<close>

definition tuya_ble_adv_id_encrypt ::
  "bool \<Rightarrow> (nat \<Rightarrow> bytes) \<Rightarrow> tkl_aes \<Rightarrow> (bytes \<Rightarrow> bytes) \<Rightarrow> bytes \<Rightarrow> bytes \<Rightarrow> u8 \<Rightarrow> bytes \<Rightarrow> (operate_ret \<times> bytes) option" where
  "tuya_ble_adv_id_encrypt alloc junk A md5 key in_buf in_len out_buf =
     (let bufsize = 57; n = unat in_len * 2 + 1 in
      if n > bufsize - 16 then Some (OPRT_INVALID_PARM, out_buf)
      else if \<not> alloc then Some (OPRT_MALLOC_FAILED, out_buf)
      else do {
        k \<leftarrow> mem_rd 0 16 key;
        aes_buf \<leftarrow> hex2str (junk (bufsize * 2)) in_buf (unat in_len);
        (pkcslen, aes_buf) \<leftarrow> ble_add_pkcs aes_buf (of_nat n);
        if unat pkcslen > bufsize * 2 then Some (OPRT_COM_ERROR, out_buf)
        else do {
          d \<leftarrow> mem_rd 0 (unat pkcslen) aes_buf;
          (let (rt, o') = tal_aes128_ecb_encode_raw A d (drop bufsize aes_buf) (take 16 (md5 k)) in do {
           aes_buf \<leftarrow> mem_wr bufsize o' aes_buf;
           if rt = OPRT_OK then do {
             e \<leftarrow> mem_rd bufsize 16 aes_buf;
             out_buf \<leftarrow> mem_wr 0 e out_buf;
             Some (rt, out_buf) }
           else Some (rt, out_buf) }) } })"

definition tuya_ble_rsp_id_encrypt ::
  "tkl_aes \<Rightarrow> (bytes \<Rightarrow> bytes) \<Rightarrow> bytes \<Rightarrow> nat \<Rightarrow> bytes \<Rightarrow> nat \<Rightarrow> bytes \<Rightarrow> (operate_ret \<times> bytes) option" where
  "tuya_ble_rsp_id_encrypt A md5 key key_len in_buf in_len out_buf = do {
     k \<leftarrow> mem_rd 0 key_len key;
     d \<leftarrow> mem_rd 0 in_len in_buf;
     (let aes_key = take 16 (md5 k);
          (rt, o') = tal_aes128_cbc_encode_raw A d aes_key aes_key (take in_len out_buf) in do {
      out_buf \<leftarrow> mem_wr 0 o' out_buf;
      Some (rt, out_buf) }) }"

text \<open>One character of an id as a 6-bit digit; any other character leaves the old value.\<close>

definition id_digit :: "u8 \<Rightarrow> u8 \<Rightarrow> u8" where
  "id_digit c old =
     (if 0x30 \<le> c \<and> c \<le> 0x39 then c - 0x30
      else if 0x41 \<le> c \<and> c \<le> 0x5A then c - 0x41 + 36
      else if 0x61 \<le> c \<and> c \<le> 0x7A then c - 0x61 + 10
      else old)"

definition id_group :: "u8 list \<Rightarrow> bytes" where
  "id_group temp =
     [push_bit 2 (temp ! 0 AND 0x3F) OR (drop_bit 4 (temp ! 1) AND 0x03),
      push_bit 4 (temp ! 1 AND 0x0F) OR (drop_bit 2 (temp ! 2) AND 0x0F),
      push_bit 6 (temp ! 2 AND 0x03) OR (temp ! 3 AND 0x3F)]"

text \<open>\<open>temp\<close> is an uninitialised local array of the source: its first contents are arbitrary.\<close>

definition tuya_ble_id_compress :: "u8 list \<Rightarrow> bytes \<Rightarrow> bytes \<Rightarrow> bytes option" where
  "tuya_ble_id_compress temp inp out = do {
     (temp, out) \<leftarrow> for_loop 0 5 (\<lambda>i (temp, out). do {
       temp \<leftarrow> for_loop (i * 4) (i * 4 + 4) (\<lambda>j temp. do {
         c \<leftarrow> rd inp j; Some (temp[j - i * 4 := id_digit c (temp ! (j - i * 4))]) }) temp;
       out \<leftarrow> mem_wr (i * 3) (id_group temp) out;
       Some (temp, out) }) (temp, out);
     mem_wr 15 [0xFF] out }"

section \<open>Encryption and decryption of a link frame\<close>

text \<open>
  The result of both directions: return value, reported length (none when it is not written),
  output buffer, input buffer (which the padding extends in place) and file state.
\<close>

definition tuya_ble_encryption ::
  "tkl_aes \<Rightarrow> (bytes \<Rightarrow> bytes) \<Rightarrow> ble_crypto_param \<Rightarrow> ble_key_state \<Rightarrow> u8 \<Rightarrow> bytes \<Rightarrow> bytes \<Rightarrow> u32 \<Rightarrow> bytes \<Rightarrow>
     (int \<times> u32 option \<times> bytes \<times> bytes \<times> ble_key_state) option" where
  "tuya_ble_encryption A md5 p g mode iv in_buf in_len out_buf =
     (if mode \<ge> ENCRYPTION_MODE_MAX then Some (2, None, out_buf, in_buf, g)
      else if mode = ENCRYPTION_MODE_NONE then do {
        d \<leftarrow> mem_rd 0 (unat in_len) in_buf;
        out_buf \<leftarrow> mem_wr 0 d out_buf;
        Some (0, Some in_len, out_buf, in_buf, g) }
      else do {
        (len, in_buf) \<leftarrow> ble_add_pkcs in_buf (ucast in_len);
        (ok, k, g) \<leftarrow> ble_key_generate md5 p g mode;
        if ok then do {
          d \<leftarrow> mem_rd 0 (unat len) in_buf;
          (let key = (case k of None \<Rightarrow> replicate 16 0 | Some k \<Rightarrow> k);
               (rt, o') = tal_aes128_cbc_encode_raw A d key iv (take (unat len) out_buf) in do {
            out_buf \<leftarrow> mem_wr 0 o' out_buf;
            Some (if rt = OPRT_OK then 0 else 3, Some (ucast len), out_buf, in_buf, g) }) }
        else Some (4, None, out_buf, in_buf, g) })"

definition tuya_ble_decryption ::
  "tkl_aes \<Rightarrow> (bytes \<Rightarrow> bytes) \<Rightarrow> ble_crypto_param \<Rightarrow> ble_key_state \<Rightarrow> bytes \<Rightarrow> u32 \<Rightarrow> bytes \<Rightarrow>
     (int \<times> u32 option \<times> bytes \<times> ble_key_state) option" where
  "tuya_ble_decryption A md5 p g in_buf in_len out_buf =
     (if in_len < 17 then Some (1, None, out_buf, g)
      else do {
        mode \<leftarrow> rd in_buf 0;
        if mode \<ge> ENCRYPTION_MODE_MAX then Some (2, None, out_buf, g)
        else if mode = ENCRYPTION_MODE_NONE then
          (let len = ucast (in_len - 1) :: u16 in do {
           d \<leftarrow> mem_rd 1 (unat len) in_buf;
           out_buf \<leftarrow> mem_wr 0 d out_buf;
           Some (0, Some (ucast len), out_buf, g) })
        else
          (let len = ucast (in_len - 17) :: u16 in do {
           iv \<leftarrow> mem_rd 1 16 in_buf;
           (let g = (if mode = ENCRYPTION_MODE_KEY_11 \<or> mode = ENCRYPTION_MODE_KEY_16
                     then g\<lparr> service_rand := iv \<rparr> else g) in do {
            (ok, k, g) \<leftarrow> ble_key_generate md5 p g mode;
            if ok then do {
              d \<leftarrow> mem_rd 17 (unat len) in_buf;
              (let key = (case k of None \<Rightarrow> replicate 16 0 | Some k \<Rightarrow> k);
                   (rt, o') = tal_aes128_cbc_decode_raw A d key iv (take (unat len) out_buf) in do {
                out_buf \<leftarrow> mem_wr 0 o' out_buf;
                Some (if rt = OPRT_OK then 0 else 3, Some (ucast len), out_buf, g) }) }
            else Some (4, None, out_buf, g) }) }) })"

section \<open>Round trip of a link frame\<close>

text \<open>The arrays behind the key parameters have their declared sizes.\<close>

definition key_ready :: "ble_crypto_param \<Rightarrow> ble_key_state \<Rightarrow> bool" where
  "key_ready p g \<longleftrightarrow> 32 \<le> length (cp_auth_key p) \<and> 16 \<le> length (cp_uuid p) \<and> 16 \<le> length (cp_login_key p) \<and>
     16 \<le> length (cp_sec_key p) \<and> 6 \<le> length (cp_pair_rand p) \<and> length (service_rand g) = 16 \<and> length (key_out_key11 g) = 16"

definition keyed_mode :: "u8 \<Rightarrow> bool" where
  "keyed_mode mode \<longleftrightarrow> mode \<in> {11, 12, 14, 15, 16}"

lemma key_in_Some:
  "n \<le> length src \<Longrightarrow> len + n \<le> length buf \<Longrightarrow>
     key_in src n (len, buf) = Some (len + n, take len buf @ take n src @ drop (len + n) buf)"
  by (simp add: key_in_def mem_rd_def mem_wr_def)

lemma ble_key_generate_ok:
  assumes "key_ready p g" "keyed_mode mode" "\<And>x. length (md5 x) = 16"
  obtains k g' where "ble_key_generate md5 p g mode = Some (True, Some k, g')" "length k = 16" "key_ready p g'"
    "service_rand g' = service_rand g"
proof -
  have "key_in (cp_auth_key p) 32 (0, replicate 64 0) = Some (32, take 32 (cp_auth_key p) @ replicate 32 0)"
    using assms(1) by (simp add: key_in_Some key_ready_def)
  moreover define b where "b = take 32 (cp_auth_key p) @ replicate 32 (0 :: u8)"
  moreover have "length b = 64"
    using assms(1) by (simp add: b_def key_ready_def)
  then have "\<exists>len buf. key_material md5 p g mode (0, b) = Some (len, buf) \<and> len \<noteq> 0"
    using assms unfolding keyed_mode_def key_ready_def key_material_def
    by (auto simp: key_in_Some mem_rd_def)
  then obtain len buf where "key_material md5 p g mode (0, b) = Some (len, buf)" "len \<noteq> 0"
    by blast
  ultimately show thesis
    using assms that by (auto simp: ble_key_generate_def keyed_mode_def key_ready_def Let_def)
qed

lemma ble_add_pkcs_ok:
  assumes "unat len + 16 \<le> length p" "unat len + 16 < 65536"
  obtains n q where "ble_add_pkcs p len = Some (n, q)" "unat n mod 16 = 0" "unat len \<le> unat n" "unat n < unat len + 16"
    "length q = length p" "take (unat len) q = take (unat len) p"
proof (cases "len mod 16 = 0")
  case True
  then have "unat len mod 16 = 0"
    using unat_mod [of len 16] by simp
  then show thesis
    using that [of len p] True assms by (simp add: ble_add_pkcs_def)
next
  case False
  have m: "unat (len mod 16) = unat len mod 16"
    by (simp add: unat_mod)
  then have cz: "unat (16 - len mod 16) = 16 - unat len mod 16"
    by (subst unat_sub) (simp_all add: word_le_nat_alt)
  then have n: "unat (len + (16 - len mod 16)) = unat len + (16 - unat len mod 16)"
    using assms by (simp add: unat_word_ariths)
  let ?q = "take (unat len) p @ replicate (16 - unat len mod 16) (ucast (16 - len mod 16)) @ drop (unat len + (16 - unat len mod 16)) p"
  have pos: "0 < unat len mod 16"
    using False m by (metis gr0I unat_eq_zero)
  have al: "(unat len + (16 - unat len mod 16)) mod 16 = 0"
    by presburger
  show thesis
  proof (rule that [of "len + (16 - len mod 16)" ?q])
    show "ble_add_pkcs p len = Some (len + (16 - len mod 16), ?q)"
      using False assms cz by (simp add: ble_add_pkcs_def Let_def mem_wr_def)
  qed (use n al pos assms in simp_all)
qed

lemma crypt_transfer:
  assumes A: "aes_laws A" and md5: "\<And>x. length (md5 x) = 16" and keys: "key_ready p g" and mode: "keyed_mode mode"
    and iv: "length iv = 16" "mode \<in> {11, 16} \<Longrightarrow> service_rand g = iv"
    and sz: "length d + 40 < 65536" "length d + 16 \<le> length (d @ rest)" "length d + 16 \<le> length out"
      "length d + 16 \<le> length dec"
  shows "\<exists>n out' in' g' dec'.
    tuya_ble_encryption A md5 p g mode iv (d @ rest) (of_nat (length d)) out = Some (0, Some n, out', in', g') \<and>
    tuya_ble_decryption A md5 p g (mode # iv @ take (unat n) out') (n + 17) dec = Some (0, Some n, dec', g') \<and>
    take (length d) dec' = d \<and> length d \<le> unat n \<and> unat n < length d + 16 \<and>
    length out' = length out \<and> length dec' = length dec"
proof -
  define len where "len = (of_nat (length d) :: u16)"
  have len: "unat len = length d" "ucast (of_nat (length d) :: u32) = len"
    using sz(1) by (simp_all add: len_def unsigned_of_nat take_bit_nat_eq_self)
  have "unat len + 16 \<le> length (d @ rest)" "unat len + 16 < 65536"
    using sz len by simp_all
  then obtain n q where n: "ble_add_pkcs (d @ rest) len = Some (n, q)" "unat n mod 16 = 0" "unat len \<le> unat n" "unat n < unat len + 16"
    "length q = length (d @ rest)" "take (unat len) q = take (unat len) (d @ rest)"
    by (rule ble_add_pkcs_ok)
  have q: "take (length d) q = d" and qn: "unat n \<le> length q" "length d \<le> unat n"
    using n len sz by simp_all
  have al: "length (take (unat n) q) mod 16 = 0"
    using n qn by simp
  obtain k g' where k: "ble_key_generate md5 p g mode = Some (True, Some k, g')" "length k = 16"
    by (rule ble_key_generate_ok [OF keys mode md5])
  obtain e where e: "\<And>out. tal_aes128_cbc_encode_raw A (take (unat n) q) k iv out = (OPRT_OK, e)"
    "length e = length (take (unat n) q)"
    "\<And>out. tal_aes128_cbc_decode_raw A e k iv out = (OPRT_OK, take (unat n) q)"
    using cbc_raw_roundtrip [OF A k(2) iv(1) al] by metis
  have el: "length e = unat n" "unat n \<le> length out" "unat n \<le> length dec"
    using e(2) qn n len sz by simp_all
  have m: "\<not> 17 \<le> mode" "mode \<noteq> 0"
    using mode by (auto simp: keyed_mode_def)
  have "tuya_ble_encryption A md5 p g mode iv (d @ rest) (of_nat (length d)) out =
      Some (0, Some (ucast n), e @ drop (unat n) out, q, g')"
    using m n(1) k e(1) el qn len by (simp add: tuya_ble_encryption_def Let_def mem_rd_def mem_wr_def)
  moreover have "tuya_ble_decryption A md5 p g (mode # iv @ take (unat (ucast n :: u32)) (e @ drop (unat n) out)) (ucast n + 17) dec =
      Some (0, Some (ucast n), take (unat n) q @ drop (unat n) dec, g')"
  proof -
    have g: "(if mode = 11 \<or> mode = 16 then g\<lparr> service_rand := iv \<rparr> else g) = g"
      using iv(2) by auto
    have il: "unat (ucast n + 17 :: u32) = unat n + 17" "\<not> (ucast n + 17 :: u32) < 17"
      using unat_u16_less [of n] by (simp_all add: unat_word_ariths unat_ucast_16_32 word_less_nat_alt)
    have cast: "ucast (ucast n :: u32) = n"
      by (rule bit_word_eqI) (simp add: bit_simps)
    have "mem_rd (Suc 0) 16 (mode # iv @ e) = Some iv" "mem_rd 17 (unat n) (mode # iv @ e) = Some e"
      using iv(1) el by (simp_all add: mem_rd_def drop_Cons')
    then show ?thesis
      using m k e(3) el qn il cast
      by (simp add: tuya_ble_decryption_def Let_def g mem_wr_def unat_ucast_16_32 rd_Some)
  qed
  moreover have "unat (ucast n :: u32) = unat n"
    by (rule unat_ucast_16_32)
  ultimately show ?thesis
    using q qn el n(4) len(1)
    by (intro exI [of _ "ucast n"] exI [of _ "e @ drop (unat n) out"] exI [of _ q] exI [of _ g'] exI [of _ "take (unat n) q @ drop (unat n) dec"]) simp
qed



section \<open>Packed ids\<close>

definition alnum :: "u8 \<Rightarrow> bool" where
  "alnum c \<longleftrightarrow> 0x30 \<le> c \<and> c \<le> 0x39 \<or> 0x41 \<le> c \<and> c \<le> 0x5A \<or> 0x61 \<le> c \<and> c \<le> 0x7A"

text \<open>The inverse directions: a digit back to its character, three bytes back to four digits.\<close>

definition digit_char :: "u8 \<Rightarrow> u8" where
  "digit_char d = (if d < 10 then d + 0x30 else if d < 36 then d - 10 + 0x61 else d - 36 + 0x41)"

lemma alnum_cases: "alnum c \<Longrightarrow> unat c \<in> set ([48..<58] @ [65..<91] @ [97..<123])"
  unfolding set_append set_upt by (auto simp: alnum_def word_le_nat_alt)

lemma digit_char_digit:
  assumes "alnum c" shows "digit_char (id_digit c x) = c" and "id_digit c x < 64"
proof -
  have "\<forall>n \<in> set ([48..<58] @ [65..<91] @ [97..<123]). digit_char (id_digit (of_nat n) x) = of_nat n \<and> id_digit (of_nat n) x < 64"
    by (simp add: upt_rec id_digit_def digit_char_def)
  then have "digit_char (id_digit (of_nat (unat c)) x) = of_nat (unat c) \<and> id_digit (of_nat (unat c)) x < 64"
    using alnum_cases [OF assms] by blast
  then show "digit_char (id_digit c x) = c" "id_digit c x < 64"
    by simp_all
qed

definition id_ungroup :: "bytes \<Rightarrow> u8 list" where
  "id_ungroup bs = [drop_bit 2 (bs ! 0), push_bit 4 (bs ! 0 AND 3) OR drop_bit 4 (bs ! 1),
     push_bit 2 (bs ! 1 AND 15) OR drop_bit 6 (bs ! 2), bs ! 2 AND 63]"

lemma id_ungroup_group:
  assumes "a < 64" "b < 64" "c < 64" "d < 64"
  shows "id_ungroup (id_group [a, b, c, d]) = [a, b, c, d]"
proof -
  have m: "(63 :: u8) = mask 6" "(15 :: u8) = mask 4" "(3 :: u8) = mask 2"
    by (simp_all add: mask_numeral)
  have hi: "\<not> bit x n" if "x < 64" "6 \<le> n" for x :: u8 and n
  proof -
    have "take_bit 6 (unat x) = unat x"
      using that by (simp add: take_bit_nat_eq_self word_less_nat_alt)
    then have "\<not> bit (unat x) n"
      using that(2) by (metis bit_take_bit_iff not_le)
    then show ?thesis
      by (simp add: bit_unsigned_iff)
  qed
  note hi' = hi [OF assms(1)] hi [OF assms(2)] hi [OF assms(3)] hi [OF assms(4)]
  have eqI: "x = y" if "\<And>n. n \<in> {0, 1, 2, 3, 4, 5, 6, 7} \<Longrightarrow> bit x n = bit y n" for x y :: u8
    using that by (intro bit_word_eqI) (auto simp: less_Suc_eq numeral_eq_Suc)
  have "drop_bit 2 (push_bit 2 (a AND 63) OR (drop_bit 4 b AND 3)) = a"
    unfolding m by (rule eqI) (elim insertE emptyE; simp add: bit_simps hi')
  moreover have "push_bit 4 ((push_bit 2 (a AND 63) OR (drop_bit 4 b AND 3)) AND 3) OR
      drop_bit 4 (push_bit 4 (b AND 15) OR (drop_bit 2 c AND 15)) = b"
    unfolding m by (rule eqI) (elim insertE emptyE; simp add: bit_simps hi')
  moreover have "push_bit 2 ((push_bit 4 (b AND 15) OR (drop_bit 2 c AND 15)) AND 15) OR
      drop_bit 6 (push_bit 6 (c AND 3) OR (d AND 63)) = c"
    unfolding m by (rule eqI) (elim insertE emptyE; simp add: bit_simps hi')
  moreover have "(push_bit 6 (c AND 3) OR (d AND 63)) AND 63 = d"
    unfolding m by (rule eqI) (elim insertE emptyE; simp add: bit_simps hi')
  ultimately show ?thesis
    unfolding id_ungroup_def id_group_def by (simp only: nth_Cons_0 nth_Cons_Suc One_nat_def numeral_2_eq_2 numeral_3_eq_3)
qed

text \<open>Group \<open>i\<close> of an id as digits.\<close>

definition id_digits :: "bytes \<Rightarrow> nat \<Rightarrow> u8 list" where
  "id_digits inp i = map (\<lambda>j. id_digit (inp ! (i * 4 + j)) 0) [0..<4]"

lemma id_digit_alnum: "alnum c \<Longrightarrow> id_digit c x = id_digit c 0"
  by (auto simp: alnum_def id_digit_def)

lemma id_inner_loop:
  assumes "i * 4 + 4 \<le> length inp" "\<forall>c \<in> set inp. alnum c" "length temp = 4"
  shows "for_loop (i * 4) (i * 4 + 4) (\<lambda>j temp. do {
         c \<leftarrow> rd inp j; Some (temp[j - i * 4 := id_digit c (temp ! (j - i * 4))]) }) temp = Some (id_digits inp i)"
proof -
  have al: "alnum (inp ! j)" if "j < i * 4 + 4" for j
    using assms that by simp
  obtain t0 t1 t2 t3 where "temp = [t0, t1, t2, t3]"
    using assms(3) by (auto simp: length_Suc_conv numeral_eq_Suc)
  moreover have "id_digit (inp ! (i * 4)) t0 = id_digit (inp ! (i * 4)) 0"
    "id_digit (inp ! Suc (i * 4)) t1 = id_digit (inp ! Suc (i * 4)) 0"
    "id_digit (inp ! Suc (Suc (i * 4))) t2 = id_digit (inp ! Suc (Suc (i * 4))) 0"
    "id_digit (inp ! Suc (Suc (Suc (i * 4)))) t3 = id_digit (inp ! Suc (Suc (Suc (i * 4)))) 0"
    by (rule id_digit_alnum, rule al, simp)+
  ultimately show ?thesis
    using assms(1) by (simp add: for_loop_step rd_Some id_digits_def numeral_eq_Suc)
qed

lemma compress_groups:
  assumes "length inp = 20" "\<forall>c \<in> set inp. alnum c" "length temp = 4" "16 \<le> length out"
  shows "tuya_ble_id_compress temp inp out =
    Some (concat (map (\<lambda>i. id_group (id_digits inp i)) [0..<5]) @ 0xFF # drop 16 out)"
proof -
  let ?G = "\<lambda>i. concat (map (\<lambda>i. id_group (id_digits inp i)) [0..<i])"
  have lG: "length (?G i) = i * 3" for i
    by (induction i) (simp_all add: id_group_def)
  have "\<exists>s. for_loop 0 5 (\<lambda>i (temp, out). do {
       temp \<leftarrow> for_loop (i * 4) (i * 4 + 4) (\<lambda>j temp. do {
         c \<leftarrow> rd inp j; Some (temp[j - i * 4 := id_digit c (temp ! (j - i * 4))]) }) temp;
       out \<leftarrow> mem_wr (i * 3) (id_group temp) out;
       Some (temp, out) }) (temp, out) = Some s \<and> (length (fst s) = 4 \<and> snd s = ?G 5 @ drop (5 * 3) out)"
  proof (rule for_loop_rule [where P = "\<lambda>i s. length (fst s) = 4 \<and> snd s = ?G i @ drop (i * 3) out"])
    fix j and t :: "u8 list \<times> bytes" assume "0 \<le> j" and j: "j < 5" and t: "length (fst t) = 4 \<and> snd t = ?G j @ drop (j * 3) out"
    obtain tm o' where tt: "t = (tm, o')" by (cases t)
    have "mem_wr (j * 3) (id_group (id_digits inp j)) o' = Some (?G (Suc j) @ drop (Suc j * 3) out)"
      using t tt j assms(4) lG [of j] by (simp add: mem_wr_def id_group_def add.commute)
    moreover have "length (id_digits inp j) = 4"
      by (simp add: id_digits_def)
    ultimately show "\<exists>t'. (\<lambda>(temp, out). do {
       temp \<leftarrow> for_loop (j * 4) (j * 4 + 4) (\<lambda>k temp. do {
         c \<leftarrow> rd inp k; Some (temp[k - j * 4 := id_digit c (temp ! (k - j * 4))]) }) temp;
       out \<leftarrow> mem_wr (j * 3) (id_group temp) out;
       Some (temp, out) }) t = Some t' \<and> length (fst t') = 4 \<and> snd t' = ?G (Suc j) @ drop (Suc j * 3) out"
      using id_inner_loop [of j inp tm] assms j t tt by simp
  qed (use assms in auto)
  then show ?thesis
    using assms(4) lG [of 5] by (auto simp: tuya_ble_id_compress_def mem_wr_def)
qed

lemma id_digits_group_inj:
  assumes "id_group (id_digits a i) = id_group (id_digits b i)" "i < 5" "j < 4" "length a = 20" "length b = 20"
    "\<forall>c \<in> set a. alnum c" "\<forall>c \<in> set b. alnum c"
  shows "a ! (i * 4 + j) = b ! (i * 4 + j)"
proof -
  have un: "id_ungroup (id_group (id_digits x i)) = id_digits x i" if "length x = 20" "\<forall>c \<in> set x. alnum c" for x
  proof -
    have "id_digit (x ! (i * 4 + k)) 0 < 64" if "k < 4" for k
      using that \<open>length x = 20\<close> \<open>\<forall>c \<in> set x. alnum c\<close> assms(2) by (intro digit_char_digit(2)) simp
    from this [of 0] this [of 1] this [of 2] this [of 3] show ?thesis
      using id_ungroup_group by (simp add: id_digits_def upt_rec numeral_3_eq_3)
  qed
  then have "id_digits a i = id_digits b i"
    using assms by metis
  then have "id_digit (a ! (i * 4 + j)) 0 = id_digit (b ! (i * 4 + j)) 0"
    using assms(3) by (auto simp: id_digits_def)
  moreover have "alnum (a ! (i * 4 + j))" "alnum (b ! (i * 4 + j))"
    using assms by simp_all
  ultimately show ?thesis
    using digit_char_digit(1) by metis
qed

text \<open>
  C15: Packed ids are unambiguous.  Packing an alphanumeric id of 20 characters writes 16 bytes and
  nothing else, whatever the uninitialised work array held, and two ids with the same packed form are equal.
\<close>

theorem id_compress_inj:
  assumes "length a = 20" "\<forall>c \<in> set a. alnum c" "length b = 20" "\<forall>c \<in> set b. alnum c"
    and "length temp = 4" "length temp' = 4" "16 \<le> length out"
  shows "\<exists>x. tuya_ble_id_compress temp a out = Some x \<and> length x = length out \<and> drop 16 x = drop 16 out \<and>
    (tuya_ble_id_compress temp' b out = Some x \<longrightarrow> a = b)"
proof -
  let ?G = "\<lambda>a. map (\<lambda>i. id_group (id_digits a i)) [0..<5]"
  have ca: "tuya_ble_id_compress temp a out = Some (concat (?G a) @ 0xFF # drop 16 out)"
    by (rule compress_groups) (use assms in auto)
  have cb: "tuya_ble_id_compress temp' b out = Some (concat (?G b) @ 0xFF # drop 16 out)"
    by (rule compress_groups) (use assms in auto)
  have len: "length (concat (?G a)) = 15" "length (concat (?G b)) = 15"
    by (simp_all add: id_group_def upt_rec)
  have "a = b" if "concat (?G a) = concat (?G b)"
  proof (rule nth_equalityI)
    have "?G a = ?G b"
      using that by (subst (asm) concat_eq_concat_iff) (auto simp: id_group_def set_zip)
    then have grp: "id_group (id_digits a i) = id_group (id_digits b i)" if "i < 5" for i
      using that by (auto simp: list_eq_iff_nth_eq)
    fix k assume "k < length a"
    then have "a ! (k div 4 * 4 + k mod 4) = b ! (k div 4 * 4 + k mod 4)"
      using assms by (intro id_digits_group_inj grp) auto
    then show "a ! k = b ! k" by simp
  qed (use assms in simp)
  then show ?thesis
    using ca cb len assms(7) by auto
qed

theorem id_compress_inj_witness:
  "\<exists>x. tuya_ble_id_compress [0, 0, 0, 0] (replicate 20 0x41) (replicate 17 0) = Some x \<and>
    (tuya_ble_id_compress [1, 2, 3, 4] (replicate 19 0x41 @ [0x42]) (replicate 17 0) \<noteq> Some x)"
proof -
  have "replicate 20 (0x41 :: u8) \<noteq> replicate 19 0x41 @ [0x42]"
    by code_simp
  then show ?thesis
    using id_compress_inj [of "replicate 20 0x41" "replicate 19 0x41 @ [0x42]" "[0, 0, 0, 0]" "[1, 2, 3, 4]" "replicate 17 0"]
    by (auto simp: alnum_def)
qed

end
