(* ===== verification/BleMgr.thy ===== *)
theory BleMgr
  imports Crc BleTrsmitr BleCryption
begin

unbundle bit_operations_syntax

text \<open>
  The BLE manager, \<^verbatim>\<open>src/src/tuya_cloud_service/ble/ble_mgr.c\<close>: link packets (sequence number,
  acknowledged number, command, length, data, CRC-16) are encrypted, cut into sub-packets and
  sent; received sub-packets are collected, decrypted, checked and dispatched; pairing,
  unbinding, device information and the advertising data are handled here.

  State.  \<open>ble_mgr\<close> has the fields of \<^verbatim>\<open>tuya_ble_mgr_t\<close> that the operations use, the parts of the client
  configuration it points to, the file-level state of the transmitter and of the encryption, and
  the log \<open>mgr_calls\<close> of the calls it makes into the platform.  \<open>mgr_peer\<close> is the write
  handle of the connected peer, 0 when none is connected.  The key parameters of the source
  are pointers into this state; \<open>mgr_crypto\<close> reads them.

  Environment.  \<open>ble_env\<close> holds what is outside the file: the block cipher, MD5, the random bytes
  of the \<open>k\<close>-th request, the result of a link write, whether an allocation of a size succeeds and what
  fresh memory holds, the network status byte and whether the cloud connection is up.
\<close>

section \<open>State and environment\<close>

abbreviation (input) TUYA_BLE_AIR_FRAME_MAX :: nat where "TUYA_BLE_AIR_FRAME_MAX \<equiv> 1024"
abbreviation (input) TUYA_BLE_PROTOCOL_VERSION_HIGN :: u8 where "TUYA_BLE_PROTOCOL_VERSION_HIGN \<equiv> 4"
abbreviation (input) TUYA_BLE_PROTOCOL_VERSION_LOW :: u8 where "TUYA_BLE_PROTOCOL_VERSION_LOW \<equiv> 4"
abbreviation (input) FRM_QRY_DEV_INFO_REQ :: u16 where "FRM_QRY_DEV_INFO_REQ \<equiv> 0"
abbreviation (input) FRM_PAIR_REQ :: u16 where "FRM_PAIR_REQ \<equiv> 1"
abbreviation (input) FRM_UNBONDING_REQ :: u16 where "FRM_UNBONDING_REQ \<equiv> 5"
abbreviation (input) FRM_DEVICE_RESET :: u16 where "FRM_DEVICE_RESET \<equiv> 6"
abbreviation (input) FRM_RPT_NET_STAT_REQ :: u16 where "FRM_RPT_NET_STAT_REQ \<equiv> 0x1E"
abbreviation (input) BLE_SESSION_SYSTEM :: nat where "BLE_SESSION_SYSTEM \<equiv> 0"
abbreviation (input) BLE_SESSION_DP :: nat where "BLE_SESSION_DP \<equiv> 1"
abbreviation (input) BLE_SESSION_CHANNEL :: nat where "BLE_SESSION_CHANNEL \<equiv> 2"
abbreviation (input) BLE_SESSION_MAX :: nat where "BLE_SESSION_MAX \<equiv> 4"

record ble_packet =
  pk_sn :: u32
  pk_type :: u16
  pk_len :: u16
  pk_data :: "bytes option"
  pk_encrypt_mode :: u8

record ble_packet_recv_t =
  rx_trsmitr :: ble_frame_trsmitr
  rx_raw_len :: u32
  rx_raw_buf :: bytes
  rx_dec_len :: u32
  rx_dec_buf :: bytes

text \<open>The functions a session slot can hold: the one of this file, and others by name.\<close>

datatype ble_session_fn = Session_system | Session_channel | Session_dp | Session_user nat

datatype ble_call =
    Ble_send bytes
  | Ble_disconnect
  | Adv_stop
  | Adv_data_set bytes bytes
  | Adv_start
  | Pair_timer_start nat
  | Pair_timer_stop
  | Iot_reset
  | Run_session ble_session_fn ble_packet

record ble_mgr =
  mgr_id :: bytes
  mgr_is_id_comp :: bool
  mgr_authkey :: bytes
  mgr_seckey :: bytes
  mgr_localkey :: bytes
  mgr_productkey :: bytes
  mgr_device_name :: bytes
  mgr_pair_rand :: bytes
  mgr_is_paired :: bool
  mgr_is_bound :: bool
  mgr_peer :: u16
  mgr_adv_data :: bytes
  mgr_adv_len :: nat
  mgr_rsp_data :: bytes
  mgr_rsp_len :: nat
  mgr_send_sn :: u32
  mgr_recv_sn :: u32
  mgr_rx :: ble_packet_recv_t
  mgr_session :: "ble_session_fn option list"
  mgr_keys :: ble_key_state
  mgr_frame :: ble_frame_globals
  mgr_rand_no :: nat
  mgr_calls :: "ble_call list"

record ble_env =
  env_aes :: tkl_aes
  env_md5 :: "bytes \<Rightarrow> bytes"
  env_rand :: "nat \<Rightarrow> nat \<Rightarrow> bytes"
  env_send :: "bytes \<Rightarrow> operate_ret"
  env_alloc :: "nat \<Rightarrow> bool"
  env_junk :: "nat \<Rightarrow> bytes"
  env_netstat :: u8
  env_link_down :: bool
  env_connected :: bool

definition mgr_crypto :: "ble_mgr \<Rightarrow> ble_crypto_param" where
  "mgr_crypto m = \<lparr> cp_auth_key = mgr_authkey m, cp_user_rand = [], cp_login_key = mgr_localkey m,
     cp_sec_key = mgr_seckey m, cp_uuid = mgr_id m, cp_pair_rand = mgr_pair_rand m \<rparr>"

definition log_call :: "ble_call \<Rightarrow> ble_mgr \<Rightarrow> ble_mgr" where
  "log_call c m = m\<lparr> mgr_calls := mgr_calls m @ [c] \<rparr>"

section \<open>Receiving\<close>

definition clear_raw :: "ble_packet_recv_t \<Rightarrow> ble_packet_recv_t" where
  "clear_raw r = r\<lparr> rx_raw_len := 0, rx_raw_buf := replicate (length (rx_raw_buf r)) 0 \<rparr>"

text \<open>The counter \<^verbatim>\<open>pack_no\<close> of the source is only printed and is left out.\<close>

definition ble_packet_trsmitr :: "ble_packet_recv_t \<Rightarrow> bytes \<Rightarrow> u32 \<Rightarrow> (operate_ret \<times> ble_packet_recv_t) option" where
  "ble_packet_trsmitr r buf len = do {
     (rt, t) \<leftarrow> ble_frame_trsmitr_recv_pkg_decode (Some (rx_trsmitr r)) (Some buf) (ucast len);
     t \<leftarrow> t;
     (let r = r\<lparr> rx_trsmitr := t \<rparr> in
      if rt \<noteq> OPRT_OK \<and> rt \<noteq> OPRT_SVC_BT_API_TRSMITR_CONTINUE then Some (rt, clear_raw r)
      else
        (let r = (if trs_pkg_desc t = BLE_FRAME_PKG_FIRST \<or> (trs_pkg_desc t = BLE_FRAME_PKG_END \<and> trs_subpkg_num t = 0)
                  then clear_raw r else r);
             subpkg_len = ble_frame_subpacket_len_get t in
         if rx_raw_len r + subpkg_len \<le> of_nat TUYA_BLE_AIR_FRAME_MAX then do {
           d \<leftarrow> mem_rd 0 (unat subpkg_len) (ble_frame_subpacket_get t);
           raw \<leftarrow> mem_wr (unat (rx_raw_len r)) d (rx_raw_buf r);
           Some (rt, r\<lparr> rx_raw_buf := raw, rx_raw_len := rx_raw_len r + subpkg_len \<rparr>) }
         else Some (OPRT_INVALID_PARM, r\<lparr> rx_raw_len := rx_raw_len r + subpkg_len \<rparr>))) }"

definition rd16 :: "bytes \<Rightarrow> nat \<Rightarrow> u16 option" where
  "rd16 buf i = do { a \<leftarrow> rd buf i; b \<leftarrow> rd buf (i + 1); Some (push_bit 8 (ucast a) + ucast b) }"

definition rd32 :: "bytes \<Rightarrow> nat \<Rightarrow> u32 option" where
  "rd32 buf i = do {
     a \<leftarrow> rd buf i; b \<leftarrow> rd buf (i + 1); c \<leftarrow> rd buf (i + 2); d \<leftarrow> rd buf (i + 3);
     Some (push_bit 24 (ucast a) + push_bit 16 (ucast b) + push_bit 8 (ucast c) + ucast d) }"

text \<open>The checks on a decrypted packet, from the data length to the copy of the data.\<close>

definition ble_packet_parse :: "ble_env \<Rightarrow> ble_mgr \<Rightarrow> (operate_ret \<times> ble_packet option \<times> ble_mgr) option" where
  "ble_packet_parse env m =
     (let dec = rx_dec_buf (mgr_rx m) in do {
      data_len \<leftarrow> rd16 dec 10;
      if unat data_len + 14 > TUYA_BLE_AIR_FRAME_MAX then Some (OPRT_INVALID_PARM, None, m)
      else do {
        our_crc \<leftarrow> rd16 dec (12 + unat data_len);
        fr \<leftarrow> mem_rd 0 (unat data_len + 12) dec;
        if our_crc \<noteq> get_crc_16 fr then Some (OPRT_INVALID_PARM, None, m)
        else do {
          recv_sn \<leftarrow> rd32 dec 0;
          if recv_sn \<le> mgr_recv_sn m then Some (OPRT_INVALID_PARM, None, log_call Ble_disconnect m)
          else do {
            ty \<leftarrow> rd16 dec 8;
            mode \<leftarrow> rd (rx_raw_buf (mgr_rx m)) 0;
            (let m = m\<lparr> mgr_recv_sn := recv_sn \<rparr>;
                 p = \<lparr> pk_sn = recv_sn, pk_type = ty, pk_len = data_len, pk_data = None, pk_encrypt_mode = mode \<rparr> in
             if data_len = 0 then Some (OPRT_OK, Some p, m)
             else if \<not> env_alloc env (unat data_len) then Some (OPRT_MALLOC_FAILED, Some p, m)
             else do {
               d \<leftarrow> mem_rd 12 (unat data_len) dec;
               Some (OPRT_OK, Some (p\<lparr> pk_data := Some d \<rparr>), m) }) } } } })"

text \<open>A collected frame: size and version checks, decryption, packet checks.\<close>

definition ble_packet_open :: "ble_env \<Rightarrow> ble_mgr \<Rightarrow> (operate_ret \<times> ble_packet option \<times> ble_mgr) option" where
  "ble_packet_open env m =
     (let r = mgr_rx m in
      if rx_raw_len r > of_nat TUYA_BLE_AIR_FRAME_MAX then Some (OPRT_INVALID_PARM, None, m)
      else if trs_version (rx_trsmitr r) < 2 then Some (OPRT_INVALID_PARM, None, m)
      else do {
        (rt, n, dec, keys) \<leftarrow> tuya_ble_decryption (env_aes env) (env_md5 env) (mgr_crypto m) (mgr_keys m)
          (rx_raw_buf r) (rx_raw_len r) (rx_dec_buf r);
        (let r = r\<lparr> rx_dec_buf := dec, rx_dec_len := (case n of None \<Rightarrow> rx_dec_len r | Some n \<Rightarrow> n) \<rparr>;
             m = m\<lparr> mgr_rx := r, mgr_keys := keys \<rparr> in
         if rt \<noteq> 0 then Some (OPRT_INVALID_PARM, None, m) else ble_packet_parse env m) })"

definition ble_packet_recv :: "ble_env \<Rightarrow> ble_mgr \<Rightarrow> bytes \<Rightarrow> u16 \<Rightarrow> (operate_ret \<times> ble_packet option \<times> ble_mgr) option" where
  "ble_packet_recv env m buf len = do {
     (rt, r) \<leftarrow> ble_packet_trsmitr (mgr_rx m) buf (ucast len);
     (let m = m\<lparr> mgr_rx := r \<rparr> in
      if rt \<noteq> OPRT_OK then Some (rt, None, m) else ble_packet_open env m) }"

section \<open>Sending\<close>

text \<open>The plain packet with its CRC, in a fresh buffer of the maximal frame size.\<close>

definition ble_frame_build :: "ble_env \<Rightarrow> u32 \<Rightarrow> ble_packet \<Rightarrow> bytes option" where
  "ble_frame_build env send_sn p =
     (let n = 12 + unat (pk_len p); frame = env_junk env TUYA_BLE_AIR_FRAME_MAX in do {
      frame \<leftarrow> mem_wr 0 (be32 send_sn @ be32 (pk_sn p) @ be16 (pk_type p) @ be16 (pk_len p)) frame;
      frame \<leftarrow> (case pk_data p of None \<Rightarrow> Some frame
                 | Some d \<Rightarrow> do { d \<leftarrow> mem_rd 0 (unat (pk_len p)) d; mem_wr 12 d frame });
      fr \<leftarrow> mem_rd 0 n frame;
      mem_wr n (be16 (get_crc_16 fr)) frame })"

text \<open>The encrypted packet: mode byte, vector, cipher text.\<close>

definition ble_frame_seal :: "ble_env \<Rightarrow> ble_mgr \<Rightarrow> u8 \<Rightarrow> bytes \<Rightarrow> nat \<Rightarrow> (operate_ret \<times> (bytes \<times> u32) option \<times> ble_mgr) option" where
  "ble_frame_seal env m mode frame frame_len =
     (let iv = env_rand env (mgr_rand_no m) 16; m = m\<lparr> mgr_rand_no := mgr_rand_no m + 1 \<rparr> in do {
      enc \<leftarrow> mem_wr 0 [mode] (env_junk env TUYA_BLE_AIR_FRAME_MAX);
      enc \<leftarrow> mem_wr 1 iv enc;
      (rt, k, out, _, keys) \<leftarrow> tuya_ble_encryption (env_aes env) (env_md5 env) (mgr_crypto m) (mgr_keys m)
        mode iv frame (of_nat frame_len) (drop 17 enc);
      if rt = 0 then do { k \<leftarrow> k; Some (OPRT_OK, Some (take 17 enc @ out, k + 17), m\<lparr> mgr_keys := keys \<rparr>) }
      else Some (OPRT_COM_ERROR, None, m\<lparr> mgr_keys := keys \<rparr>) })"

definition ble_packet_encode :: "ble_env \<Rightarrow> ble_mgr \<Rightarrow> ble_packet \<Rightarrow> (operate_ret \<times> (bytes \<times> u32) option \<times> ble_mgr) option" where
  "ble_packet_encode env m p =
     (if \<not> env_alloc env TUYA_BLE_AIR_FRAME_MAX then Some (OPRT_COM_ERROR, None, m)
      else
        (let send_sn = mgr_send_sn m; m = m\<lparr> mgr_send_sn := send_sn + 1 \<rparr>;
             frame_len = 12 + unat (pk_len p) + 2;
             padding_len = 17 + (if frame_len mod 16 \<noteq> 0 then 16 - frame_len mod 16 else 0) in do {
         frame \<leftarrow> ble_frame_build env send_sn p;
         if frame_len + padding_len > TUYA_BLE_AIR_FRAME_MAX then Some (OPRT_COM_ERROR, None, m)
         else ble_frame_seal env m (pk_encrypt_mode p) frame frame_len }))"

text \<open>
  The send loop of \<^verbatim>\<open>ble_packet_resp\<close>.  The macro around the link write assigns its result to \<^verbatim>\<open>rt\<close>,
  and the loop test reads that \<^verbatim>\<open>rt\<close>.  \<open>fuel\<close> bounds the rounds; running out of it is \<open>None\<close>.
\<close>

fun resp_loop :: "nat \<Rightarrow> ble_env \<Rightarrow> ble_mgr \<Rightarrow> ble_frame_trsmitr \<Rightarrow> bytes \<Rightarrow> u32 \<Rightarrow> bytes \<Rightarrow> (operate_ret \<times> ble_mgr) option" where
  "resp_loop 0 env m t outbuf outlen pbuf = None"
| "resp_loop (Suc fuel) env m t outbuf outlen pbuf = do {
     (rt, t, g) \<leftarrow> ble_frame_trsmitr_send_pkg_encode (mgr_frame m) (Some t) TUYA_BLE_PROTOCOL_VERSION_HIGN outbuf outlen;
     t \<leftarrow> t;
     (let m = m\<lparr> mgr_frame := g \<rparr> in
      if rt \<noteq> OPRT_OK \<and> rt \<noteq> OPRT_SVC_BT_API_TRSMITR_CONTINUE then Some (rt, m)
      else do {
        d \<leftarrow> mem_rd 0 (unat (ble_frame_subpacket_len_get t)) (ble_frame_subpacket_get t);
        pbuf \<leftarrow> mem_wr 0 d pbuf;
        (let rt = env_send env d; m = log_call (Ble_send d) m in
         if rt \<noteq> OPRT_OK then Some (rt, m)
         else if rt = OPRT_SVC_BT_API_TRSMITR_CONTINUE then resp_loop fuel env m t outbuf outlen pbuf
         else Some (rt, m)) }) }"

definition ble_packet_resp :: "ble_env \<Rightarrow> ble_mgr \<Rightarrow> ble_packet \<Rightarrow> (operate_ret \<times> ble_mgr) option" where
  "ble_packet_resp env m p = do {
     (rt, out, m) \<leftarrow> ble_packet_encode env m p;
     (case out of
        None \<Rightarrow> Some (rt, m)
      | Some (outbuf, outlen) \<Rightarrow>
        (let buf_len = unat (ble_frame_packet_len_get (mgr_frame m)) in
         if \<not> env_alloc env buf_len then Some (OPRT_MALLOC_FAILED, m)
         else
           (case ble_frame_trsmitr_create True (env_alloc env buf_len) (mgr_frame m) of
              None \<Rightarrow> Some (OPRT_MALLOC_FAILED, m)
            | Some t \<Rightarrow> resp_loop (Suc (unat outlen)) env m t outbuf outlen (replicate buf_len 0)))) }"

definition tuya_ble_send_packet :: "ble_env \<Rightarrow> ble_mgr \<Rightarrow> ble_packet \<Rightarrow> (operate_ret \<times> ble_mgr) option" where
  "tuya_ble_send_packet env m p =
     (if \<not> mgr_is_paired m then Some (OPRT_OK, m)
      else ble_packet_resp env m (p\<lparr> pk_encrypt_mode :=
        (if pk_type p = FRM_QRY_DEV_INFO_REQ
         then if mgr_is_bound m then ENCRYPTION_MODE_KEY_14 else ENCRYPTION_MODE_KEY_11
         else if mgr_is_bound m then ENCRYPTION_MODE_SESSION_KEY15 else ENCRYPTION_MODE_KEY_12) \<rparr>))"

definition tuya_ble_send :: "ble_env \<Rightarrow> ble_mgr \<Rightarrow> u16 \<Rightarrow> u32 \<Rightarrow> bytes option \<Rightarrow> u32 \<Rightarrow> (operate_ret \<times> ble_mgr) option" where
  "tuya_ble_send env m ty ack_sn dat len = tuya_ble_send_packet env m
     \<lparr> pk_sn = ack_sn, pk_type = ty, pk_len = ucast len, pk_data = dat, pk_encrypt_mode = 0 \<rparr>"

section \<open>Advertising\<close>

definition set_bit16 :: "nat \<Rightarrow> u16 \<Rightarrow> u16" where
  "set_bit16 n w = w OR push_bit n 1"

definition adv_frame_ctrl :: "ble_env \<Rightarrow> ble_mgr \<Rightarrow> u16" where
  "adv_frame_ctrl env m =
     (let c = set_bit16 8 (set_bit16 3 (set_bit16 2 0));
          c = (if env_link_down env then set_bit16 9 c else c);
          c = (if mgr_is_bound m then set_bit16 11 c else c)
      in set_bit16 14 c)"

text \<open>
  The communication ability is \<^verbatim>\<open>0x000C\<close>.  The flag byte is at offset 7 of the scan response and is
  written before the ids.  \<^verbatim>\<open>strlen\<close> stops at the terminator of the name.
\<close>

definition ble_adv_set :: "ble_env \<Rightarrow> ble_mgr \<Rightarrow> (operate_ret \<times> ble_mgr) option" where
  "ble_adv_set env m =
     (let ctrl = adv_frame_ctrl env m;
          flag = (if mgr_is_id_comp m then 0x01 else 0x00) :: u8;
          flag = (if mgr_is_bound m then flag OR 0x80 else flag AND 0x7F);
          name_len = length (takeWhile (\<lambda>c. c \<noteq> 0) (mgr_device_name m));
          name_len = (if name_len > 5 then 5 else name_len) in do {
      adv \<leftarrow> mem_wr 0 ([0x02, 0x01, 0x06, 0x03, 0x02, 0x50, 0xFD, 23, 0x16, 0x50, 0xFD] @
                       be16 ctrl @ [0x00, 16]) (mgr_adv_data m);
      rsp \<leftarrow> mem_wr 0 [0x17, 0xFF, 0xD0, 0x07, 0x00, 0x00, 0x0C, flag] (mgr_rsp_data m);
      adv \<leftarrow> (if mgr_is_bound m then do {
          (rt, o') \<leftarrow> tuya_ble_adv_id_encrypt (env_alloc env 114) (env_junk env) (env_aes env) (env_md5 env)
            (mgr_seckey m) (mgr_id m) 16 (drop 15 adv);
          Some (take 15 adv @ o') }
        else do { k \<leftarrow> mem_rd 0 16 (mgr_productkey m); mem_wr 15 k adv });
      (rt, o') \<leftarrow> tuya_ble_rsp_id_encrypt (env_aes env) (env_md5 env) (drop 11 adv) 20 (mgr_id m) 16 (drop 8 rsp);
      nm \<leftarrow> mem_rd 0 name_len (mgr_device_name m);
      rsp \<leftarrow> mem_wr 24 nm (take 8 rsp @ o');
      rsp \<leftarrow> mem_wr 24 [of_nat (name_len + 1), 0x09] rsp;
      Some (OPRT_OK, m\<lparr> mgr_adv_data := adv, mgr_adv_len := 31, mgr_rsp_data := rsp, mgr_rsp_len := 26 + name_len \<rparr>) })"

definition ble_adv_update :: "ble_env \<Rightarrow> ble_mgr \<Rightarrow> ble_mgr option" where
  "ble_adv_update env m = do {
     (_, m) \<leftarrow> ble_adv_set env m;
     (let set_data = Adv_data_set (take (mgr_adv_len m) (mgr_adv_data m)) (take (mgr_rsp_len m) (mgr_rsp_data m)) in
      Some (if mgr_is_paired m then log_call set_data m
            else log_call Adv_start (log_call set_data (log_call Adv_stop m)))) }"

section \<open>Requests\<close>

definition ble_unbind_req :: "ble_env \<Rightarrow> ble_mgr \<Rightarrow> ble_packet \<Rightarrow> (operate_ret \<times> ble_mgr) option" where
  "ble_unbind_req env m req = do {
     (_, m) \<leftarrow> ble_packet_resp env m
       \<lparr> pk_sn = pk_sn req, pk_type = pk_type req, pk_len = 1, pk_data = Some [1], pk_encrypt_mode = pk_encrypt_mode req \<rparr>;
     Some (OPRT_OK, log_call Ble_disconnect ((log_call Iot_reset m)\<lparr> mgr_is_bound := False \<rparr>)) }"

definition ble_pair_req :: "ble_env \<Rightarrow> ble_mgr \<Rightarrow> ble_packet \<Rightarrow> (operate_ret \<times> ble_mgr) option" where
  "ble_pair_req env m req = do {
     d \<leftarrow> pk_data req;
     a \<leftarrow> mem_rd 0 16 d;
     b \<leftarrow> mem_rd 0 16 (mgr_id m);
     (let (res, m) = (if a = b then (if mgr_is_bound m then 2 else 0, (log_call Pair_timer_stop m)\<lparr> mgr_is_paired := True \<rparr>)
                      else (1 :: u8, m)) in do {
      (rt, m) \<leftarrow> ble_packet_resp env m
        \<lparr> pk_sn = pk_sn req, pk_type = pk_type req, pk_len = 1, pk_data = Some [res], pk_encrypt_mode = pk_encrypt_mode req \<rparr>;
      (rt, m) \<leftarrow> (if rt \<noteq> OPRT_OK then Some (rt, m)
                   else tuya_ble_send env m FRM_RPT_NET_STAT_REQ 0 (Some [env_netstat env]) 1);
      Some (rt, if res = 1 then log_call Ble_disconnect m else m) }) }"

text \<open>The packet length announced to the peer is 960, so it takes the two-byte branch.\<close>

definition ble_dev_info_make :: "ble_env \<Rightarrow> ble_mgr \<Rightarrow> bytes \<Rightarrow> (nat \<times> bytes \<times> ble_mgr) option" where
  "ble_dev_info_make env m pbuf =
     (let rnd = env_rand env (mgr_rand_no m) 6; m = m\<lparr> mgr_pair_rand := rnd, mgr_rand_no := mgr_rand_no m + 1 \<rparr>;
          pkg_len = 960 :: u16 in do {
      b \<leftarrow> mem_wr 0 [0x00, 0x00, TUYA_BLE_PROTOCOL_VERSION_HIGN, TUYA_BLE_PROTOCOL_VERSION_LOW, 0x05,
                      if mgr_is_bound m then 1 else 0] pbuf;
      r \<leftarrow> mem_rd 0 6 rnd;
      b \<leftarrow> mem_wr 6 r b;
      b \<leftarrow> (let (_, o') = tuya_ble_register_key_generate (env_aes env) (mgr_keys m) (take 16 (drop 14 b)) (mgr_authkey m)
            in mem_wr 14 o' b);
      b \<leftarrow> mem_wr 52 [0x00, 0x0C, 0x06] b;
      b \<leftarrow> mem_wr 83 [1] b;
      b \<leftarrow> mem_wr 86 [1] b;
      b \<leftarrow> mem_wr 95 (16 # replicate 16 0) b;
      b \<leftarrow> mem_wr 112 [0, 0] b;
      b \<leftarrow> (if pkg_len < 256 then mem_wr 114 [1, ucast pkg_len] b
            else mem_wr 114 [2, ucast (drop_bit 8 (pkg_len AND 0xFF00)), ucast (pkg_len AND 0x00FF)] b);
      (let n = (if pkg_len < 256 then 116 else 117) in do {
       b \<leftarrow> mem_wr n [1, 0, 1, 0] b;
       Some (n + 4, b, m) }) })"

definition ble_dev_info_req :: "ble_env \<Rightarrow> ble_mgr \<Rightarrow> ble_packet \<Rightarrow> (operate_ret \<times> ble_mgr) option" where
  "ble_dev_info_req env m req = do {
     d \<leftarrow> pk_data req;
     pkg_len \<leftarrow> rd16 d 0;
     (let m = m\<lparr> mgr_frame := ble_frame_packet_len_set pkg_len (mgr_frame m) \<rparr>;
          t = rx_trsmitr (mgr_rx m) in
      if \<not> env_alloc env (unat pkg_len)
      then Some (OPRT_MALLOC_FAILED, m\<lparr> mgr_rx := (mgr_rx m)\<lparr> rx_trsmitr := t\<lparr> trs_subpkg := [] \<rparr> \<rparr> \<rparr>)
      else
        (let m = m\<lparr> mgr_rx := (mgr_rx m)\<lparr> rx_trsmitr := t\<lparr> trs_subpkg := replicate (unat pkg_len) 0 \<rparr> \<rparr> \<rparr> in
         if \<not> env_alloc env 128 then Some (OPRT_MALLOC_FAILED, m)
         else do {
           (n, pbuf, m) \<leftarrow> ble_dev_info_make env m (replicate 128 0);
           ble_packet_resp env m
             \<lparr> pk_sn = pk_sn req, pk_type = pk_type req, pk_len = of_nat n, pk_data = Some pbuf,
               pk_encrypt_mode = pk_encrypt_mode req \<rparr> })) }"

definition ble_session_system_process :: "ble_env \<Rightarrow> ble_mgr \<Rightarrow> ble_packet \<Rightarrow> ble_mgr option" where
  "ble_session_system_process env m p =
     (if pk_type p = FRM_QRY_DEV_INFO_REQ then map_option snd (ble_dev_info_req env m p)
      else if pk_type p = FRM_PAIR_REQ then map_option snd (ble_pair_req env m p)
      else if pk_type p = FRM_UNBONDING_REQ \<or> pk_type p = FRM_DEVICE_RESET then map_option snd (ble_unbind_req env m p)
      else Some m)"

section \<open>Sessions and events\<close>

definition tuya_ble_is_connected :: "ble_mgr option \<Rightarrow> bool" where
  "tuya_ble_is_connected mgr = (case mgr of None \<Rightarrow> False | Some m \<Rightarrow> mgr_is_paired m)"

definition tuya_ble_session_add :: "ble_mgr \<Rightarrow> nat \<Rightarrow> ble_session_fn \<Rightarrow> operate_ret \<times> ble_mgr" where
  "tuya_ble_session_add m ty fn =
     (if ty < BLE_SESSION_MAX then (OPRT_OK, m\<lparr> mgr_session := (mgr_session m)[ty := Some fn] \<rparr>) else (OPRT_INVALID_PARM, m))"

definition tuya_ble_session_del :: "ble_mgr \<Rightarrow> nat \<Rightarrow> operate_ret \<times> ble_mgr" where
  "tuya_ble_session_del m ty =
     (if ty < BLE_SESSION_MAX then (OPRT_OK, m\<lparr> mgr_session := (mgr_session m)[ty := None] \<rparr>) else (OPRT_INVALID_PARM, m))"

text \<open>
  The sessions run in slot order; the one of this file is executed, a call into another
  file is logged.
\<close>

fun run_sessions :: "ble_env \<Rightarrow> ble_packet \<Rightarrow> ble_session_fn option list \<Rightarrow> ble_mgr \<Rightarrow> ble_mgr option" where
  "run_sessions env p [] m = Some m"
| "run_sessions env p (None # fs) m = run_sessions env p fs m"
| "run_sessions env p (Some Session_system # fs) m = do {
     m \<leftarrow> ble_session_system_process env m p; run_sessions env p fs m }"
| "run_sessions env p (Some fn # fs) m = run_sessions env p fs (log_call (Run_session fn p) m)"

datatype ble_event =
    Stack_init int
  | Peripheral_connect int u16
  | Peripheral_disconnect
  | Write_req u16 bytes u16
  | Other_event

definition tal_ble_event_callback :: "ble_env \<Rightarrow> ble_mgr \<Rightarrow> ble_event \<Rightarrow> ble_mgr option" where
  "tal_ble_event_callback env m ev =
     (case ev of
        Stack_init i \<Rightarrow> if i = 0 then ble_adv_update env m else Some m
      | Peripheral_connect res peer \<Rightarrow>
          Some (if res = 0
            then log_call (Pair_timer_start 30000) (m\<lparr> mgr_peer := peer, mgr_recv_sn := 0, mgr_send_sn := 1 \<rparr>)
            else m\<lparr> mgr_peer := 0 \<rparr>)
      | Peripheral_disconnect \<Rightarrow>
          (let m = (log_call Pair_timer_stop
                     (m\<lparr> mgr_peer := 0, mgr_pair_rand := replicate (length (mgr_pair_rand m)) 0 \<rparr>))\<lparr> mgr_is_paired := False \<rparr> in
           if \<not> env_connected env then ble_adv_update env m else Some m)
      | Write_req handle dat len \<Rightarrow>
          if handle = mgr_peer m then do {
            (rt, p, m) \<leftarrow> ble_packet_recv env m dat len;
            if rt \<noteq> OPRT_OK then Some m
            else do { p \<leftarrow> p; run_sessions env p (mgr_session m) m } }
          else Some m
      | Other_event \<Rightarrow> Some m)"

definition ble_pair_timeout_cb :: "ble_mgr \<Rightarrow> ble_mgr" where
  "ble_pair_timeout_cb m = log_call Ble_disconnect m"

text \<open>The monitor keeps the last seen connection state in a static variable, here \<open>stat\<close>.\<close>

definition ble_mointor_timer_cb :: "ble_env \<Rightarrow> ble_mgr \<Rightarrow> bool \<Rightarrow> (ble_mgr \<times> bool) option" where
  "ble_mointor_timer_cb env m stat =
     (if env_connected env then
        (if stat then Some (m, stat)
         else Some (log_call (if mgr_is_paired m then Ble_disconnect else Adv_stop) m, True))
      else
        (if \<not> stat then Some (m, stat)
         else if mgr_is_paired m then Some (m, False)
         else map_option (\<lambda>m. (m, False)) (ble_adv_update env m)))"

section \<open>Start and stop\<close>

record ble_cfg =
  cfg_uuid :: bytes
  cfg_authkey :: bytes
  cfg_seckey :: bytes
  cfg_localkey :: bytes
  cfg_productkey :: bytes
  cfg_activated :: bool
  cfg_device_name :: bytes

text \<open>
  \<open>obj_alloc\<close> and \<open>rx_alloc\<close> tell whether the two structures can be allocated, \<open>rx\<close> and
  \<open>temp\<close> are the uninitialised receive structure and work array, and \<open>setup\<close> is the code of
  the first timer or stack call that fails, or \<^verbatim>\<open>OPRT_OK\<close>.  A failure releases everything.
\<close>

definition tuya_ble_init ::
  "ble_env \<Rightarrow> bool \<Rightarrow> bool \<Rightarrow> ble_packet_recv_t \<Rightarrow> u8 list \<Rightarrow> operate_ret \<Rightarrow> ble_key_state \<Rightarrow> ble_frame_globals \<Rightarrow>
     ble_cfg \<Rightarrow> ble_mgr option \<Rightarrow> (operate_ret \<times> ble_mgr option) option" where
  "tuya_ble_init env obj_alloc rx_alloc rx temp setup keys g cfg mgr =
     (case mgr of
        Some m \<Rightarrow> Some (OPRT_OK, Some m)
      | None \<Rightarrow>
        if \<not> obj_alloc then Some (OPRT_MALLOC_FAILED, None)
        else if \<not> rx_alloc then Some (OPRT_MALLOC_FAILED, None)
        else
          (case ble_frame_trsmitr_create True (env_alloc env (unat (s_ble_frame_packet_len g))) g of
             None \<Rightarrow> Some (OPRT_MALLOC_FAILED, None)
           | Some t \<Rightarrow>
             (let comp = 20 \<le> length (takeWhile (\<lambda>c. c \<noteq> 0) (cfg_uuid cfg)) in do {
              i \<leftarrow> (if comp then tuya_ble_id_compress temp (cfg_uuid cfg) (replicate 17 0)
                    else do { u \<leftarrow> mem_rd 0 16 (cfg_uuid cfg); mem_wr 0 u (replicate 17 0) });
              if setup \<noteq> OPRT_OK then Some (setup, None)
              else Some (OPRT_OK, Some \<lparr>
                mgr_id = i, mgr_is_id_comp = comp, mgr_authkey = cfg_authkey cfg, mgr_seckey = cfg_seckey cfg,
                mgr_localkey = cfg_localkey cfg, mgr_productkey = cfg_productkey cfg,
                mgr_device_name = cfg_device_name cfg, mgr_pair_rand = replicate 6 0, mgr_is_paired = False,
                mgr_is_bound = cfg_activated cfg, mgr_peer = 0, mgr_adv_data = replicate 31 0, mgr_adv_len = 0,
                mgr_rsp_data = replicate 31 0, mgr_rsp_len = 0, mgr_send_sn = 0, mgr_recv_sn = 0,
                mgr_rx = rx\<lparr> rx_trsmitr := t \<rparr>,
                mgr_session = [Some Session_system, Some Session_dp, Some Session_channel, None],
                mgr_keys = keys, mgr_frame = g, mgr_rand_no = 0, mgr_calls = [] \<rparr>) })))"

section \<open>Example state\<close>

text \<open>A manager and an environment to evaluate on: sub-packets of 200 bytes, every call
  succeeds; \<open>demo_wire\<close> is a packet with number 1 as the peer sends it.\<close>

definition demo_env :: ble_env where
  "demo_env = \<lparr> env_aes = xor_aes, env_md5 = (\<lambda>_. replicate 16 8), env_rand = (\<lambda>i n. replicate n (of_nat i)),
     env_send = (\<lambda>_. OPRT_OK), env_alloc = (\<lambda>_. True), env_junk = (\<lambda>n. replicate n 0), env_netstat = 0,
     env_link_down = False, env_connected = False \<rparr>"

definition demo_trs :: "nat \<Rightarrow> ble_frame_trsmitr" where
  "demo_trs n = \<lparr> trs_total = 0, trs_version = 0, trs_seq = 0, trs_pkg_desc = BLE_FRAME_PKG_INIT, trs_subpkg_num = 0,
     trs_pkg_trsmitr_cnt = 0, trs_subpkg_len = 0, trs_subpkg = replicate n 0 \<rparr>"

definition demo_mgr :: ble_mgr where
  "demo_mgr = \<lparr> mgr_id = replicate 17 1, mgr_is_id_comp = False, mgr_authkey = replicate 32 2, mgr_seckey = replicate 16 3,
     mgr_localkey = replicate 16 4, mgr_productkey = replicate 16 5, mgr_device_name = [0x54, 0x55, 0x59, 0x41, 0],
     mgr_pair_rand = replicate 6 6, mgr_is_paired = True, mgr_is_bound = True, mgr_peer = 9,
     mgr_adv_data = replicate 31 0, mgr_adv_len = 0, mgr_rsp_data = replicate 31 0, mgr_rsp_len = 0,
     mgr_send_sn = 1, mgr_recv_sn = 0,
     mgr_rx = \<lparr> rx_trsmitr = demo_trs 200, rx_raw_len = 0, rx_raw_buf = replicate 1024 0, rx_dec_len = 0, rx_dec_buf = replicate 1024 0 \<rparr>,
     mgr_session = [], mgr_keys = \<lparr> service_rand = replicate 16 7, key_out_key11 = replicate 16 7 \<rparr>,
     mgr_frame = \<lparr> s_ble_frame_seq = 0, s_ble_frame_packet_len = 200 \<rparr>, mgr_rand_no = 0, mgr_calls = [] \<rparr>"

definition demo_wire :: bytes where
  "demo_wire =
     (case ble_packet_encode demo_env demo_mgr \<lparr> pk_sn = 0, pk_type = 7, pk_len = 1, pk_data = Some [1], pk_encrypt_mode = 15 \<rparr> of
        Some (_, Some (out, n), _) \<Rightarrow> [0, 33, 0x40] @ take (unat n) out
      | _ \<Rightarrow> [])"

section \<open>Sequence numbers\<close>

lemma recv_sn_trsmitr: "ble_packet_parse env m = Some (rt, p, m') \<Longrightarrow>
    (rt \<noteq> OPRT_INVALID_PARM \<longrightarrow> mgr_recv_sn m < mgr_recv_sn m' \<and> (\<exists>q. p = Some q \<and> pk_sn q = mgr_recv_sn m')) \<and>
    (rt = OPRT_INVALID_PARM \<longrightarrow> mgr_recv_sn m' = mgr_recv_sn m)"
  unfolding ble_packet_parse_def Let_def bind_eq_Some_conv
  by (auto simp: not_le log_call_def bind_eq_Some_conv split: if_splits)

lemma ble_packet_open_parse:
  assumes "ble_packet_open env m = Some (rt, p, m')"
  shows "(rt = OPRT_INVALID_PARM \<and> mgr_recv_sn m' = mgr_recv_sn m) \<or>
    (\<exists>m1. mgr_recv_sn m1 = mgr_recv_sn m \<and> ble_packet_parse env m1 = Some (rt, p, m'))"
proof -
  let ?r = "mgr_rx m"
  let ?dec = "tuya_ble_decryption (env_aes env) (env_md5 env) (mgr_crypto m) (mgr_keys m) (rx_raw_buf ?r) (rx_raw_len ?r) (rx_dec_buf ?r)"
  show ?thesis
  proof (cases "\<not> 1024 < rx_raw_len ?r \<and> \<not> trs_version (rx_trsmitr ?r) < 2")
    case True
    then obtain rt1 n dec keys where dec: "?dec = Some (rt1, n, dec, keys)"
      using assms by (auto simp: ble_packet_open_def Let_def bind_eq_Some_conv)
    show ?thesis
      using assms True dec by (cases "rt1 = 0") (auto simp: ble_packet_open_def Let_def)
  qed (use assms in \<open>auto simp: ble_packet_open_def Let_def split: if_splits\<close>)
qed

lemma ble_packet_recv_parse:
  assumes "ble_packet_recv env m buf len = Some (rt, p, m')"
  shows "(rt \<noteq> OPRT_OK \<and> mgr_recv_sn m' = mgr_recv_sn m) \<or>
    (\<exists>m1. mgr_recv_sn m1 = mgr_recv_sn m \<and> ble_packet_parse env m1 = Some (rt, p, m'))"
proof -
  obtain rt0 r where r: "ble_packet_trsmitr (mgr_rx m) buf (ucast len) = Some (rt0, r)"
    using assms by (auto simp: ble_packet_recv_def bind_eq_Some_conv)
  show ?thesis
    using assms r by (cases "rt0 = OPRT_OK") (auto simp: ble_packet_recv_def Let_def dest!: ble_packet_open_parse)
qed

text \<open>
  C3: Replay protection.  Whatever is written to the device, the last accepted sequence number never
  decreases; a packet is handed on (return code OPRT_OK) only with a number above every number
  accepted before on this connection, and that number becomes the new bound.
\<close>

theorem ble_recv_sn_monotone:
  assumes "ble_packet_recv env m buf len = Some (rt, p, m')"
  shows "mgr_recv_sn m \<le> mgr_recv_sn m' \<and>
    (rt = OPRT_OK \<longrightarrow> mgr_recv_sn m < mgr_recv_sn m' \<and> (\<exists>q. p = Some q \<and> pk_sn q = mgr_recv_sn m'))"
  using ble_packet_recv_parse [OF assms]
proof (elim disjE exE conjE)
  fix m1 assume "mgr_recv_sn m1 = mgr_recv_sn m" "ble_packet_parse env m1 = Some (rt, p, m')"
  then show ?thesis
    using recv_sn_trsmitr [of env m1 rt p m'] by (cases "rt = OPRT_INVALID_PARM") auto
qed auto

theorem ble_recv_sn_monotone_witness:
  "\<exists>m' q. ble_packet_recv demo_env demo_mgr demo_wire 36 = Some (OPRT_OK, Some q, m') \<and> mgr_recv_sn demo_mgr < mgr_recv_sn m' \<and>
    pk_sn q = mgr_recv_sn m'"
proof -
  have "map_option fst (ble_packet_recv demo_env demo_mgr demo_wire 36) = Some OPRT_OK"
    by code_simp
  then obtain p m' where r: "ble_packet_recv demo_env demo_mgr demo_wire 36 = Some (OPRT_OK, p, m')"
    by auto
  then show ?thesis
    using ble_recv_sn_monotone [OF r] by auto
qed

section \<open>One sub-packet per response\<close>

lemma resp_loop_once:
  assumes "resp_loop (Suc fuel) env m t outbuf outlen pbuf = Some (rt, m')"
  shows "mgr_calls m' = mgr_calls m \<or> (\<exists>d. mgr_calls m' = mgr_calls m @ [Ble_send d])"
  using assms by (simp add: Let_def log_call_def split: Option.bind_split_asm if_split_asm prod.split_asm) auto

lemma ble_frame_seal_calls:
  "ble_frame_seal env m mode frame n = Some (rt, out, m') \<Longrightarrow> mgr_calls m' = mgr_calls m"
  by (auto simp: ble_frame_seal_def bind_eq_Some_conv Let_def split: if_splits)

lemma ble_packet_encode_calls:
  "ble_packet_encode env m p = Some (rt, out, m') \<Longrightarrow> mgr_calls m' = mgr_calls m"
  by (auto simp: ble_packet_encode_def bind_eq_Some_conv Let_def split: if_splits dest!: ble_frame_seal_calls)

text \<open>
  C26: A response is sent incompletely.  Every response makes at most one link write, whatever its
  length: the loop of ble_packet_resp tests the return code of that write instead of the one of the fragmentation.
\<close>

theorem ble_resp_single_write:
  assumes "ble_packet_resp env m p = Some (rt, m')"
  shows "mgr_calls m' = mgr_calls m \<or> (\<exists>d. mgr_calls m' = mgr_calls m @ [Ble_send d])"
proof -
  obtain rt0 out m1 where e: "ble_packet_encode env m p = Some (rt0, out, m1)"
    using assms by (auto simp: ble_packet_resp_def bind_eq_Some_conv)
  then have "mgr_calls m1 = mgr_calls m"
    by (rule ble_packet_encode_calls)
  then show ?thesis
    using assms e
    by (auto simp: ble_packet_resp_def Let_def split: option.splits if_splits simp del: resp_loop.simps)
       (metis resp_loop_once)
qed

theorem ble_resp_single_write_witness:
  "\<exists>m' d. ble_packet_resp demo_env (demo_mgr\<lparr> mgr_frame := \<lparr> s_ble_frame_seq = 0, s_ble_frame_packet_len = 20 \<rparr> \<rparr>)
      \<lparr> pk_sn = 0, pk_type = 7, pk_len = 1, pk_data = Some [1], pk_encrypt_mode = 15 \<rparr> = Some (OPRT_OK, m') \<and>
    mgr_calls m' = [Ble_send d] \<and> length d = 20"
proof -
  let ?m = "demo_mgr\<lparr> mgr_frame := \<lparr> s_ble_frame_seq = 0, s_ble_frame_packet_len = 20 \<rparr> \<rparr>"
  let ?p = "\<lparr> pk_sn = 0, pk_type = 7, pk_len = 1, pk_data = Some [1], pk_encrypt_mode = 15 \<rparr>"
  have "map_option (\<lambda>(rt, m). (rt, map (\<lambda>c. case c of Ble_send d \<Rightarrow> length d | _ \<Rightarrow> 0) (mgr_calls m)))
      (ble_packet_resp demo_env ?m ?p) = Some (OPRT_OK, [20])"
    by code_simp
  then obtain m' where r: "ble_packet_resp demo_env ?m ?p = Some (OPRT_OK, m')"
    "map (\<lambda>c. case c of Ble_send d \<Rightarrow> length d | _ \<Rightarrow> 0) (mgr_calls m') = [20]"
    by auto
  then show ?thesis
    using ble_resp_single_write [OF r(1)] by (auto simp: demo_mgr_def)
qed

section \<open>The advertised name\<close>

lemma take_min_takeWhile: "take (min n (length (takeWhile P xs))) xs = take n (takeWhile P xs)"
  by (metis min.commute take_take takeWhile_eq_take)

lemma ble_adv_set_name:
  assumes "ble_adv_set env m = Some (rt, m')" "nm = take 5 (takeWhile (\<lambda>c. c \<noteq> 0) (mgr_device_name m))"
  shows "\<exists>base r1. mem_wr 24 nm base = Some r1 \<and> mem_wr 24 [of_nat (length nm + 1), 0x09] r1 = Some (mgr_rsp_data m') \<and>
    rt = OPRT_OK \<and> mgr_rsp_len m' = 26 + length nm"
proof -
  let ?n = "length (takeWhile (\<lambda>c. c \<noteq> 0) (mgr_device_name m))"
  have n: "(if ?n > 5 then 5 else ?n) = min 5 ?n" "min 5 ?n = length nm"
    using assms(2) by auto
  have "length nm \<le> length (mgr_device_name m)"
    unfolding n(2) [symmetric] by (rule min.coboundedI2) (rule length_takeWhile_le)
  moreover have "take (length nm) (mgr_device_name m) = nm"
    unfolding n(2) [symmetric] take_min_takeWhile by (rule assms(2) [symmetric])
  ultimately have nm: "mem_rd 0 (length nm) (mgr_device_name m) = Some nm"
    by (simp only: mem_rd_def drop_0 add_0 if_True)
  show ?thesis
    using assms(1) unfolding ble_adv_set_def Let_def n nm
    by (clarsimp split: Option.bind_split_asm prod.split_asm simp del: of_nat_add of_nat_Suc; blast)
qed

text \<open>
  C27: the advertised name.  The scan response reserves two header bytes at offset 24, but the name is copied to offset 24
  as well and its first two characters are overwritten by the header: from offset 26 on the name continues with its
  third character.
\<close>

theorem ble_adv_name_shifted:
  assumes "ble_adv_set env m = Some (rt, m')" "nm = take 5 (takeWhile (\<lambda>c. c \<noteq> 0) (mgr_device_name m))"
  shows "rt = OPRT_OK \<and> mgr_rsp_len m' = 26 + length nm \<and> mgr_rsp_data m' ! 24 = of_nat (length nm + 1) \<and>
    mgr_rsp_data m' ! 25 = 9 \<and> (2 \<le> length nm \<longrightarrow> take (length nm - 2) (drop 26 (mgr_rsp_data m')) = drop 2 nm)"
proof -
  obtain base r1 where r: "mem_wr 24 nm base = Some r1" "mem_wr 24 [of_nat (length nm + 1), 0x09] r1 = Some (mgr_rsp_data m')"
    "rt = OPRT_OK" "mgr_rsp_len m' = 26 + length nm"
    using ble_adv_set_name [OF assms] by blast
  have r1: "r1 = take 24 base @ nm @ drop (24 + length nm) base" "24 + length nm \<le> length base"
    "mgr_rsp_data m' = take 24 r1 @ [of_nat (length nm + 1), 9] @ drop 26 r1" "26 \<le> length r1"
    using mem_wr_SomeD [OF r(1)] mem_wr_SomeD [OF r(2)] by auto
  then show ?thesis
    using r(3,4) by (auto simp: nth_append)
qed

theorem ble_adv_name_shifted_witness:
  "\<exists>m'. ble_adv_set demo_env demo_mgr = Some (OPRT_OK, m') \<and> drop 26 (take 28 (mgr_rsp_data m')) = [0x59, 0x41] \<and>
    mgr_rsp_len m' = 30"
proof -
  have "map_option fst (ble_adv_set demo_env demo_mgr) = Some OPRT_OK"
    by code_simp
  then obtain m' where m': "ble_adv_set demo_env demo_mgr = Some (OPRT_OK, m')"
    by auto
  show ?thesis
    using ble_adv_name_shifted [OF m' refl] m' by (simp add: demo_mgr_def drop_take flip: numeral_2_eq_2)
qed

end
