(* ===== verification/BleChannel.thy ===== *)
theory BleChannel
  imports BleMgr
begin

unbundle bit_operations_syntax

text \<open>
  The transparent channels of the BLE link, \<^verbatim>\<open>src/src/tuya_cloud_service/ble/ble_channel.c\<close>: data of any length goes to
  the application in sub-packets, each answered by an acknowledgement that asks for the next one, and data from the
  application is collected in the same format and handed to the function of its channel.

  State.  \<open>ble_channel\<close> has the file-level variables and the static ones of the receiver, with the log of the packets sent
  and of the functions called.  A function and its private data are addresses, \<open>0\<close> is \<^verbatim>\<open>NULL\<close>.  \<open>mem n\<close> is what an
  allocation of \<open>n\<close> bytes gives: \<open>None\<close>, or memory with any content.
\<close>

section \<open>State\<close>

abbreviation (input) FRM_DOWNLINK_TRANSPARENT_REQ :: u16 where "FRM_DOWNLINK_TRANSPARENT_REQ \<equiv> 0x801B"
abbreviation (input) FRM_UPLINK_TRANSPARENT_REQ :: u16 where "FRM_UPLINK_TRANSPARENT_REQ \<equiv> 0x801C"
abbreviation (input) FRM_DOWNLINK_TRANSPARENT_SPEC_REQ :: u16 where "FRM_DOWNLINK_TRANSPARENT_SPEC_REQ \<equiv> 0x801E"
abbreviation (input) FRM_UPLINK_TRANSPARENT_SPEC_REQ :: u16 where "FRM_UPLINK_TRANSPARENT_SPEC_REQ \<equiv> 0x801F"
abbreviation (input) TUYA_BLE_TRANS_DATA_SUBPACK_LEN :: nat where "TUYA_BLE_TRANS_DATA_SUBPACK_LEN \<equiv> TUYA_BLE_AIR_FRAME_MAX - 64"
abbreviation (input) SUBPACKET_RECV_ALL_DONE :: u8 where "SUBPACKET_RECV_ALL_DONE \<equiv> 0"
abbreviation (input) SUBPACKET_RECV_ONE_AND_NEXT :: u8 where "SUBPACKET_RECV_ONE_AND_NEXT \<equiv> 1"
abbreviation (input) BLE_CHANNEL_MAX :: nat where "BLE_CHANNEL_MAX \<equiv> 2"

datatype channel_call = Channel_send u16 u32 bytes | Channel_fn nat bytes nat

record ble_channel_mgr =
  cm_rsp_data :: "bytes option"
  cm_subpack_no :: u32
  cm_subpack_sent :: u32
  cm_subpack_len :: u32

record ble_channel =
  bc_mgr :: ble_channel_mgr
  bc_channel :: "(nat \<times> nat) list"
  bc_totalLen :: u32
  bc_pBuffer :: "bytes option"
  bc_receivedLen :: u32
  bc_log :: "channel_call list"

definition mgr_zero :: ble_channel_mgr where
  "mgr_zero = \<lparr> cm_rsp_data = None, cm_subpack_no = 0, cm_subpack_sent = 0, cm_subpack_len = 0 \<rparr>"

section \<open>Channels\<close>

definition ble_channel_add :: "nat \<Rightarrow> nat \<Rightarrow> nat \<Rightarrow> ble_channel \<Rightarrow> operate_ret \<times> ble_channel" where
  "ble_channel_add ty fn priv c =
     (if ty < BLE_CHANNEL_MAX then (OPRT_OK, c\<lparr> bc_channel := (bc_channel c)[ty := (fn, priv)] \<rparr>) else (OPRT_INVALID_PARM, c))"

definition ble_channel_del :: "nat \<Rightarrow> ble_channel \<Rightarrow> operate_ret \<times> ble_channel" where
  "ble_channel_del ty c =
     (if ty < BLE_CHANNEL_MAX then (OPRT_OK, c\<lparr> bc_channel := (bc_channel c)[ty := (0, 0)] \<rparr>) else (OPRT_INVALID_PARM, c))"

definition ble_channel_process :: "bytes \<Rightarrow> ble_channel \<Rightarrow> ble_channel option" where
  "ble_channel_process user_data c = do {
     a \<leftarrow> rd user_data 0;
     b \<leftarrow> rd user_data 1;
     (let ty = unat (be16_of [a, b]) in
      if ty < BLE_CHANNEL_MAX then do {
        (fn, priv) \<leftarrow> rd (bc_channel c) ty;
        Some (if fn \<noteq> 0 then c\<lparr> bc_log := bc_log c @ [Channel_fn fn (drop 2 user_data) priv] \<rparr> else c) }
      else Some c) }"

section \<open>Sending\<close>

text \<open>The digits of a length are read and written as in the transmitter; the result is the number of digits.\<close>

definition extract_packet_len :: "bytes \<Rightarrow> nat \<Rightarrow> (nat \<times> u32) option" where
  "extract_packet_len raw off = do { (num, off') \<leftarrow> get_num 4 1 off raw 0; Some (off' - off, num) }"

definition subpack_header :: "u32 \<Rightarrow> u32 \<Rightarrow> bytes \<Rightarrow> (nat \<times> bytes) option" where
  "subpack_header no len buf = do {
     buf \<leftarrow> mem_wr 0 [0x00, 0x03, ucast no] buf;
     if no = 0 then do {
       (off, buf) \<leftarrow> put_num 4 len 3 buf;
       buf \<leftarrow> mem_wr off [push_bit 4 TUYA_BLE_PROTOCOL_VERSION_HIGN] buf;
       Some (Suc off, buf) }
     else Some (3, buf) }"

definition subpack_data_len :: "nat \<Rightarrow> u32 \<Rightarrow> u16" where
  "subpack_data_len off left =
     (let room = of_nat (TUYA_BLE_TRANS_DATA_SUBPACK_LEN - off) in if left < ucast room then ucast left else room)"

definition response_to_app_by_subpack :: "bool \<Rightarrow> u16 \<Rightarrow> ble_channel \<Rightarrow> ble_channel option" where
  "response_to_app_by_subpack alloc ty c =
     (let g = bc_mgr c in
      case cm_rsp_data g of
        None \<Rightarrow> Some c
      | Some rsp \<Rightarrow>
        if \<not> alloc then Some c
        else if cm_subpack_sent g < cm_subpack_len g then do {
          (off, buf) \<leftarrow> subpack_header (cm_subpack_no g) (cm_subpack_len g) (replicate TUYA_BLE_TRANS_DATA_SUBPACK_LEN 0);
          (let data_len = subpack_data_len off (cm_subpack_len g - cm_subpack_sent g) in do {
           d \<leftarrow> mem_rd (2 + unat (cm_subpack_sent g)) (unat data_len) rsp;
           buf \<leftarrow> mem_wr off d buf;
           pkg \<leftarrow> mem_rd 0 (off + unat data_len) buf;
           Some (c\<lparr> bc_mgr := g\<lparr> cm_subpack_sent := cm_subpack_sent g + ucast data_len, cm_subpack_no := cm_subpack_no g + 1 \<rparr>,
             bc_log := bc_log c @ [Channel_send ty 0 pkg] \<rparr>) }) }
        else Some c)"

text \<open>The fourth byte of the data is read for a debug message.\<close>

definition ble_channle_ack :: "bool \<Rightarrow> u16 \<Rightarrow> bytes \<Rightarrow> u32 \<Rightarrow> ble_channel \<Rightarrow> ble_channel option" where
  "ble_channle_ack alloc ty dat len c = do {
     _ \<leftarrow> rd dat 3;
     response_to_app_by_subpack alloc ty (c\<lparr> bc_mgr := mgr_zero\<lparr> cm_rsp_data := Some dat, cm_subpack_len := len - 2 \<rparr> \<rparr>) }"

section \<open>Receiving\<close>

text \<open>The packed acknowledgement as it lies in memory.\<close>

definition channel_ack :: "u8 \<Rightarrow> u8 \<Rightarrow> u8 \<Rightarrow> u32 \<Rightarrow> u32 \<Rightarrow> u32 \<Rightarrow> u32 \<Rightarrow> bytes" where
  "channel_ack flag0 flag1 status no cur received tot =
     rev (be16 (be16_of [flag1, flag0])) @ [status] @ rev (be16 (ucast no)) @ rev (be16 (ucast cur)) @ le32 received @ le32 tot"

text \<open>Storing a sub-packet: the number, the length and the new state; \<open>Inl\<close> ends the handling.\<close>

definition channel_store ::
  "(nat \<Rightarrow> bytes option) \<Rightarrow> bytes \<Rightarrow> u16 \<Rightarrow> ble_channel \<Rightarrow> (ble_channel + u32 \<times> u32 \<times> bytes \<times> ble_channel) option" where
  "channel_store mem raw len c = do {
     b2 \<leftarrow> rd raw 2;
     if b2 = 0 then do {
       (k, total) \<leftarrow> extract_packet_len raw 3;
       (let c = c\<lparr> bc_totalLen := total, bc_receivedLen := 0, bc_pBuffer := None \<rparr> in
        case mem (unat total) of
          None \<Rightarrow> Some (Inl c)
        | Some buf \<Rightarrow>
          (let off = 3 + k + 1; cur = ucast len - of_nat off :: u32 in do {
           d \<leftarrow> mem_rd off (unat cur) raw;
           buf \<leftarrow> mem_wr 0 d buf;
           Some (Inr (0, cur, buf, c\<lparr> bc_pBuffer := Some buf, bc_receivedLen := cur \<rparr>)) })) }
     else
       (case bc_pBuffer c of
          None \<Rightarrow> Some (Inl c)
        | Some buf \<Rightarrow> do {
            (k, no) \<leftarrow> extract_packet_len raw 2;
            (let off = 2 + k; cur = ucast len - of_nat off :: u32 in do {
             d \<leftarrow> mem_rd off (unat cur) raw;
             buf \<leftarrow> mem_wr (unat (bc_receivedLen c)) d buf;
             Some (Inr (no, cur, buf, c\<lparr> bc_pBuffer := Some buf, bc_receivedLen := bc_receivedLen c + cur \<rparr>)) }) }) }"

definition downlink_subpacket :: "(nat \<Rightarrow> bytes option) \<Rightarrow> bool \<Rightarrow> ble_packet \<Rightarrow> bytes \<Rightarrow> ble_channel \<Rightarrow> ble_channel option" where
  "downlink_subpacket mem ack_alloc req raw c = do {
     r \<leftarrow> channel_store mem raw (pk_len req) c;
     (case r of
        Inl c \<Rightarrow> Some c
      | Inr (no, cur, buf, c) \<Rightarrow>
        if \<not> ack_alloc then Some (c\<lparr> bc_pBuffer := None \<rparr>)
        else do {
          f0 \<leftarrow> rd raw 0;
          f1 \<leftarrow> rd raw 1;
          (let more = bc_receivedLen c < bc_totalLen c;
               ack = channel_ack f0 f1 (if more then SUBPACKET_RECV_ONE_AND_NEXT else SUBPACKET_RECV_ALL_DONE) no cur (bc_receivedLen c) (bc_totalLen c);
               c = c\<lparr> bc_log := bc_log c @ [Channel_send (pk_type req) (pk_sn req) ack] \<rparr>
           in if more then Some c else ble_channel_process buf c) }) }"

definition uplink_status :: "bool \<Rightarrow> u16 \<Rightarrow> u8 \<Rightarrow> ble_channel \<Rightarrow> ble_channel option" where
  "uplink_status pkg_alloc ty status c =
     (if status = 0 then Some (c\<lparr> bc_mgr := mgr_zero \<rparr>)
      else if status = 1 then response_to_app_by_subpack pkg_alloc ty c
      else if status = 2 then response_to_app_by_subpack pkg_alloc ty (c\<lparr> bc_mgr := (bc_mgr c)\<lparr> cm_subpack_no := 0, cm_subpack_sent := 0 \<rparr> \<rparr>)
      else Some c)"

definition ble_session_channel_process :: "(nat \<Rightarrow> bytes option) \<Rightarrow> bool \<Rightarrow> ble_packet \<Rightarrow> ble_channel \<Rightarrow> ble_channel option" where
  "ble_session_channel_process mem alloc req c =
     (if pk_type req \<in> {FRM_DOWNLINK_TRANSPARENT_REQ, FRM_DOWNLINK_TRANSPARENT_SPEC_REQ} then do {
        raw \<leftarrow> pk_data req;
        b1 \<leftarrow> rd raw 1;
        if b1 AND 0x02 \<noteq> 0 then downlink_subpacket mem alloc req raw c else ble_channel_process (drop 2 raw) c }
      else if pk_type req \<in> {FRM_UPLINK_TRANSPARENT_REQ, FRM_UPLINK_TRANSPARENT_SPEC_REQ} then do {
        raw \<leftarrow> pk_data req;
        status \<leftarrow> rd raw 2;
        uplink_status alloc (pk_type req) status c }
      else Some c)"

section \<open>A transfer between two ends\<close>

text \<open>
  The packet sent last, and the exchange of two ends: each sub-packet of the sender goes to the receiver, and the
  acknowledgement of the receiver goes back, until the sender has dropped its data.
\<close>

definition last_sent :: "ble_channel \<Rightarrow> bytes option" where
  "last_sent c = fold (\<lambda>e r. case e of Channel_send ty sn d \<Rightarrow> Some d | Channel_fn f d p \<Rightarrow> r) (bc_log c) None"

definition channel_packet :: "u16 \<Rightarrow> bytes \<Rightarrow> ble_packet" where
  "channel_packet ty d = \<lparr> pk_sn = 0, pk_type = ty, pk_len = of_nat (length d), pk_data = Some d, pk_encrypt_mode = 0 \<rparr>"

fun channel_exchange :: "nat \<Rightarrow> (nat \<Rightarrow> bytes option) \<Rightarrow> ble_channel \<Rightarrow> ble_channel \<Rightarrow> (ble_channel \<times> ble_channel) option" where
  "channel_exchange 0 mem s r = None"
| "channel_exchange (Suc n) mem s r =
     (case cm_rsp_data (bc_mgr s) of
        None \<Rightarrow> Some (s, r)
      | Some _ \<Rightarrow> do {
          d \<leftarrow> last_sent s;
          r \<leftarrow> ble_session_channel_process mem True (channel_packet FRM_DOWNLINK_TRANSPARENT_REQ d) r;
          a \<leftarrow> last_sent r;
          s \<leftarrow> ble_session_channel_process mem True (channel_packet FRM_UPLINK_TRANSPARENT_REQ a) s;
          channel_exchange n mem s r })"

section \<open>One sub-packet\<close>

definition chdr :: "u32 \<Rightarrow> u32 \<Rightarrow> bytes" where
  "chdr no len = [0x00, 0x03, ucast no] @ (if no = 0 then varint 4 len @ [0x40] else [])"

lemma length_chdr: "3 \<le> length (chdr no len)" "length (chdr no len) \<le> 8" "no \<noteq> 0 \<Longrightarrow> length (chdr no len) = 3"
  using length_varint [of 4 len] by (auto simp: chdr_def)

lemma subpack_header_eq:
  assumes "8 \<le> length buf"
  shows "subpack_header no len buf = Some (length (chdr no len), chdr no len @ drop (length (chdr no len)) buf)"
proof -
  have w: "mem_wr 0 [0x00, 0x03, ucast no] buf = Some ([0x00, 0x03, ucast no] @ drop 3 buf)"
    using assms by (simp add: mem_wr_def numeral_3_eq_3)
  show ?thesis
  proof (cases "no = 0")
    case True
    have "length (varint 4 len) \<le> 4" by (rule length_varint)
    then have p: "put_num 4 len 3 ([0x00, 0x03, ucast no] @ drop 3 buf) =
        Some (3 + length (varint 4 len), [0x00, 0x03, ucast no] @ varint 4 len @ drop (3 + length (varint 4 len)) buf)"
      using assms mem_wr_at [of "[0x00, 0x03, ucast no]" 3 "varint 4 len" "drop 3 buf"] by (subst put_num4) (simp add: add.commute)
    have "mem_wr (3 + length (varint 4 len)) [0x40] ([0x00, 0x03, ucast no] @ varint 4 len @ drop (3 + length (varint 4 len)) buf) =
        Some (chdr no len @ drop (length (chdr no len)) buf)"
      using assms \<open>length (varint 4 len) \<le> 4\<close> True
        mem_wr_at [of "[0x00, 0x03, ucast no] @ varint 4 len" "3 + length (varint 4 len)" "[0x40]" "drop (3 + length (varint 4 len)) buf"]
      by (simp add: chdr_def numeral_eq_Suc)
    then show ?thesis
      using w p True by (simp add: subpack_header_def) (simp add: chdr_def)
  next
    case False
    then show ?thesis
      using w by (simp add: subpack_header_def chdr_def numeral_3_eq_3)
  qed
qed

lemma small_u32: "n < 2 ^ 28 \<Longrightarrow> unat (of_nat n :: u32) = n"
  by (rule unat_of_nat_u32) simp

lemma small_less: "m < 2 ^ 28 \<Longrightarrow> n < 2 ^ 28 \<Longrightarrow> (of_nat m :: u32) < of_nat n \<longleftrightarrow> m < n"
  unfolding word_less_nat_alt by (simp add: small_u32)

text \<open>A sub-packet carries as much of the rest as fits behind its header.\<close>

definition piece :: "u32 \<Rightarrow> nat \<Rightarrow> nat \<Rightarrow> nat" where
  "piece no len k = min (len - k) (TUYA_BLE_TRANS_DATA_SUBPACK_LEN - length (chdr no (of_nat len)))"

lemma unat_subpack_data_len: "unat (subpack_data_len off left) = min (unat left) (TUYA_BLE_TRANS_DATA_SUBPACK_LEN - off)"
proof -
  define rm where "rm = 960 - off"
  have r: "unat (of_nat rm :: u16) = rm" "unat (ucast (of_nat rm :: u16) :: u32) = rm" "rm < 65536"
    using unat_of_nat_u16 [of rm] by (simp_all add: unat_ucast_16_32 rm_def)
  then show ?thesis
    using unat_ucast_32_16 [of left] by (auto simp: subpack_data_len_def word_less_nat_alt min_def simp flip: rm_def)
qed

lemma send_ok:
  assumes g: "cm_rsp_data (bc_mgr c) = Some dat" "cm_subpack_len (bc_mgr c) = of_nat len" "cm_subpack_sent (bc_mgr c) = of_nat k"
    and len: "len + 2 \<le> length dat" "len < 2 ^ 28" "k < len" and no: "cm_subpack_no (bc_mgr c) = no"
  shows "response_to_app_by_subpack True ty c = Some (c\<lparr> bc_mgr := (bc_mgr c)\<lparr> cm_subpack_sent := of_nat (k + piece no len k), cm_subpack_no := no + 1 \<rparr>,
    bc_log := bc_log c @ [Channel_send ty 0 (chdr no (of_nat len) @ take (piece no len k) (drop k (drop 2 dat)))] \<rparr>)"
proof -
  let ?h = "chdr no (of_nat len)"
  define dl where "dl = subpack_data_len (length ?h) (of_nat len - of_nat k)"
  have h: "3 \<le> length ?h" "length ?h \<le> 8"
    using length_chdr by blast+
  have "unat (of_nat len - of_nat k :: u32) = len - k"
    using len by (subst unat_sub) (simp_all add: word_le_nat_alt small_u32)
  then have dl: "unat dl = piece no len k"
    unfolding dl_def piece_def by (subst unat_subpack_data_len) simp_all
  have u: "of_nat k + ucast dl = (of_nat (k + piece no len k) :: u32)"
    unfolding dl [symmetric] by (simp add: unat_ucast_16_32 [symmetric])
  have p: "piece no len k \<le> len - k" "piece no len k \<le> 960 - length ?h" "piece no len k + length ?h \<le> 960"
    using h by (simp_all add: piece_def)
  have lt: "(of_nat k :: u32) < of_nat len"
    using len by (subst small_less) simp_all
  have hd: "subpack_header no (of_nat len) (replicate 960 0) = Some (length ?h, ?h @ drop (length ?h) (replicate 960 0))"
    by (rule subpack_header_eq) simp
  have d: "mem_rd (2 + k) (piece no len k) dat = Some (take (piece no len k) (drop k (drop 2 dat)))"
    using len p by (simp add: mem_rd_def add.commute)
  have w: "mem_wr (length ?h) (take (piece no len k) (drop k (drop 2 dat))) (?h @ drop (length ?h) (replicate 960 0)) =
      Some (?h @ take (piece no len k) (drop k (drop 2 dat)) @ drop (length ?h + piece no len k) (replicate 960 0))"
    using len p h by (simp add: mem_wr_def min_absorb2)
  have "length (take (piece no len k) (drop k (drop 2 dat))) = piece no len k"
    using len p by simp
  then have m: "mem_rd 0 (length ?h + piece no len k) (?h @ take (piece no len k) (drop k (drop 2 dat)) @ drop (length ?h + piece no len k) (replicate 960 0)) =
      Some (?h @ take (piece no len k) (drop k (drop 2 dat)))"
    using p by (simp add: mem_rd_def)
  have k: "unat (of_nat k :: u32) = k"
    using len by (simp add: small_u32)
  show ?thesis
    unfolding response_to_app_by_subpack_def Let_def g no
    using lt hd d w m dl k u by (simp flip: dl_def)
qed

text \<open>The receiver has the first \<open>k\<close> bytes of \<open>D\<close>.\<close>

definition received :: "bytes \<Rightarrow> nat \<Rightarrow> ble_channel \<Rightarrow> bool" where
  "received D k r \<longleftrightarrow> bc_totalLen r = of_nat (length D) \<and> bc_receivedLen r = of_nat k \<and>
     (\<exists>b. bc_pBuffer r = Some (take k D @ b) \<and> length b = length D - k)"

lemma unat_rest: "m \<le> n \<Longrightarrow> n < 65536 \<Longrightarrow> unat (ucast (of_nat n :: u16) - of_nat m :: u32) = n - m"
  by (subst unat_sub) (simp_all add: word_le_nat_alt unat_ucast_16_32 unat_of_nat_u16 unat_of_nat_u32)

lemma rest_eq: "m \<le> n \<Longrightarrow> n < 65536 \<Longrightarrow> (ucast (of_nat n :: u16) - of_nat m :: u32) = of_nat (n - m)"
proof -
  assume "m \<le> n" "n < 65536"
  then have "of_nat (unat (ucast (of_nat n :: u16) - of_nat m :: u32)) = (of_nat (n - m) :: u32)"
    by (simp only: unat_rest)
  then show ?thesis by simp
qed

lemma extract_first:
  assumes "len < 2 ^ 28"
  shows "extract_packet_len (chdr 0 (of_nat len) @ p) 3 = Some (length (varint 4 (of_nat len)), of_nat len)"
proof -
  have "(of_nat len :: u32) < 0x10000000"
    using assms by (simp add: word_less_nat_alt small_u32)
  from get_num4 [OF this, of "[0, 3, 0]" "0x40 # p" 0] show ?thesis
    by (simp add: extract_packet_len_def chdr_def numeral_3_eq_3)
qed

lemma store_first:
  assumes len: "length D < 2 ^ 28" and mem: "mem (length D) = Some b" "length b = length D"
    and d: "d \<le> length D" "d < 60000"
  shows "\<exists>r'. channel_store mem (chdr 0 (of_nat (length D)) @ take d D) (of_nat (length (chdr 0 (of_nat (length D)) @ take d D))) r =
    Some (Inr (0, of_nat d, take d D @ drop d b, r')) \<and> received D d r' \<and> bc_channel r' = bc_channel r \<and> bc_log r' = bc_log r"
proof -
  let ?h = "chdr 0 (of_nat (length D))"
  let ?r = "r\<lparr> bc_totalLen := of_nat (length D), bc_receivedLen := of_nat d, bc_pBuffer := Some (take d D @ drop d b) \<rparr>"
  have h: "3 + length (varint 4 (of_nat (length D))) + 1 = length ?h" "length ?h \<le> 8"
    using length_chdr(2) by (simp add: chdr_def, blast)
  have cur: "ucast (of_nat (length (?h @ take d D)) :: u16) - of_nat (length ?h) = (of_nat d :: u32)"
    using h d by (subst rest_eq) simp_all
  have m: "mem_rd (length ?h) d (?h @ take d D) = Some (take d D)" "mem_wr 0 (take d D) b = Some (take d D @ drop d b)"
    using d mem(2) by (simp_all add: mem_rd_def mem_wr_def)
  have "rd (?h @ take d D) 2 = Some 0"
    by (simp add: chdr_def rd_def)
  moreover have "unat (of_nat (length D) :: u32) = length D" "unat (of_nat d :: u32) = d"
    using len d by (simp_all add: small_u32)
  ultimately have "channel_store mem (?h @ take d D) (of_nat (length (?h @ take d D))) r = Some (Inr (0, of_nat d, take d D @ drop d b, ?r))"
    unfolding channel_store_def Let_def using extract_first [OF len] mem(1) h(1) cur m by simp
  moreover have "received D d ?r"
    using mem(2) d by (simp add: received_def)
  ultimately show ?thesis
    by (intro exI [of _ ?r]) simp
qed

lemma extract_next:
  assumes "0 < j" "j < 128"
  shows "extract_packet_len (chdr (of_nat j) len @ p) 2 = Some (1, of_nat j)" "rd (chdr (of_nat j) len @ p) 2 \<noteq> Some 0"
    "length (chdr (of_nat j) len) = 3"
proof -
  let ?n = "of_nat j :: u32"
  have u: "unat ?n = j"
    using assms by (simp add: unat_of_nat_u32)
  have n: "?n < 0x10000000" "?n \<noteq> 0" "?n div 0x80 = 0" "?n mod 0x80 = ?n"
    using assms u by (auto simp: word_less_nat_alt word_arith_nat_div unat_eq_zero word_mod_less_divisor mod_word_less)
  have "unat (ucast ?n :: u8) = j"
    using assms u by (simp add: unsigned_ucast_eq take_bit_nat_eq_self_iff)
  then have z: "(ucast ?n :: u8) \<noteq> 0"
    using assms by auto
  have v: "varint 4 ?n = [ucast ?n]"
    using n by (simp add: numeral_eq_Suc)
  then have c: "chdr ?n len = [0, 3] @ varint 4 ?n"
    using n by (simp add: chdr_def)
  from get_num4 [OF n(1), of "[0, 3]" p 0] v c
  show "extract_packet_len (chdr ?n len @ p) 2 = Some (1, ?n)"
    by (simp add: extract_packet_len_def numeral_2_eq_2)
  show "rd (chdr ?n len @ p) 2 \<noteq> Some 0" "length (chdr ?n len) = 3"
    using v c z by (simp_all add: rd_def)
qed

lemma store_next:
  assumes len: "length D < 2 ^ 28" and r: "received D k r" and j: "0 < j" "j < 128"
    and d: "k + d \<le> length D" "d < 60000"
  shows "\<exists>r' b. channel_store mem (chdr (of_nat j) len @ take d (drop k D)) (of_nat (length (chdr (of_nat j) len @ take d (drop k D)))) r =
    Some (Inr (of_nat j, of_nat d, take (k + d) D @ b, r')) \<and> received D (k + d) r' \<and> bc_pBuffer r' = Some (take (k + d) D @ b) \<and>
      bc_channel r' = bc_channel r \<and> bc_log r' = bc_log r"
proof -
  let ?h = "chdr (of_nat j) len" and ?p = "take d (drop k D)"
  obtain b where b: "bc_pBuffer r = Some (take k D @ b)" "length b = length D - k" "bc_totalLen r = of_nat (length D)" "bc_receivedLen r = of_nat k"
    using r unfolding received_def by blast
  note x = extract_next(1,2) [OF j, of len ?p] extract_next(3) [OF j, of len]
  let ?r = "r\<lparr> bc_pBuffer := Some (take (k + d) D @ drop d b), bc_receivedLen := of_nat k + of_nat d \<rparr>"
  have lp: "length ?p = d"
    using d by simp
  have cur: "ucast (of_nat (length (?h @ ?p)) :: u16) - of_nat 3 = (of_nat d :: u32)"
    using x(3) d lp by (subst rest_eq) simp_all
  have u: "unat (of_nat k :: u32) = k" "unat (of_nat d :: u32) = d"
    using len d by (simp_all add: small_u32)
  have m: "mem_rd 3 d (?h @ ?p) = Some ?p"
    using x(3) lp by (simp add: mem_rd_def)
  have w: "mem_wr k ?p (take k D @ b) = Some (take (k + d) D @ drop d b)"
    using d b(2) lp by (subst mem_wr_at) (simp_all add: take_add)
  obtain b2 where b2: "rd (?h @ ?p) 2 = Some b2" "b2 \<noteq> 0"
    using x(2,3) by (auto simp: rd_def)
  have "channel_store mem (?h @ ?p) (of_nat (length (?h @ ?p))) r = Some (Inr (of_nat j, of_nat d, take (k + d) D @ drop d b, ?r))"
    unfolding channel_store_def Let_def b2 using b2(2) b x(1) cur u m [unfolded numeral_3_eq_3] w by simp
  moreover have "received D (k + d) ?r"
    using b d by (simp add: received_def)
  ultimately show ?thesis
    by (intro exI [of _ ?r] exI [of _ "drop d b"]) simp
qed

section \<open>A transfer\<close>

lemma store_ok:
  assumes len: "length D < 2 ^ 28" and d: "k + d \<le> length D" "d < 60000" and mem: "mem (length D) = Some m0" "length m0 = length D"
    and j: "j < 128" "j = 0 \<Longrightarrow> k = 0" "0 < j \<Longrightarrow> received D k r"
  obtains no r' b where "channel_store mem (chdr (of_nat j) (of_nat (length D)) @ take d (drop k D))
      (of_nat (length (chdr (of_nat j) (of_nat (length D)) @ take d (drop k D)))) r = Some (Inr (no, of_nat d, take (k + d) D @ b, r'))"
    "received D (k + d) r'" "bc_channel r' = bc_channel r" "bc_log r' = bc_log r" "length b = length D - (k + d)"
proof (cases "j = 0")
  case True
  then show ?thesis
    using store_first [where mem = mem, OF len mem, of d r] d j(2) mem(2) that [of _ "drop d m0"] by auto
next
  case False
  then obtain r' b where r': "channel_store mem (chdr (of_nat j) (of_nat (length D)) @ take d (drop k D))
      (of_nat (length (chdr (of_nat j) (of_nat (length D)) @ take d (drop k D)))) r = Some (Inr (of_nat j, of_nat d, take (k + d) D @ b, r'))"
    "received D (k + d) r'" "bc_pBuffer r' = Some (take (k + d) D @ b)" "bc_channel r' = bc_channel r" "bc_log r' = bc_log r"
    using store_next [OF len _ _ j(1) d] j(3) by blast
  then have "length b = length D - (k + d)"
    unfolding received_def by auto
  with r' show ?thesis
    by (intro that)
qed

definition registered :: "bytes \<Rightarrow> ble_channel \<Rightarrow> nat \<Rightarrow> nat \<Rightarrow> bool" where
  "registered D r fn priv \<longleftrightarrow> length (bc_channel r) = BLE_CHANNEL_MAX \<and> 2 \<le> length D \<and> unat (be16_of (take 2 D)) < BLE_CHANNEL_MAX \<and>
     bc_channel r ! unat (be16_of (take 2 D)) = (fn, priv) \<and> fn \<noteq> 0"

lemma process_registered:
  assumes "registered D r fn priv"
  shows "ble_channel_process D r = Some (r\<lparr> bc_log := bc_log r @ [Channel_fn fn (drop 2 D) priv] \<rparr>)"
proof -
  obtain a b rest where D: "D = a # b # rest"
    using assms unfolding registered_def by (cases D rule: remdups_adj.cases) auto
  then show ?thesis
    using assms by (auto simp: registered_def ble_channel_process_def rd_def Let_def)
qed

lemma last_sent_snoc [simp]:
  "bc_log c = xs @ [Channel_send ty sn d] \<Longrightarrow> last_sent c = Some d"
  "bc_log c = xs @ [Channel_send ty sn d, Channel_fn f e p] \<Longrightarrow> last_sent c = Some d"
  by (simp_all add: last_sent_def)

lemma ack_status: "rd (channel_ack f0 f1 st no cur rc tot) 2 = Some st"
  by (simp add: channel_ack_def be16_def rd_def)

lemma recv_ok:
  assumes len: "length D < 2 ^ 28" and d: "k + d \<le> length D" "d < 60000" and mem: "mem (length D) = Some m0" "length m0 = length D"
    and j: "j < 128" "j = 0 \<Longrightarrow> k = 0" "0 < j \<Longrightarrow> received D k r" and reg: "registered D r fn priv"
  obtains r' a where "ble_session_channel_process mem True
      (channel_packet FRM_DOWNLINK_TRANSPARENT_REQ (chdr (of_nat j) (of_nat (length D)) @ take d (drop k D))) r = Some r'"
    "received D (k + d) r'" "registered D r' fn priv" "last_sent r' = Some a" "rd a 2 = Some (if k + d < length D then 1 else 0)"
    "k + d = length D \<Longrightarrow> last (bc_log r') = Channel_fn fn (drop 2 D) priv"
proof -
  let ?p = "chdr (of_nat j) (of_nat (length D)) @ take d (drop k D)"
  let ?q = "channel_packet FRM_DOWNLINK_TRANSPARENT_REQ ?p"
  obtain no r1 b where s: "channel_store mem ?p (of_nat (length ?p)) r = Some (Inr (no, of_nat d, take (k + d) D @ b, r1))"
    "received D (k + d) r1" "bc_channel r1 = bc_channel r" "bc_log r1 = bc_log r" "length b = length D - (k + d)"
    by (rule store_ok [where mem = mem, OF len d mem j])
  have more: "bc_receivedLen r1 < bc_totalLen r1 \<longleftrightarrow> k + d < length D"
    using s(2) len d small_less [of "k + d" "length D"] by (simp add: received_def)
  define st :: u8 where "st = (if k + d < length D then 1 else 0)"
  obtain a where a: "rd a 2 = Some st" "downlink_subpacket mem True ?q ?p r =
      (let c = r1\<lparr> bc_log := bc_log r1 @ [Channel_send FRM_DOWNLINK_TRANSPARENT_REQ 0 a] \<rparr>
       in if k + d < length D then Some c else ble_channel_process (take (k + d) D @ b) c)"
  proof (rule that)
    let ?a = "channel_ack 0 3 st no (of_nat d) (bc_receivedLen r1) (bc_totalLen r1)"
    show "rd ?a 2 = Some st" by (rule ack_status)
    have "rd ?p 0 = Some 0" "rd ?p 1 = Some 3"
      by (simp_all add: chdr_def rd_def)
    then show "downlink_subpacket mem True ?q ?p r =
      (let c = r1\<lparr> bc_log := bc_log r1 @ [Channel_send FRM_DOWNLINK_TRANSPARENT_REQ 0 ?a] \<rparr>
       in if k + d < length D then Some c else ble_channel_process (take (k + d) D @ b) c)"
      unfolding downlink_subpacket_def using s(1) more by (simp add: channel_packet_def Let_def st_def)
  qed
  have p: "ble_session_channel_process mem True ?q r = downlink_subpacket mem True ?q ?p r"
    by (simp add: ble_session_channel_process_def channel_packet_def chdr_def rd_def)
  let ?c = "r1\<lparr> bc_log := bc_log r1 @ [Channel_send FRM_DOWNLINK_TRANSPARENT_REQ 0 a] \<rparr>"
  have reg': "registered D ?c fn priv"
    using reg s(3) by (simp add: registered_def)
  show ?thesis
  proof (cases "k + d < length D")
    case True
    have "received D (k + d) ?c"
      using s(2) by (simp add: received_def)
    then show ?thesis
      using p a True reg' by (intro that [of ?c a]) (simp_all add: st_def)
  next
    case False
    let ?r = "?c\<lparr> bc_log := bc_log ?c @ [Channel_fn fn (drop 2 D) priv] \<rparr>"
    have "b = []"
      using False d(1) s(5) by simp
    have "received D (k + d) ?r" "registered D ?r fn priv"
      using s(2) reg' by (simp_all add: received_def registered_def)
    then show ?thesis
      using p a False process_registered [OF reg'] \<open>b = []\<close> by (intro that [of ?r a]) (simp_all add: st_def)
  qed
qed

text \<open>The sender has sent the sub-packet with number \<open>j\<close>, which starts at the byte \<open>k\<close>.\<close>

definition sent_piece :: "bytes \<Rightarrow> nat \<Rightarrow> nat \<Rightarrow> ble_channel \<Rightarrow> bool" where
  "sent_piece dat j k s \<longleftrightarrow> (let len = length dat - 2; d = piece (of_nat j) len k in
     cm_rsp_data (bc_mgr s) = Some dat \<and> cm_subpack_len (bc_mgr s) = of_nat len \<and>
     cm_subpack_sent (bc_mgr s) = of_nat (k + d) \<and> cm_subpack_no (bc_mgr s) = of_nat (Suc j) \<and>
     last_sent s = Some (chdr (of_nat j) (of_nat len) @ take d (drop k (drop 2 dat))))"

lemma send_next:
  assumes dat: "2 \<le> length dat" "length dat < 2 ^ 28" and k: "k + piece (of_nat j) (length dat - 2) k < length dat - 2"
    and s: "sent_piece dat j k s"
  obtains s' where "response_to_app_by_subpack True ty s = Some s'" "sent_piece dat (Suc j) (k + piece (of_nat j) (length dat - 2) k) s'"
proof -
  let ?len = "length dat - 2" and ?k = "k + piece (of_nat j) (length dat - 2) k"
  have g: "cm_rsp_data (bc_mgr s) = Some dat" "cm_subpack_len (bc_mgr s) = of_nat ?len" "cm_subpack_sent (bc_mgr s) = of_nat ?k"
    "cm_subpack_no (bc_mgr s) = of_nat (Suc j)"
    using s unfolding sent_piece_def Let_def by blast+
  have len: "?len + 2 \<le> length dat" "?len < 2 ^ 28"
    using dat by simp_all
  show ?thesis
    by (rule that [OF send_ok [OF g(1-3) len k g(4)]]) (simp add: sent_piece_def Let_def g add.commute)
qed

lemma piece_bounds:
  assumes "k < len"
  shows "k + piece no len k \<le> len" "piece no len k < 60000"
    "k + piece no len k < len \<Longrightarrow> (if no = 0 then 952 else 957) \<le> piece no len k"
  using assms length_chdr [of no "of_nat len"] by (auto simp: piece_def)

lemma uplink_process: "rd a 2 = Some st \<Longrightarrow>
  ble_session_channel_process mem True (channel_packet FRM_UPLINK_TRANSPARENT_REQ a) s = uplink_status True FRM_UPLINK_TRANSPARENT_REQ st s"
  by (simp add: ble_session_channel_process_def channel_packet_def)

lemma exchange_ok:
  assumes dat: "2 \<le> length dat" "length dat \<le> 122493" and mem: "mem (length dat - 2) = Some m0" "length m0 = length dat - 2"
  shows "sent_piece dat j k s \<Longrightarrow> k < length dat - 2 \<Longrightarrow> (j = 0 \<longrightarrow> k = 0) \<Longrightarrow> (0 < j \<longrightarrow> received (drop 2 dat) k r) \<Longrightarrow>
    (0 < j \<longrightarrow> 952 + 957 * (j - 1) \<le> k) \<Longrightarrow> 129 \<le> n + j \<Longrightarrow> registered (drop 2 dat) r fn priv \<Longrightarrow>
    \<exists>s' r'. channel_exchange n mem s r = Some (s', r') \<and> cm_rsp_data (bc_mgr s') = None \<and> last (bc_log r') = Channel_fn fn (drop 4 dat) priv"
proof (induction n arbitrary: j k s r)
  case 0
  then show ?case
    using dat by auto
next
  case (Suc n)
  let ?D = "drop 2 dat" and ?len = "length dat - 2"
  let ?d = "piece (of_nat j) ?len k"
  have j: "j < 128"
    using Suc.prems(2,5) dat by (cases "j = 0") auto
  note pc = piece_bounds [OF Suc.prems(2), of "of_nat j"]
  have len: "length ?D < 2 ^ 28" "k + ?d \<le> length ?D" "mem (length ?D) = Some m0" "length m0 = length ?D"
    using dat pc(1) mem by simp_all
  obtain r' a where r': "ble_session_channel_process mem True
      (channel_packet FRM_DOWNLINK_TRANSPARENT_REQ (chdr (of_nat j) (of_nat (length ?D)) @ take ?d (drop k ?D))) r = Some r'"
    "received ?D (k + ?d) r'" "registered ?D r' fn priv" "last_sent r' = Some a" "rd a 2 = Some (if k + ?d < length ?D then 1 else 0)"
    "k + ?d = length ?D \<longrightarrow> last (bc_log r') = Channel_fn fn (drop 2 ?D) priv"
    using recv_ok [where mem = mem, OF len(1,2) pc(2) len(3,4) j _ _ Suc.prems(7)] Suc.prems(3,4) by blast
  have s: "cm_rsp_data (bc_mgr s) = Some dat" "last_sent s = Some (chdr (of_nat j) (of_nat (length ?D)) @ take ?d (drop k ?D))"
    using Suc.prems(1) unfolding sent_piece_def Let_def by simp_all
  have step: "channel_exchange (Suc n) mem s r = do {
      s \<leftarrow> uplink_status True FRM_UPLINK_TRANSPARENT_REQ (if k + ?d < length ?D then 1 else 0) s; channel_exchange n mem s r' }"
    using s r'(1,4) uplink_process [OF r'(5)] by simp
  show ?case
  proof (cases "k + ?d < ?len")
    case True
    obtain s' where s': "response_to_app_by_subpack True FRM_UPLINK_TRANSPARENT_REQ s = Some s'" "sent_piece dat (Suc j) (k + ?d) s'"
      using send_next [OF dat(1) _ True Suc.prems(1)] dat(2) by auto
    have "952 + 957 * (Suc j - 1) \<le> k + ?d"
      using pc(3) [OF True] Suc.prems(3,5) j by (cases "j = 0") (auto simp: unat_of_nat_u32 unat_eq_zero [symmetric] simp del: unat_eq_zero)
    then show ?thesis
      using Suc.IH [OF s'(2) True] r'(2,3) Suc.prems(6) step s'(1) True by (simp add: uplink_status_def)
  next
    case False
    then have "k + ?d = length ?D"
      using pc(1) by simp
    moreover obtain n' where "n = Suc n'"
      using Suc.prems(6) j by (cases n) auto
    ultimately show ?thesis
      using step r'(6) by (simp add: uplink_status_def mgr_zero_def)
  qed
qed

section \<open>Properties\<close>

definition channel_zero :: "ble_channel" where
  "channel_zero = \<lparr> bc_mgr = mgr_zero, bc_channel = [(0, 0), (0, 0)], bc_totalLen = 0, bc_pBuffer = None, bc_receivedLen = 0, bc_log = [] \<rparr>"

text \<open>
  C8: A transfer over a channel arrives.  Data of up to 122493 bytes that one end hands to \<open>ble_channle_ack\<close> is cut into
  sub-packets; when each of them is given to another end, whose allocation succeeds and which has a function for the
  channel of the data, and each acknowledgement is given back, the exchange ends within 130 rounds: the function is
  called with exactly the data behind the channel number, and the sender has dropped its copy.
\<close>

theorem channel_roundtrip:
  assumes dat: "4 \<le> length dat" "length dat \<le> 122493" and mem: "mem (length dat - 2) = Some m0" "length m0 = length dat - 2"
    and reg: "registered (drop 2 dat) r fn priv"
  shows "\<exists>s0 s' r'. ble_channle_ack True FRM_UPLINK_TRANSPARENT_REQ dat (of_nat (length dat)) s = Some s0 \<and>
    channel_exchange 130 mem s0 r = Some (s', r') \<and> cm_rsp_data (bc_mgr s') = None \<and> last (bc_log r') = Channel_fn fn (drop 4 dat) priv"
proof -
  let ?g = "mgr_zero\<lparr> cm_rsp_data := Some dat, cm_subpack_len := of_nat (length dat) - 2 \<rparr>"
  let ?c = "s\<lparr> bc_mgr := ?g \<rparr>"
  have l: "(of_nat (length dat) - 2 :: u32) = of_nat (length dat - 2)"
    using dat(1) by (simp add: of_nat_diff)
  have g: "cm_rsp_data (bc_mgr ?c) = Some dat" "cm_subpack_len (bc_mgr ?c) = of_nat (length dat - 2)" "cm_subpack_sent (bc_mgr ?c) = of_nat 0"
    "cm_subpack_no (bc_mgr ?c) = 0"
    using l by (simp_all add: mgr_zero_def)
  have len: "length dat - 2 + 2 \<le> length dat" "length dat - 2 < 2 ^ 28" "0 < length dat - 2"
    using dat by simp_all
  from send_ok [OF g(1-3) len g(4), of FRM_UPLINK_TRANSPARENT_REQ]
  obtain s0 where s0: "response_to_app_by_subpack True FRM_UPLINK_TRANSPARENT_REQ ?c = Some s0" "sent_piece dat 0 0 s0"
    by (auto simp: sent_piece_def Let_def l)
  have "ble_channle_ack True FRM_UPLINK_TRANSPARENT_REQ dat (of_nat (length dat)) s = Some s0"
    using s0(1) dat(1) by (simp add: ble_channle_ack_def rd_def)
  moreover have "\<exists>s' r'. channel_exchange 130 mem s0 r = Some (s', r') \<and> cm_rsp_data (bc_mgr s') = None \<and> last (bc_log r') = Channel_fn fn (drop 4 dat) priv"
    using exchange_ok [where mem = mem and n = 130, OF _ dat(2) mem s0(2) len(3)] dat(1) reg by simp
  ultimately show ?thesis
    by blast
qed

theorem channel_roundtrip_witness:
  "\<exists>s0 s' r'. ble_channle_ack True FRM_UPLINK_TRANSPARENT_REQ [9, 9, 0, 1, 7, 8] 6 channel_zero = Some s0 \<and>
     channel_exchange 130 (\<lambda>n. Some (replicate n 0)) s0 (snd (ble_channel_add 1 5 6 channel_zero)) = Some (s', r') \<and>
     last (bc_log r') = Channel_fn 5 [7, 8] 6"
  using channel_roundtrip [of "[9, 9, 0, 1, 7, 8]" "\<lambda>n. Some (replicate n 0)" "[0, 0, 0, 0]" "snd (ble_channel_add 1 5 6 channel_zero)" 5 6 channel_zero]
  by (auto simp: registered_def ble_channel_add_def channel_zero_def)

text \<open>
  C40: The receiver does not check how much it has room for: a further sub-packet with more data than the announced length
  leaves room for is written behind the end of the buffer.
\<close>

theorem channel_subpacket_overflow:
  assumes buf: "bc_pBuffer r = Some buf" "length buf < unat (bc_receivedLen r) + length p" and no: "0 < j" "j < 128" and p: "length p < 60000"
  shows "ble_session_channel_process mem alloc (channel_packet FRM_DOWNLINK_TRANSPARENT_REQ ([0x00, 0x03, of_nat j] @ p)) r = None"
proof -
  let ?raw = "chdr (of_nat j) 0 @ p"
  have u: "unat (of_nat j :: u32) = j"
    using no by (simp add: unat_of_nat_u32)
  then have "(of_nat j :: u32) \<noteq> 0" "of_nat (unat (of_nat j :: u32)) = (of_nat j :: u8)"
    using no by auto
  then have raw: "[0x00, 0x03, of_nat j] @ p = ?raw"
    by (simp add: chdr_def)
  note x = extract_next(1,2) [OF no, of 0 p] extract_next(3) [OF no, of 0]
  have cur: "ucast (of_nat (length ?raw) :: u16) - of_nat 3 = (of_nat (length p) :: u32)"
    using x(3) p by (subst rest_eq) simp_all
  have m: "mem_rd 3 (length p) ?raw = Some p" "mem_wr (unat (bc_receivedLen r)) p buf = None"
    using x(3) buf(2) by (simp_all add: mem_rd_def mem_wr_def)
  obtain b2 where b2: "rd ?raw 2 = Some b2" "b2 \<noteq> 0"
    using x(2,3) by (auto simp: rd_def)
  have "channel_store mem ?raw (of_nat (length ?raw)) r = None"
    unfolding channel_store_def Let_def b2 using b2(2) buf(1) x(1) cur m [unfolded numeral_3_eq_3] p by (simp add: unat_of_nat_u32)
  moreover have "rd ?raw 1 = Some 3"
    by (simp add: chdr_def rd_def)
  ultimately show ?thesis
    unfolding raw by (simp add: ble_session_channel_process_def channel_packet_def downlink_subpacket_def)
qed

theorem channel_subpacket_overflow_witness:
  "ble_session_channel_process (\<lambda>n. Some (replicate n 0)) True (channel_packet FRM_DOWNLINK_TRANSPARENT_REQ [0, 3, 1, 5, 6, 7])
     (the (ble_session_channel_process (\<lambda>n. Some (replicate n 0)) True (channel_packet FRM_DOWNLINK_TRANSPARENT_REQ [0, 3, 0, 4, 0x40, 1, 2]) channel_zero)) = None"
proof -
  let ?r = "the (ble_session_channel_process (\<lambda>n. Some (replicate n 0)) True (channel_packet FRM_DOWNLINK_TRANSPARENT_REQ [0, 3, 0, 4, 0x40, 1, 2]) channel_zero)"
  have "bc_pBuffer ?r = Some [1, 2, 0, 0]" "bc_receivedLen ?r = 2"
    by code_simp+
  then show ?thesis
    using channel_subpacket_overflow [of ?r "[1, 2, 0, 0]" "[5, 6, 7]" 1] by simp
qed

end
