(* ===== verification/BleLink.thy ===== *)
theory BleLink
  imports BleMgr
begin

unbundle bit_operations_syntax

text \<open>
  The BLE link as a whole: a packet encoded by one manager, cut into sub-packets by the transmitter
  and handed sub-packet by sub-packet to another manager that holds the same keys arrives
  unchanged.  The definitions of this theory drive the operations of \<open>BleTrsmitr\<close>, \<open>BleCryption\<close> and \<open>BleMgr\<close>.
\<close>

section \<open>Collecting sub-packets\<close>

text \<open>The receive structure holds the bytes \<open>acc\<close> of the frame being collected.\<close>

definition collected :: "ble_packet_recv_t \<Rightarrow> bytes \<Rightarrow> bool" where
  "collected r acc \<longleftrightarrow> length (rx_raw_buf r) = 1024 \<and> rx_raw_len r = of_nat (length acc) \<and> length acc \<le> 1024 \<and>
     take (length acc) (rx_raw_buf r) = acc"

lemma collected_clear: "length (rx_raw_buf r) = 1024 \<Longrightarrow> collected (clear_raw r) []"
  by (simp add: collected_def clear_raw_def)

lemma collect_step:
  assumes dec: "ble_frame_trsmitr_recv_pkg_decode (Some (rx_trsmitr r)) (Some q) (of_nat (length q)) = Some (rc, Some t)"
    and rc: "rc = OPRT_OK \<or> rc = OPRT_SVC_BT_API_TRSMITR_CONTINUE"
    and sub: "unat (trs_subpkg_len t) \<le> length (trs_subpkg t)"
    and raw: "length (rx_raw_buf r) = 1024" and old: "\<not> starts_frame t \<Longrightarrow> collected r acc"
    and fits: "length ((if starts_frame t then [] else acc) @ subpkg_data t) \<le> 1024"
  shows "\<exists>r'. ble_packet_trsmitr r q (ucast (of_nat (length q) :: u16)) = Some (rc, r') \<and> rx_trsmitr r' = t \<and>
    rx_dec_buf r' = rx_dec_buf r \<and> collected r' ((if starts_frame t then [] else acc) @ subpkg_data t)"
proof -
  define r0 where "r0 = (if starts_frame t then clear_raw (r\<lparr> rx_trsmitr := t \<rparr>) else r\<lparr> rx_trsmitr := t \<rparr>)"
  define a where "a = (if starts_frame t then [] else acc)"
  have r0: "collected r0 a" "rx_trsmitr r0 = t" "rx_dec_buf r0 = rx_dec_buf r"
    using raw old by (auto simp: r0_def a_def collected_def clear_raw_def)
  have cast: "ucast (ucast (of_nat (length q) :: u16) :: u32) = (of_nat (length q) :: u16)"
    by (rule bit_word_eqI) (simp add: bit_simps)
  have sl: "unat (ble_frame_subpacket_len_get t) = length (subpkg_data t)"
    using sub by (simp add: subpkg_data_def ble_frame_subpacket_len_get_def ble_frame_subpacket_get_def)
  have fits': "length a + length (subpkg_data t) \<le> 1024"
    using fits by (simp add: a_def)
  have len: "rx_raw_len r0 + ble_frame_subpacket_len_get t = of_nat (length (a @ subpkg_data t))"
    using r0(1) sl by (simp add: collected_def flip: sl)
  have le: "rx_raw_len r0 + ble_frame_subpacket_len_get t \<le> 1024"
    unfolding len using fits' by (simp add: word_le_nat_alt unat_of_nat del: of_nat_add)
  have rl: "unat (rx_raw_len r0) = length a"
    using r0(1) by (simp add: collected_def unat_of_nat)
  have md: "mem_rd 0 (length (subpkg_data t)) (ble_frame_subpacket_get t) = Some (subpkg_data t)"
    using sub by (simp add: mem_rd_def subpkg_data_def ble_frame_subpacket_len_get_def ble_frame_subpacket_get_def)
  have mw: "mem_wr (length a) (subpkg_data t) (rx_raw_buf r0) =
      Some (a @ subpkg_data t @ drop (length a + length (subpkg_data t)) (rx_raw_buf r0))"
    using r0(1) fits' by (simp add: mem_wr_def collected_def)
  let ?r' = "r0\<lparr> rx_raw_buf := a @ subpkg_data t @ drop (length a + length (subpkg_data t)) (rx_raw_buf r0),
    rx_raw_len := rx_raw_len r0 + ble_frame_subpacket_len_get t \<rparr>"
  have "ble_packet_trsmitr r q (ucast (of_nat (length q) :: u16)) = Some (rc, ?r')"
    using dec rc le sl rl md mw
    by (auto simp: ble_packet_trsmitr_def cast Let_def starts_frame_def r0_def)
  moreover have "collected ?r' (a @ subpkg_data t)"
    using r0(1) fits' len by (simp add: collected_def)
  ultimately show ?thesis
    using r0 by (auto simp: a_def)
qed

text \<open>Handing sub-packets to the receiver one by one: the return codes and the last packet.\<close>

fun link_recv :: "ble_env \<Rightarrow> ble_mgr \<Rightarrow> bytes list \<Rightarrow> (operate_ret list \<times> ble_packet option \<times> ble_mgr) option" where
  "link_recv env m [] = Some ([], None, m)"
| "link_recv env m (q # qs) = do {
     (rt, p, m) \<leftarrow> ble_packet_recv env m q (of_nat (length q));
     (rts, p', m) \<leftarrow> link_recv env m qs;
     Some (rt # rts, if qs = [] then p else p', m) }"

lemma link_collect:
  assumes "recv_frames (rx_trsmitr (mgr_rx m)) ps = Some rs" "rs \<noteq> []"
    and "map fst rs = replicate (length ps - 1) OPRT_SVC_BT_API_TRSMITR_CONTINUE @ [OPRT_OK]"
    and "\<forall>x \<in> set rs. unat (trs_subpkg_len (snd x)) \<le> length (trs_subpkg (snd x))"
    and "\<forall>x \<in> set (tl rs). \<not> starts_frame (snd x)" and "length (rx_raw_buf (mgr_rx m)) = 1024"
    and "\<not> starts_frame (snd (hd rs)) \<Longrightarrow> collected (mgr_rx m) acc"
    and "frame = (if starts_frame (snd (hd rs)) then [] else acc) @ concat (map (\<lambda>x. subpkg_data (snd x)) rs)" "length frame \<le> 1024"
  shows "\<exists>r'. rx_trsmitr r' = snd (last rs) \<and> collected r' frame \<and> rx_dec_buf r' = rx_dec_buf (mgr_rx m) \<and>
    link_recv env m ps = map_option (\<lambda>(rt, p, m'). (replicate (length ps - 1) OPRT_SVC_BT_API_TRSMITR_CONTINUE @ [rt], p, m'))
      (ble_packet_open env (m\<lparr> mgr_rx := r' \<rparr>))"
  using assms
proof (induction ps arbitrary: m rs acc)
  case (Cons q ps)
  obtain rc t rs' where q: "ble_frame_trsmitr_recv_pkg_decode (Some (rx_trsmitr (mgr_rx m))) (Some q) (of_nat (length q)) = Some (rc, Some t)"
    "recv_frames t ps = Some rs'" "rs = (rc, t) # rs'"
    using Cons.prems(1) by (auto split: option.splits)
  let ?a = "(if starts_frame t then [] else acc) @ subpkg_data t"
  have len: "length rs' = length ps"
    using q(2) by (induction t ps arbitrary: rs' rule: recv_frames.induct) (auto split: option.splits)
  have frame: "frame = ?a @ concat (map (\<lambda>x. subpkg_data (snd x)) rs')"
    using Cons.prems(8) q(3) by simp
  have a: "length ?a \<le> 1024"
    using Cons.prems(9) frame by simp
  have rcs: "rc = (if ps = [] then OPRT_OK else OPRT_SVC_BT_API_TRSMITR_CONTINUE)"
    "ps \<noteq> [] \<Longrightarrow> map fst rs' = replicate (length ps - 1) OPRT_SVC_BT_API_TRSMITR_CONTINUE @ [OPRT_OK]"
    using Cons.prems(3) q(3) by (cases ps; simp)+
  have rc01: "rc = OPRT_OK \<or> rc = OPRT_SVC_BT_API_TRSMITR_CONTINUE"
    using rcs(1) by (cases "ps = []") simp_all
  obtain r1 where r1: "ble_packet_trsmitr (mgr_rx m) q (ucast (of_nat (length q) :: u16)) = Some (rc, r1)" "rx_trsmitr r1 = t"
    "rx_dec_buf r1 = rx_dec_buf (mgr_rx m)" "collected r1 ?a"
    using collect_step [OF q(1) rc01 _ Cons.prems(6) _ a] Cons.prems(4,7) q(3) by auto
  show ?case
  proof (cases "ps = []")
    case True
    then have "rs' = []" using len by simp
    then show ?thesis
      using True r1 q rcs frame by (intro exI [of _ r1]) (simp add: ble_packet_recv_def Let_def, cases "ble_packet_open env (m\<lparr> mgr_rx := r1 \<rparr>)", auto)
  next
    case False
    then obtain x xs where xs: "rs' = x # xs"
      using len by (cases rs') auto
    have "\<not> starts_frame (snd x)"
      using Cons.prems(5) q(3) xs by simp
    then obtain r' where r': "rx_trsmitr r' = snd (last rs')" "collected r' frame" "rx_dec_buf r' = rx_dec_buf r1"
      "link_recv env (m\<lparr> mgr_rx := r1 \<rparr>) ps = map_option (\<lambda>(rt, p, m'). (replicate (length ps - 1) OPRT_SVC_BT_API_TRSMITR_CONTINUE @ [rt], p, m'))
        (ble_packet_open env (m\<lparr> mgr_rx := r' \<rparr>))"
      using Cons.IH [of "m\<lparr> mgr_rx := r1 \<rparr>" rs' ?a] q rcs False r1 Cons.prems(4,5,9) frame xs
      by (auto simp: collected_def)
    have "replicate (length ps) OPRT_SVC_BT_API_TRSMITR_CONTINUE =
        OPRT_SVC_BT_API_TRSMITR_CONTINUE # replicate (length ps - 1) OPRT_SVC_BT_API_TRSMITR_CONTINUE"
      using False by (cases ps) auto
    moreover have "ble_packet_recv env m q (of_nat (length q)) = Some (rc, None, m\<lparr> mgr_rx := r1 \<rparr>)"
      using r1 rcs False by (simp add: ble_packet_recv_def Let_def)
    ultimately show ?thesis
      using r' r1 q rcs False xs
      by (intro exI [of _ r']) (cases "ble_packet_open env (m\<lparr> mgr_rx := r' \<rparr>)", auto)
  qed
qed simp

section \<open>Reading a packet\<close>

lemma rd16_be16: "length pre = i \<Longrightarrow> rd16 (pre @ be16 w @ rest) i = Some w"
proof -
  assume i: "length pre = i"
  have "(push_bit 8 (ucast (ucast (drop_bit 8 w) :: u8)) :: u16) AND ucast (ucast w :: u8) = 0"
    by (rule bit_word_eqI) (auto simp: bit_simps)
  then have "push_bit 8 (ucast (ucast (drop_bit 8 w) :: u8)) + ucast (ucast w :: u8) = be16_of (be16 w)"
    by (simp add: disjunctive_add_eq_or be16_def)
  then show ?thesis
    using i rd_append_right [of pre "be16 w @ rest" 0] rd_append_right [of pre "be16 w @ rest" 1]
    using be16_of_be16 [of w] by (simp add: rd16_def be16_def rd_Some)
qed

lemma rd32_be32: "length pre = i \<Longrightarrow> rd32 (pre @ be32 w @ rest) i = Some w"
proof -
  assume i: "length pre = i"
  let ?a = "ucast (ucast (drop_bit 24 w) :: u8) :: u32" and ?b = "ucast (ucast (drop_bit 16 w) :: u8) :: u32"
    and ?c = "ucast (ucast (drop_bit 8 w) :: u8) :: u32" and ?d = "ucast (ucast w :: u8) :: u32"
  have 1: "push_bit 24 ?a AND push_bit 16 ?b = 0"
    by (rule bit_word_eqI) (auto simp: bit_simps)
  have 2: "(push_bit 24 ?a OR push_bit 16 ?b) AND push_bit 8 ?c = 0"
    by (rule bit_word_eqI) (auto simp: bit_simps)
  have 3: "(push_bit 24 ?a OR push_bit 16 ?b OR push_bit 8 ?c) AND ?d = 0"
    by (rule bit_word_eqI) (auto simp: bit_simps)
  have "push_bit 24 ?a + push_bit 16 ?b + push_bit 8 ?c + ?d = be32_of (be32 w)"
    using 1 2 3 by (simp add: disjunctive_add_eq_or be32_def or.assoc del: push_bit_or)
  then show ?thesis
    using i rd_append_right [of pre "be32 w @ rest" 0] rd_append_right [of pre "be32 w @ rest" 1]
      rd_append_right [of pre "be32 w @ rest" 2] rd_append_right [of pre "be32 w @ rest" 3]
    using be32_of_be32 [of w] by (simp add: rd32_def be32_def rd_Some numeral_2_eq_2 numeral_3_eq_3)
qed

text \<open>The plain form of a packet.\<close>

definition plain :: "u32 \<Rightarrow> ble_packet \<Rightarrow> bytes \<Rightarrow> bytes" where
  "plain sn p d = be32 sn @ be32 (pk_sn p) @ be16 (pk_type p) @ be16 (pk_len p) @ d"

definition plain_crc :: "u32 \<Rightarrow> ble_packet \<Rightarrow> bytes \<Rightarrow> bytes" where
  "plain_crc sn p d = plain sn p d @ be16 (get_crc_16 (plain sn p d))"

lemma length_plain: "length (plain sn p d) = 12 + length d" "length (plain_crc sn p d) = 14 + length d"
  by (simp_all add: plain_def plain_crc_def be32_def be16_def)

lemma parse_plain:
  assumes dec: "rx_dec_buf (mgr_rx m) = plain_crc sn p d @ rest"
    and d: "length d = unat (pk_len p)" "0 < length d" "length d + 14 \<le> 1024"
    and sn: "mgr_recv_sn m < sn" and alloc: "env_alloc env (length d)" and raw: "rd (rx_raw_buf (mgr_rx m)) 0 = Some mode"
  shows "ble_packet_parse env m = Some (OPRT_OK, Some \<lparr> pk_sn = sn, pk_type = pk_type p, pk_len = pk_len p,
      pk_data = Some d, pk_encrypt_mode = mode \<rparr>, m\<lparr> mgr_recv_sn := sn \<rparr>)"
proof -
  have b: "rx_dec_buf (mgr_rx m) = be32 sn @ be32 (pk_sn p) @ be16 (pk_type p) @ be16 (pk_len p) @ d @
      be16 (get_crc_16 (plain sn p d)) @ rest"
    using dec by (simp add: plain_crc_def plain_def)
  have l: "length (be32 w) = 4" "length (be16 v) = 2" for w v
    by (simp_all add: be32_def be16_def)
  have len: "rd16 (rx_dec_buf (mgr_rx m)) 10 = Some (pk_len p)"
    using rd16_be16 [of "be32 sn @ be32 (pk_sn p) @ be16 (pk_type p)" 10] by (simp add: b l)
  have crc: "rd16 (rx_dec_buf (mgr_rx m)) (12 + length d) = Some (get_crc_16 (plain sn p d))"
    using rd16_be16 [of "be32 sn @ be32 (pk_sn p) @ be16 (pk_type p) @ be16 (pk_len p) @ d" "12 + length d"] by (simp add: b l)
  have pl: "mem_rd 0 (length d + 12) (rx_dec_buf (mgr_rx m)) = Some (plain sn p d)"
    using mem_rd_mid [of "[]" 0 "plain sn p d" "length d + 12"] length_plain(1) [of sn p d] dec by (simp add: plain_crc_def)
  have num: "rd32 (rx_dec_buf (mgr_rx m)) 0 = Some sn"
    using rd32_be32 [of "[]" 0] by (simp add: b)
  have ty: "rd16 (rx_dec_buf (mgr_rx m)) 8 = Some (pk_type p)"
    using rd16_be16 [of "be32 sn @ be32 (pk_sn p)" 8] by (simp add: b l)
  have dat: "mem_rd 12 (length d) (rx_dec_buf (mgr_rx m)) = Some d"
    using mem_rd_mid [of "be32 sn @ be32 (pk_sn p) @ be16 (pk_type p) @ be16 (pk_len p)" 12 d "length d"] by (simp add: b l)
  have "pk_len p \<noteq> 0" "\<not> sn \<le> mgr_recv_sn m"
    using d sn by (auto simp: not_le)
  then show ?thesis
    using d alloc raw len crc pl num ty dat by (simp add: ble_packet_parse_def Let_def)
qed


section \<open>Encoding a packet\<close>

lemma rd_append_left: "rd xs i = Some x \<Longrightarrow> rd (xs @ ys) i = Some x"
  by (auto simp: rd_def nth_append split: if_splits)

lemma mem_rd_append_left: "off + n \<le> length xs \<Longrightarrow> mem_rd off n (xs @ ys) = mem_rd off n xs"
  by (simp add: mem_rd_def)

text \<open>Decryption reads nothing past the length it is given.\<close>

lemma decryption_append:
  assumes "length buf = unat n"
  shows "tuya_ble_decryption A md5 p g (buf @ junk) n dec = tuya_ble_decryption A md5 p g buf n dec"
proof (cases "n < 17")
  case False
  then have n: "17 \<le> length buf"
    using assms by (simp add: word_less_nat_alt)
  have "unat (ucast (n - 1) :: u16) \<le> unat (n - 1)" "unat (ucast (n - 17) :: u16) \<le> unat (n - 17)"
    by (simp_all add: unsigned_ucast_eq take_bit_eq_mod)
  moreover have "unat (n - 1) = length buf - 1" "unat (n - 17) = length buf - 17"
    using assms n by (simp_all add: unat_sub word_le_nat_alt)
  ultimately have le: "1 + unat (ucast (n - 1) :: u16) \<le> length buf" "17 + unat (ucast (n - 17) :: u16) \<le> length buf"
    "(1 :: nat) + 16 \<le> length buf"
    using n by simp_all
  have "mem_rd 1 (unat (ucast (n - 1) :: u16)) (buf @ junk) = mem_rd 1 (unat (ucast (n - 1) :: u16)) buf"
    "mem_rd 1 16 (buf @ junk) = mem_rd 1 16 buf"
    "mem_rd 17 (unat (ucast (n - 17) :: u16)) (buf @ junk) = mem_rd 17 (unat (ucast (n - 17) :: u16)) buf"
    by (rule mem_rd_append_left, rule le)+
  moreover have "rd (buf @ junk) 0 = rd buf 0"
    using n by (cases buf) (simp_all add: rd_def)
  ultimately show ?thesis
    by (simp only: tuya_ble_decryption_def Let_def)
qed (simp add: tuya_ble_decryption_def)

lemma frame_build_plain:
  assumes "pk_data p = Some d" "length d = unat (pk_len p)" "length d + 14 \<le> 1024" "length (env_junk env 1024) = 1024"
  shows "ble_frame_build env sn p = Some (plain_crc sn p d @ drop (14 + length d) (env_junk env 1024))"
  using assms by (simp add: ble_frame_build_def Let_def mem_wr_def mem_rd_def plain_crc_def plain_def)

lemma frame_seal_ok:
  assumes "length (env_junk env 1024) = 1024" "length (env_rand env (mgr_rand_no m) 16) = 16"
    and "tuya_ble_encryption (env_aes env) (env_md5 env) (mgr_crypto m) (mgr_keys m) mode (env_rand env (mgr_rand_no m) 16) frame
      (of_nat n) (drop 17 (env_junk env 1024)) = Some (0, Some k, out, in', g)"
  shows "ble_frame_seal env m mode frame n = Some (OPRT_OK, Some (mode # env_rand env (mgr_rand_no m) 16 @ out, k + 17),
    m\<lparr> mgr_rand_no := mgr_rand_no m + 1, mgr_keys := g \<rparr>)"
proof -
  have "mem_wr 0 [mode] (env_junk env 1024) = Some (mode # drop 1 (env_junk env 1024))"
    "mem_wr 1 (env_rand env (mgr_rand_no m) 16) (mode # drop 1 (env_junk env 1024)) =
      Some (mode # env_rand env (mgr_rand_no m) 16 @ drop 17 (env_junk env 1024))"
    using assms(1,2) by (simp_all add: mem_wr_def)
  then show ?thesis
    using assms by (simp add: ble_frame_seal_def Let_def mgr_crypto_def)
qed

lemma encode_plain:
  fixes d dec :: bytes
  assumes A: "aes_laws (env_aes env)" "\<And>x. length (env_md5 env x) = 16"
    and env: "env_alloc env 1024" "length (env_junk env 1024) = 1024" "\<And>i. length (env_rand env i 16) = 16"
    and keys: "key_ready (mgr_crypto m) (mgr_keys m)" "pk_encrypt_mode p \<in> {12, 14, 15}"
    and p: "pk_data p = Some d" "length d = unat (pk_len p)" "length d \<le> 977" and dec: "length dec = 1024"
  shows "\<exists>out n m' k rest g'. ble_packet_encode env m p = Some (OPRT_OK, Some (out, n), m') \<and> unat n \<le> 1024 \<and> unat n \<le> length out \<and>
    mgr_send_sn m' = mgr_send_sn m + 1 \<and> mgr_frame m' = mgr_frame m \<and>
    rd (take (unat n) out) 0 = Some (pk_encrypt_mode p) \<and>
    (\<forall>junk. tuya_ble_decryption (env_aes env) (env_md5 env) (mgr_crypto m) (mgr_keys m) (take (unat n) out @ junk) n dec =
      Some (0, Some k, plain_crc (mgr_send_sn m) p d @ rest, g'))"
proof -
  let ?mode = "pk_encrypt_mode p" and ?f = "plain_crc (mgr_send_sn m) p d" and ?iv = "env_rand env (mgr_rand_no m) 16"
    and ?junk = "env_junk env 1024" and ?out = "drop 17 (env_junk env 1024)"
  have mode: "keyed_mode ?mode"
    using keys(2) by (auto simp: keyed_mode_def)
  have len: "length ?f = 14 + length d"
    by (rule length_plain)
  have "\<exists>n out' in' g' dec'.
      tuya_ble_encryption (env_aes env) (env_md5 env) (mgr_crypto m) (mgr_keys m) ?mode ?iv (?f @ drop (14 + length d) ?junk)
        (of_nat (length ?f)) ?out = Some (0, Some n, out', in', g') \<and>
      tuya_ble_decryption (env_aes env) (env_md5 env) (mgr_crypto m) (mgr_keys m) (?mode # ?iv @ take (unat n) out') (n + 17) dec =
        Some (0, Some n, dec', g') \<and> take (length ?f) dec' = ?f \<and> length ?f \<le> unat n \<and> unat n < length ?f + 16 \<and>
      length out' = length ?out \<and> length dec' = length dec"
    using keys(2) p env dec len by (intro crypt_transfer A mode keys(1)) auto
  then obtain n out' in' g' dec' where
    e: "tuya_ble_encryption (env_aes env) (env_md5 env) (mgr_crypto m) (mgr_keys m) ?mode ?iv (?f @ drop (14 + length d) ?junk)
        (of_nat (length ?f)) ?out = Some (0, Some n, out', in', g')"
    and c: "tuya_ble_decryption (env_aes env) (env_md5 env) (mgr_crypto m) (mgr_keys m) (?mode # ?iv @ take (unat n) out') (n + 17) dec =
        Some (0, Some n, dec', g')"
    and l: "take (length ?f) dec' = ?f" "unat n < length ?f + 16" "length out' = length ?out"
    by blast
  have n17: "unat (n + 17) = unat n + 17"
    using l(2) len p by (simp add: unat_word_ariths)
  have fr: "ble_frame_build env (mgr_send_sn m) p = Some (?f @ drop (14 + length d) ?junk)"
    using p env by (intro frame_build_plain) auto
  have ivl: "length ?iv = 16"
    by (rule env(3))
  have small: "14 + unat (pk_len p) + (17 + (if (14 + unat (pk_len p)) mod 16 \<noteq> 0 then 16 - (14 + unat (pk_len p)) mod 16 else 0)) \<le> 1024"
    using p by auto
  have "ble_packet_encode env m p = Some (OPRT_OK, Some (?mode # ?iv @ out', n + 17),
      m\<lparr> mgr_send_sn := mgr_send_sn m + 1, mgr_rand_no := mgr_rand_no m + 1, mgr_keys := g' \<rparr>)"
    using env(1) fr small e len p frame_seal_ok [OF env(2), of "m\<lparr> mgr_send_sn := mgr_send_sn m + 1 \<rparr>" ?mode] ivl
    by (simp add: ble_packet_encode_def Let_def mgr_crypto_def)
  moreover have "take (unat (n + 17)) (?mode # ?iv @ out') = ?mode # ?iv @ take (unat n) out'"
    using ivl by (simp add: n17 take_Cons' )
  moreover have "dec' = ?f @ drop (length ?f) dec'"
    using l(1) by (metis append_take_drop_id)
  moreover have "length (?mode # ?iv @ take (unat n) out') = unat (n + 17)" "unat (n + 17) \<le> 1024" "unat n + 17 \<le> length (?mode # ?iv @ out')"
    using ivl l env(2) len p by (simp_all add: n17)
  ultimately show ?thesis
    using c decryption_append [of "?mode # ?iv @ take (unat n) out'" "n + 17"]
    by (intro exI [of _ "?mode # ?iv @ out'"] exI [of _ "n + 17"] exI [of _ n] exI [of _ "drop (length ?f) dec'"] exI [of _ g'] exI conjI)
      (assumption | simp add: n17 rd_def)+
qed


section \<open>The link\<close>

lemma open_plain:
  assumes ver: "trs_version (rx_trsmitr (mgr_rx m)) = 4" and len: "rx_raw_len (mgr_rx m) = n" "unat n \<le> 1024"
    and dec: "tuya_ble_decryption (env_aes env) (env_md5 env) (mgr_crypto m) (mgr_keys m) (rx_raw_buf (mgr_rx m)) n
      (rx_dec_buf (mgr_rx m)) = Some (0, Some k, plain_crc sn p d @ rest, g)"
    and raw: "rd (rx_raw_buf (mgr_rx m)) 0 = Some (pk_encrypt_mode p)"
    and p: "pk_data p = Some d" "length d = unat (pk_len p)" "0 < length d" "length d \<le> 977"
    and sn: "mgr_recv_sn m < sn" "env_alloc env (length d)"
  shows "\<exists>m'. ble_packet_open env m = Some (OPRT_OK, Some (p\<lparr> pk_sn := sn \<rparr>), m') \<and> mgr_recv_sn m' = sn"
proof -
  let ?m = "m\<lparr> mgr_rx := (mgr_rx m)\<lparr> rx_dec_buf := plain_crc sn p d @ rest, rx_dec_len := k \<rparr>, mgr_keys := g \<rparr>"
  have "\<not> 1024 < n"
    using len(2) by (simp add: word_less_nat_alt)
  then have "ble_packet_open env m = ble_packet_parse env ?m"
    using ver len dec by (simp add: ble_packet_open_def Let_def)
  also have "\<dots> = Some (OPRT_OK, Some \<lparr> pk_sn = sn, pk_type = pk_type p, pk_len = pk_len p, pk_data = Some d,
      pk_encrypt_mode = pk_encrypt_mode p \<rparr>, ?m\<lparr> mgr_recv_sn := sn \<rparr>)"
    using raw p sn by (intro parse_plain) simp_all
  finally show ?thesis
    using p(1) by simp
qed



definition demo_peer :: ble_mgr where
  "demo_peer = demo_mgr\<lparr> mgr_frame := \<lparr> s_ble_frame_seq = 0, s_ble_frame_packet_len = 20 \<rparr> \<rparr>"

definition demo_packet :: ble_packet where
  "demo_packet = \<lparr> pk_sn = 0, pk_type = 7, pk_len = 3, pk_data = Some [1, 2, 3], pk_encrypt_mode = 15 \<rparr>"


end
