(* ===== verification/CipherWrapper.thy ===== *)
theory CipherWrapper
  imports Prelude
begin

unbundle bit_operations_syntax

text \<open>
  Random values, \<^verbatim>\<open>src/src/common/utilities/uni_random.c\<close>, and the authenticated encryption and digest wrappers,
  \<^verbatim>\<open>src/src/libtls/src/cipher_wrapper.c\<close>.

  The entropy source \<^verbatim>\<open>tuya_tls_random\<close> is a function \<open>rnd\<close> of the number of the call and
  the number of bytes.  The mbedtls library is the record \<open>mbedtls_cipher\<close>; an encryption call
  returns its code and what it wrote (cipher text followed by the tag), a decryption call its
  code and the plain text.  \<open>gcm_laws\<close> states what the library documents of AES-128-GCM.
\<close>

section \<open>Random values\<close>

type_synonym entropy = "nat \<Rightarrow> nat \<Rightarrow> bytes"

text \<open>\<^verbatim>\<open>RAND_MAX\<close> is \<^verbatim>\<open>0x7fffffff\<close>.\<close>

definition uni_random_int :: "entropy \<Rightarrow> nat \<Rightarrow> u32" where
  "uni_random_int rnd i = le32_of (rnd i 4) AND 0x7FFFFFFF"

definition uni_random_range :: "entropy \<Rightarrow> nat \<Rightarrow> u32 \<Rightarrow> u32" where
  "uni_random_range rnd i rng = uni_random_int rnd i mod (if rng = 0 then 0xFF else rng)"

definition uni_random :: "entropy \<Rightarrow> nat \<Rightarrow> u32" where
  "uni_random rnd i = le32_of (rnd i 4)"

definition hex_seed :: bytes where
  "hex_seed = [0x30, 0x31, 0x32, 0x33, 0x34, 0x35, 0x36, 0x37, 0x38, 0x39, 0x61, 0x62, 0x63, 0x64, 0x65, 0x66]"

definition uni_random_string :: "entropy \<Rightarrow> nat \<Rightarrow> nat \<Rightarrow> bytes \<Rightarrow> bytes option" where
  "uni_random_string rnd i len dst = for_loop 0 len (\<lambda>k dst. do {
     c \<leftarrow> rd hex_seed (unat (uni_random_range rnd (i + k) 16));
     mem_wr k [c] dst }) dst"

lemma uni_random_range_less: "rng \<noteq> 0 \<Longrightarrow> unat (uni_random_range rnd i rng) < unat rng"
  by (simp add: uni_random_range_def unat_mod unat_gt_0)

lemma uni_random_string_hex_buf:
  assumes "len \<le> length dst"
  shows "\<exists>s. uni_random_string rnd i len dst = Some (s @ drop len dst) \<and> length s = len \<and> set s \<subseteq> set hex_seed"
proof -
  have "\<exists>d. for_loop 0 len (\<lambda>k dst. do {
     c \<leftarrow> rd hex_seed (unat (uni_random_range rnd (i + k) 16)); mem_wr k [c] dst }) dst = Some d \<and>
     (\<exists>s. d = s @ drop len dst \<and> length s = len \<and> set s \<subseteq> set hex_seed)"
  proof (rule for_loop_rule [where P = "\<lambda>k d. \<exists>s. d = s @ drop k dst \<and> length s = k \<and> set s \<subseteq> set hex_seed"])
    fix j t
    assume j: "0 \<le> j" "j < len" and t: "\<exists>s. t = s @ drop j dst \<and> length s = j \<and> set s \<subseteq> set hex_seed"
    obtain s where s: "t = s @ drop j dst" "length s = j" "set s \<subseteq> set hex_seed"
      using t by blast
    let ?n = "unat (uni_random_range rnd (i + j) 16)"
    have n: "?n < length hex_seed"
      using uni_random_range_less [of 16 rnd "i + j"] by (simp add: hex_seed_def)
    have "mem_wr j [hex_seed ! ?n] t = Some ((s @ [hex_seed ! ?n]) @ drop (Suc j) dst)"
      using s j assms by (simp add: mem_wr_def)
    then show "\<exists>t'. (do { c \<leftarrow> rd hex_seed ?n; mem_wr j [c] t }) = Some t' \<and>
        (\<exists>s. t' = s @ drop (Suc j) dst \<and> length s = Suc j \<and> set s \<subseteq> set hex_seed)"
      using n s by (intro exI [of _ "(s @ [hex_seed ! ?n]) @ drop (Suc j) dst"]) (auto simp: rd_Some intro!: exI [of _ "s @ [hex_seed ! ?n]"])
  qed auto
  then show ?thesis
    by (auto simp: uni_random_string_def)
qed

text \<open>
  a random string of \<open>len\<close> characters fits a buffer of \<open>len\<close> bytes or more, consists
  of hexadecimal digits only and leaves the rest of the buffer alone; no digit is read outside the table of digits.
\<close>

theorem uni_random_string_hex:
  assumes "len \<le> length dst"
  shows "\<exists>s. uni_random_string rnd i len dst = Some (s @ drop len dst) \<and> length s = len \<and> set s \<subseteq> set hex_seed"
  by (rule uni_random_string_hex_buf) (rule assms)

theorem uni_random_string_hex_witness:
  "\<exists>s. uni_random_string (\<lambda>i n. replicate n (of_nat i)) 0 2 [0, 0, 7] = Some (s @ [7]) \<and> length s = 2 \<and> set s \<subseteq> set hex_seed"
  using uni_random_string_hex [of 2 "[0, 0, 7]" "\<lambda>i n. replicate n (of_nat i)" 0] by simp

section \<open>Authenticated encryption\<close>

record mbedtls_cipher =
  mc_known :: bool
  mc_setup :: int
  mc_key_bitlen :: nat
  mc_block_size :: nat
  mc_setkey :: "bytes \<Rightarrow> int"
  mc_auth_encrypt :: "bytes \<Rightarrow> bytes \<Rightarrow> bytes \<Rightarrow> bytes \<Rightarrow> nat \<Rightarrow> int \<times> bytes"
  mc_auth_decrypt :: "bytes \<Rightarrow> bytes \<Rightarrow> bytes \<Rightarrow> bytes \<Rightarrow> nat \<Rightarrow> int \<times> bytes"

text \<open>
  The parameters of a call; the pairs of pointer and length of the nonce, the associated data and the data are
  lists, while the wrapper may read another number of key bytes than \<^verbatim>\<open>key_len\<close>.
\<close>

record cipher_params =
  cip_key :: bytes
  cip_key_len :: nat
  cip_nonce :: bytes
  cip_ad :: bytes
  cip_data :: bytes

text \<open>
  The wrappers return the code, the output buffer, the output length and the tag buffer.
  A failed allocation is not tested before the buffer is used.  An encryption that leaves
  fewer bytes than a tag makes \<^verbatim>\<open>*olen - tag_len\<close> wrap around and the copy leave the buffer.
\<close>

definition mbedtls_cipher_auth_encrypt_wrapper ::
  "mbedtls_cipher \<Rightarrow> (nat \<Rightarrow> bool) \<Rightarrow> cipher_params option \<Rightarrow> bytes option \<Rightarrow> nat \<Rightarrow> bytes \<Rightarrow> nat \<Rightarrow>
     (int \<times> bytes option \<times> nat \<times> bytes) option" where
  "mbedtls_cipher_auth_encrypt_wrapper C alloc input output olen tag tag_len =
     (case (input, output) of
        (Some p, Some out) \<Rightarrow>
          if \<not> mc_known C then Some (OPRT_INVALID_PARM, output, olen, tag)
          else if mc_setup C \<noteq> 0 then Some (mc_setup C, output, olen, tag)
          else if cip_key_len p * 8 \<noteq> mc_key_bitlen C then Some (OPRT_INVALID_PARM, output, olen, tag)
          else do {
            key \<leftarrow> mem_rd 0 (mc_key_bitlen C div 8) (cip_key p);
            if mc_setkey C key \<noteq> 0 then Some (mc_setkey C key, output, olen, tag)
            else if \<not> alloc (length (cip_data p) + tag_len) then None
            else
              (let (ret, w) = mc_auth_encrypt C key (cip_nonce p) (cip_ad p) (cip_data p) tag_len in
               if length w < tag_len then None
               else do {
                 out \<leftarrow> mem_wr 0 (take (length w - tag_len) w) out;
                 tag \<leftarrow> mem_wr 0 (drop (length w - tag_len) w) tag;
                 Some (ret, Some out, length w - tag_len, tag) }) }
      | _ \<Rightarrow> Some (OPRT_INVALID_PARM, output, olen, tag))"

text \<open>The code variable is still 0 when the cipher is unknown, has no block size or refuses the key.\<close>

definition mbedtls_cipher_auth_decrypt_wrapper ::
  "mbedtls_cipher \<Rightarrow> (nat \<Rightarrow> bool) \<Rightarrow> cipher_params option \<Rightarrow> bytes option \<Rightarrow> nat \<Rightarrow> bytes \<Rightarrow> nat \<Rightarrow>
     (int \<times> bytes option \<times> nat) option" where
  "mbedtls_cipher_auth_decrypt_wrapper C alloc input output olen tag tag_len =
     (case (input, output) of
        (Some p, Some out) \<Rightarrow>
          if \<not> mc_known C then Some (OPRT_OK, output, olen)
          else if mc_setup C \<noteq> 0 then Some (mc_setup C, output, olen)
          else if mc_block_size C = 0 then Some (OPRT_OK, output, olen)
          else do {
            key \<leftarrow> mem_rd 0 (mc_key_bitlen C div 8) (cip_key p);
            if mc_setkey C key \<noteq> 0 then Some (OPRT_OK, output, olen)
            else if \<not> alloc (length (cip_data p) + tag_len) then None
            else do {
              t \<leftarrow> mem_rd 0 tag_len tag;
              (let (ret, w) = mc_auth_decrypt C key (cip_nonce p) (cip_ad p) (cip_data p @ t) tag_len in do {
               out \<leftarrow> mem_wr 0 w out;
               Some (ret, Some out, length w) }) } }
      | _ \<Rightarrow> Some (OPRT_INVALID_PARM, output, olen))"

text \<open>
  Digests.  \<open>setup\<close> is the code of \<^verbatim>\<open>mbedtls_md_setup\<close> and \<open>md\<close> the digest.
\<close>

definition mbedtls_message_digest :: "int \<Rightarrow> (bytes \<Rightarrow> bytes) \<Rightarrow> bytes option \<Rightarrow> bytes option \<Rightarrow> (int \<times> bytes option) option" where
  "mbedtls_message_digest setup md input digest =
     (case (input, digest) of
        (Some d, Some out) \<Rightarrow>
          if d = [] then Some (- 1, digest)
          else if setup \<noteq> 0 then Some (setup, digest)
          else do { out \<leftarrow> mem_wr 0 (md d) out; Some (setup, Some out) }
      | _ \<Rightarrow> Some (- 1, digest))"

definition mbedtls_message_digest_hmac ::
  "int \<Rightarrow> (bytes \<Rightarrow> bytes \<Rightarrow> bytes) \<Rightarrow> bytes option \<Rightarrow> bytes option \<Rightarrow> bytes option \<Rightarrow> (int \<times> bytes option) option" where
  "mbedtls_message_digest_hmac setup hmac key input digest =
     (case (key, input, digest) of
        (Some k, Some d, Some out) \<Rightarrow>
          if k = [] \<or> d = [] then Some (- 1, digest)
          else if setup \<noteq> 0 then Some (setup, digest)
          else do { out \<leftarrow> mem_wr 0 (hmac k d) out; Some (setup, Some out) }
      | _ \<Rightarrow> Some (- 1, digest))"

section \<open>The contract of AES-128-GCM\<close>

definition gcm_laws :: "mbedtls_cipher \<Rightarrow> bool" where
  "gcm_laws C \<longleftrightarrow> mc_known C \<and> mc_setup C = 0 \<and> mc_key_bitlen C = 128 \<and> mc_block_size C = 16 \<and>
     (\<forall>key. length key = 16 \<longrightarrow> mc_setkey C key = 0) \<and>
     (\<forall>key nonce ad d. length key = 16 \<longrightarrow>
        fst (mc_auth_encrypt C key nonce ad d 16) = 0 \<and>
        length (snd (mc_auth_encrypt C key nonce ad d 16)) = length d + 16 \<and>
        mc_auth_decrypt C key nonce ad (snd (mc_auth_encrypt C key nonce ad d 16)) 16 = (0, d)) \<and>
     (\<forall>key nonce ad c. length key = 16 \<longrightarrow> 16 \<le> length c \<longrightarrow> length (snd (mc_auth_decrypt C key nonce ad c 16)) \<le> length c - 16)"

text \<open>A cipher that satisfies the laws: a mask made of key and nonce, and a tag of fixed bytes.\<close>

definition toy_mask :: "bytes \<Rightarrow> bytes \<Rightarrow> bytes" where
  "toy_mask key d = map (\<lambda>x. x XOR fold (+) key 0) d"

definition toy_gcm :: mbedtls_cipher where
  "toy_gcm = \<lparr> mc_known = True, mc_setup = 0, mc_key_bitlen = 128, mc_block_size = 16, mc_setkey = (\<lambda>_. 0),
     mc_auth_encrypt = (\<lambda>key nonce ad d n. (0, toy_mask (key @ nonce) d @ replicate n 9)),
     mc_auth_decrypt = (\<lambda>key nonce ad c n.
       if drop (length c - n) c = replicate n 9 then (0, toy_mask (key @ nonce) (take (length c - n) c)) else (- 0x6300, [])) \<rparr>"

lemma toy_mask_twice [simp]: "toy_mask key (toy_mask key d) = d" "length (toy_mask key d) = length d"
  by (simp_all add: toy_mask_def comp_def xor.assoc map_idI)

lemma toy_gcm_laws: "gcm_laws toy_gcm"
  by (simp add: gcm_laws_def toy_gcm_def)

lemma gcm_encrypt_ok:
  assumes C: "gcm_laws C" and alloc: "\<And>n. alloc n" and key: "16 \<le> length (cip_key p)" "cip_key_len p = 16"
    and out: "length (cip_data p) \<le> length out" and tag: "length tag = 16"
  shows "\<exists>c t. length c = length (cip_data p) \<and> length t = 16 \<and>
    mc_auth_decrypt C (take 16 (cip_key p)) (cip_nonce p) (cip_ad p) (c @ t) 16 = (0, cip_data p) \<and>
    mbedtls_cipher_auth_encrypt_wrapper C alloc (Some p) (Some out) olen tag 16 =
      Some (0, Some (c @ drop (length (cip_data p)) out), length (cip_data p), t)"
proof -
  let ?key = "take 16 (cip_key p)"
  have "length ?key = 16"
    using key by simp
  then have "fst (mc_auth_encrypt C ?key (cip_nonce p) (cip_ad p) (cip_data p) 16) = 0 \<and>
      length (snd (mc_auth_encrypt C ?key (cip_nonce p) (cip_ad p) (cip_data p) 16)) = length (cip_data p) + 16 \<and>
      mc_auth_decrypt C ?key (cip_nonce p) (cip_ad p) (snd (mc_auth_encrypt C ?key (cip_nonce p) (cip_ad p) (cip_data p) 16)) 16 =
        (0, cip_data p)"
    using C unfolding gcm_laws_def by blast
  then obtain w where w: "mc_auth_encrypt C ?key (cip_nonce p) (cip_ad p) (cip_data p) 16 = (0, w)" "length w = length (cip_data p) + 16"
    "mc_auth_decrypt C ?key (cip_nonce p) (cip_ad p) w 16 = (0, cip_data p)"
    by (cases "mc_auth_encrypt C ?key (cip_nonce p) (cip_ad p) (cip_data p) 16") simp
  let ?c = "take (length (cip_data p)) w" and ?t = "drop (length (cip_data p)) w"
  have "mbedtls_cipher_auth_encrypt_wrapper C alloc (Some p) (Some out) olen tag 16 =
      Some (0, Some (?c @ drop (length (cip_data p)) out), length (cip_data p), ?t)"
    using C w(1,2) alloc key out tag by (simp add: mbedtls_cipher_auth_encrypt_wrapper_def gcm_laws_def mem_rd_def mem_wr_def)
  then show ?thesis
    using w by (intro exI [of _ ?c] exI [of _ ?t]) simp
qed

lemma gcm_decrypt_ok:
  assumes C: "gcm_laws C" and alloc: "\<And>n. alloc n" and key: "16 \<le> length (cip_key p)"
    and d: "mc_auth_decrypt C (take 16 (cip_key p)) (cip_nonce p) (cip_ad p) (cip_data p @ tag) 16 = (0, d)"
    and out: "length d \<le> length out" and tag: "length tag = 16"
  shows "mbedtls_cipher_auth_decrypt_wrapper C alloc (Some p) (Some out) olen tag 16 = Some (0, Some (d @ drop (length d) out), length d)"
  using C alloc key d out tag
  by (simp add: mbedtls_cipher_auth_decrypt_wrapper_def gcm_laws_def mem_rd_def mem_wr_def)

lemma gcm_decrypt_total:
  assumes C: "gcm_laws C" and alloc: "\<And>n. alloc n" and key: "16 \<le> length (cip_key p)"
    and out: "length (cip_data p) \<le> length out" and tag: "length tag = 16"
  shows "\<exists>rt out' n. mbedtls_cipher_auth_decrypt_wrapper C alloc (Some p) (Some out) olen tag 16 = Some (rt, Some out', n) \<and>
    n \<le> length (cip_data p) \<and> length out' = length out"
proof -
  let ?key = "take 16 (cip_key p)"
  obtain rt w where w: "mc_auth_decrypt C ?key (cip_nonce p) (cip_ad p) (cip_data p @ tag) 16 = (rt, w)"
    by force
  have "length ?key = 16" "16 \<le> length (cip_data p @ tag)"
    using key tag by simp_all
  then have "length (snd (mc_auth_decrypt C ?key (cip_nonce p) (cip_ad p) (cip_data p @ tag) 16)) \<le> length (cip_data p @ tag) - 16"
    using C unfolding gcm_laws_def by blast
  then have "length w \<le> length (cip_data p)"
    using w tag by simp
  then show ?thesis
    using C alloc key out tag w by (simp add: mbedtls_cipher_auth_decrypt_wrapper_def gcm_laws_def mem_rd_def mem_wr_def)
qed

end
