(* ===== verification/TuyaProtocol.thy ===== *)
theory TuyaProtocol
  imports CipherWrapper
begin

unbundle bit_operations_syntax

text \<open>
  The cloud and LAN protocol, \<^verbatim>\<open>src/src/tuya_cloud_service/protocol/tuya_protocol.c\<close>: protocol 2.3 messages to the
  MQTT broker and protocol 3.5 messages and frames of the local network.

  \<open>proto_env\<close> holds what the code takes from outside: the cipher, the entropy source, the byte
  order macro, the allocator (whether a size can be had, and what fresh memory holds) and
  the clock.  \<open>proto_state\<close> holds the static serial number and the number of calls of the
  entropy source.  \<open>None\<close> is a run that leaves a buffer.
\<close>

section \<open>Environment and state\<close>

record proto_env =
  pe_cipher :: mbedtls_cipher
  pe_rnd :: entropy
  pe_htonl :: "u32 \<Rightarrow> u32"
  pe_alloc :: "nat \<Rightarrow> bool"
  pe_junk :: "nat \<Rightarrow> bytes"
  pe_time :: u32

record proto_state =
  ps_serial_no :: u32
  ps_rnd_no :: nat

abbreviation (input) DP_CMD_LAN :: nat where "DP_CMD_LAN \<equiv> 0"
abbreviation (input) DP_CMD_MQ :: nat where "DP_CMD_MQ \<equiv> 1"

definition TUYA_PV23 :: bytes where
  "TUYA_PV23 = cstr ''2.3''"

definition TUYA_LPV35 :: bytes where
  "TUYA_LPV35 = cstr ''3.5''"

definition tuya_pack_protocol_serial_no :: "proto_env \<Rightarrow> proto_state \<Rightarrow> u32 \<times> proto_state" where
  "tuya_pack_protocol_serial_no env st =
     (let st = (if ps_serial_no st = 0
                then st\<lparr> ps_serial_no := le32_of (pe_rnd env (ps_rnd_no st) 4), ps_rnd_no := ps_rnd_no st + 1 \<rparr> else st);
          st = st\<lparr> ps_serial_no := ps_serial_no st + 1 \<rparr>
      in (ps_serial_no st, st))"

section \<open>Messages\<close>

definition parse_data_with_pv23 :: "proto_env \<Rightarrow> bytes \<Rightarrow> u32 \<Rightarrow> bytes \<Rightarrow> (operate_ret \<times> bytes option) option" where
  "parse_data_with_pv23 env dat len key = do {
     v \<leftarrow> mem_rd 0 3 dat;
     if v \<noteq> TUYA_PV23 then Some (OPRT_VERSION_FMT_ERR, None)
     else do {
       _ \<leftarrow> mem_rd 3 4 dat;
       _ \<leftarrow> mem_rd 7 4 dat;
       r \<leftarrow> rd dat 11;
       if r \<noteq> 0 then Some (OPRT_VERSION_FMT_ERR, None)
       else
         (let data_len = len - 40 in
          if \<not> pe_alloc env (unat (data_len + 1)) then Some (OPRT_MALLOC_FAILED, None)
          else do {
            nonce \<leftarrow> mem_rd 12 12 dat;
            ad \<leftarrow> mem_rd 0 12 dat;
            d \<leftarrow> mem_rd 24 (unat data_len) dat;
            tag \<leftarrow> mem_rd (unat (len - 16)) 16 dat;
            (ret, ec, ec_len) \<leftarrow> mbedtls_cipher_auth_decrypt_wrapper (pe_cipher env) (pe_alloc env)
              (Some \<lparr> cip_key = key, cip_key_len = 16, cip_nonce = nonce, cip_ad = ad, cip_data = d \<rparr>)
              (Some (pe_junk env (unat (data_len + 1)))) 0 tag 16;
            if ret \<noteq> OPRT_OK then Some (ret, None)
            else do {
              ec \<leftarrow> ec;
              ec \<leftarrow> mem_wr ec_len [0] ec;
              Some (OPRT_OK, Some ec) } }) } }"

definition parse_data_with_lpv35 :: "proto_env \<Rightarrow> bytes \<Rightarrow> u32 \<Rightarrow> (operate_ret \<times> bytes option) option" where
  "parse_data_with_lpv35 env dat len = do {
     _ \<leftarrow> mem_rd 0 3 dat;
     _ \<leftarrow> mem_rd 7 4 dat;
     _ \<leftarrow> mem_rd 11 4 dat;
     (let ec_len = len - 15 in
      if \<not> pe_alloc env (unat (ec_len + 1)) then Some (OPRT_MALLOC_FAILED, None)
      else do {
        d \<leftarrow> mem_rd 15 (unat ec_len) dat;
        ec \<leftarrow> mem_wr 0 d (pe_junk env (unat (ec_len + 1)));
        ec \<leftarrow> mem_wr (unat ec_len) [0] ec;
        Some (OPRT_OK, Some ec) }) }"

text \<open>
  The length is compared as an unsigned number: \<^verbatim>\<open>DATA_OFFSET_22_32\<close> is a sum with \<^verbatim>\<open>sizeof\<close>.
\<close>

definition tuya_parse_protocol_data :: "proto_env \<Rightarrow> nat \<Rightarrow> bytes option \<Rightarrow> u32 \<Rightarrow> bytes \<Rightarrow> (operate_ret \<times> bytes option) option" where
  "tuya_parse_protocol_data env cmd dat len key =
     (case dat of
        None \<Rightarrow> Some (OPRT_INVALID_PARM, None)
      | Some d \<Rightarrow>
        if len < 15 then Some (OPRT_INVALID_PARM, None)
        else if cmd = DP_CMD_LAN then parse_data_with_lpv35 env d len
        else if cmd = DP_CMD_MQ then parse_data_with_pv23 env d len key
        else Some (OPRT_COM_ERROR, None))"

text \<open>The text of a message, and its construction in the buffer \<open>out\<close>.\<close>

definition proto_text :: "u32 \<Rightarrow> u32 \<Rightarrow> bytes \<Rightarrow> bytes" where
  "proto_text pro t src = cstr ''{\"protocol\":'' @ dec_int (sint pro) @ cstr '',\"t\":'' @ dec_int (sint t) @ cstr '',\"data\":'' @ src"

definition make_json :: "bytes \<Rightarrow> u32 \<Rightarrow> u32 \<Rightarrow> bytes \<Rightarrow> (bytes \<times> nat) option" where
  "make_json out pro t src =
     (let text = proto_text pro t (cstring src) in do {
      out \<leftarrow> mem_wr 0 (text @ [0]) out;
      out \<leftarrow> mem_wr (length text) [0x7D] out;
      out \<leftarrow> mem_wr (length text + 1) [0] out;
      Some (out, length text + 1) })"

definition pack_data_with_cmd_pv23 ::
  "proto_env \<Rightarrow> proto_state \<Rightarrow> bytes \<Rightarrow> bytes \<Rightarrow> u32 \<Rightarrow> u32 \<Rightarrow> bytes \<Rightarrow> (operate_ret \<times> (bytes \<times> u32) option \<times> proto_state) option" where
  "pack_data_with_cmd_pv23 env st pv src pro num key =
     (let len = length (cstring src) + 60 in
      if \<not> pe_alloc env len then Some (OPRT_MALLOC_FAILED, None, st)
      else do {
        (out, offset) \<leftarrow> make_json (pe_junk env len) pro (pe_time env) src;
        if \<not> pe_alloc env (offset + 40) then Some (OPRT_MALLOC_FAILED, None, st)
        else do {
          v \<leftarrow> mem_rd 0 3 pv;
          buf \<leftarrow> mem_wr 0 v (replicate (offset + 40) 0);
          buf \<leftarrow> mem_wr 3 (le32 (pe_htonl env num)) buf;
          buf \<leftarrow> mem_wr 7 (le32 (pe_htonl env 1)) buf;
          buf \<leftarrow> mem_wr 11 [0] buf;
          s \<leftarrow> uni_random_string (pe_rnd env) (ps_rnd_no st) 12 (drop 12 buf);
          (let buf = take 12 buf @ s; st = st\<lparr> ps_rnd_no := ps_rnd_no st + 12 \<rparr> in do {
           nonce \<leftarrow> mem_rd 12 12 buf;
           ad \<leftarrow> mem_rd 0 12 buf;
           tag \<leftarrow> mem_rd (24 + offset) 16 buf;
           (ret, o', olen, tag) \<leftarrow> mbedtls_cipher_auth_encrypt_wrapper (pe_cipher env) (pe_alloc env)
             (Some \<lparr> cip_key = key, cip_key_len = 16, cip_nonce = nonce, cip_ad = ad, cip_data = cstring out \<rparr>)
             (Some (drop 24 buf)) 0 tag 16;
           o' \<leftarrow> o';
           buf \<leftarrow> mem_wr 24 o' buf;
           buf \<leftarrow> mem_wr (24 + offset) tag buf;
           if ret \<noteq> OPRT_OK then Some (ret, None, st)
           else Some (OPRT_OK, Some (buf, 40 + of_nat olen), st) }) } })"

definition pack_data_with_cmd_lpv35 ::
  "proto_env \<Rightarrow> proto_state \<Rightarrow> bytes \<Rightarrow> bytes \<Rightarrow> u32 \<Rightarrow> u32 \<Rightarrow> (operate_ret \<times> (bytes \<times> u32) option \<times> proto_state) option" where
  "pack_data_with_cmd_lpv35 env st pv src pro num =
     (let len = length (cstring src) + 60 in
      if \<not> pe_alloc env len then Some (OPRT_MALLOC_FAILED, None, st)
      else do {
        (out, offset) \<leftarrow> make_json (pe_junk env len) pro (pe_time env) src;
        if \<not> pe_alloc env (15 + offset + 16) then Some (OPRT_MALLOC_FAILED, None, st)
        else do {
          d \<leftarrow> mem_rd 0 offset out;
          buf \<leftarrow> mem_wr 15 d (replicate (15 + offset + 16) 0);
          v \<leftarrow> mem_rd 0 3 pv;
          buf \<leftarrow> mem_wr 0 v buf;
          buf \<leftarrow> mem_wr 3 (le32 (pe_htonl env 0)) buf;
          buf \<leftarrow> mem_wr 7 (le32 (pe_htonl env num)) buf;
          buf \<leftarrow> mem_wr 11 (le32 (pe_htonl env 1)) buf;
          Some (OPRT_OK, Some (buf, of_nat (15 + offset)), st) } })"

definition tuya_pack_protocol_data ::
  "proto_env \<Rightarrow> proto_state \<Rightarrow> nat \<Rightarrow> bytes option \<Rightarrow> u32 \<Rightarrow> bytes \<Rightarrow> (operate_ret \<times> (bytes \<times> u32) option \<times> proto_state) option" where
  "tuya_pack_protocol_data env st cmd src pro key =
     (case src of
        None \<Rightarrow> Some (OPRT_INVALID_PARM, None, st)
      | Some src \<Rightarrow>
        (let (num, st) = tuya_pack_protocol_serial_no env st in
         if cmd = DP_CMD_LAN then pack_data_with_cmd_lpv35 env st TUYA_LPV35 src pro num
         else if cmd = DP_CMD_MQ then pack_data_with_cmd_pv23 env st TUYA_PV23 src pro num key
         else Some (OPRT_COM_ERROR, None, st)))"

section \<open>LAN frames\<close>

record lpv35_frame_object =
  fo_sequence :: u32
  fo_type :: u32
  fo_data :: "bytes option"
  fo_data_len :: u32

definition LPV35_FRAME_HEAD :: bytes where
  "LPV35_FRAME_HEAD = [0x00, 0x00, 0x66, 0x99]"

definition LPV35_FRAME_TAIL :: bytes where
  "LPV35_FRAME_TAIL = [0x00, 0x00, 0x99, 0x66]"

definition lpv35_frame_buffer_size_get :: "lpv35_frame_object \<Rightarrow> u32" where
  "lpv35_frame_buffer_size_get obj = 4 + 14 + 12 + fo_data_len obj + 16 + 4"

text \<open>The associated data: a version byte, a reserved byte and three numbers in network order.\<close>

definition additional_data :: "(u32 \<Rightarrow> u32) \<Rightarrow> lpv35_frame_object \<Rightarrow> bytes" where
  "additional_data htonl obj = [0, 0] @ le32 (htonl (fo_sequence obj)) @ le32 (htonl (fo_type obj)) @
     le32 (htonl (12 + fo_data_len obj + 16))"

definition frame_nonce :: "proto_env \<Rightarrow> nat \<Rightarrow> bytes" where
  "frame_nonce env k = map (\<lambda>i. ucast (uni_random_range (pe_rnd env) (k + i) 0xFF)) [0..<12]"

definition lpv35_frame_serialize ::
  "proto_env \<Rightarrow> proto_state \<Rightarrow> bytes option \<Rightarrow> nat \<Rightarrow> lpv35_frame_object option \<Rightarrow> bytes option \<Rightarrow>
     (operate_ret \<times> bytes option \<times> nat option \<times> proto_state) option" where
  "lpv35_frame_serialize env st key key_len input output =
     (case (key, input, output) of
        (Some key, Some obj, Some out) \<Rightarrow>
          if key_len = 0 then Some (OPRT_INVALID_PARM, output, None, st)
          else
            (let ad = additional_data (pe_htonl env) obj; nonce = frame_nonce env (ps_rnd_no st);
                 st = st\<lparr> ps_rnd_no := ps_rnd_no st + 12 \<rparr> in do {
             out \<leftarrow> mem_wr 0 LPV35_FRAME_HEAD out;
             out \<leftarrow> mem_wr 4 ad out;
             out \<leftarrow> mem_wr 18 nonce out;
             d \<leftarrow> (case fo_data obj of None \<Rightarrow> if fo_data_len obj = 0 then Some [] else None
                    | Some d \<Rightarrow> mem_rd 0 (unat (fo_data_len obj)) d);
             (ret, o', olen, tag) \<leftarrow> mbedtls_cipher_auth_encrypt_wrapper (pe_cipher env) (pe_alloc env)
               (Some \<lparr> cip_key = key, cip_key_len = key_len, cip_nonce = nonce, cip_ad = ad, cip_data = d \<rparr>)
               (Some (drop 30 out)) 0 (replicate 16 0) 16;
             o' \<leftarrow> o';
             out \<leftarrow> mem_wr 30 o' out;
             if ret \<noteq> OPRT_OK then Some (ret, Some out, None, st)
             else do {
               out \<leftarrow> mem_wr (30 + olen) tag out;
               out \<leftarrow> mem_wr (46 + olen) LPV35_FRAME_TAIL out;
               Some (OPRT_OK, Some out, Some (50 + olen), st) } })
      | _ \<Rightarrow> Some (OPRT_INVALID_PARM, output, None, st))"

text \<open>
  The second half of the parser, with the length field at hand: nonce, cipher text and tag.
  The offset of the tag is computed in 32 bits.
\<close>

definition lpv35_frame_open ::
  "proto_env \<Rightarrow> bytes \<Rightarrow> nat \<Rightarrow> bytes \<Rightarrow> u32 \<Rightarrow> lpv35_frame_object \<Rightarrow> (operate_ret \<times> lpv35_frame_object) option" where
  "lpv35_frame_open env key key_len input len obj = do {
     nonce \<leftarrow> mem_rd 18 12 input;
     (let obj = obj\<lparr> fo_data_len := len - 12 - 16 \<rparr> in do {
      tag \<leftarrow> mem_rd (unat (30 + fo_data_len obj)) 16 input;
      ad \<leftarrow> mem_rd 4 14 input;
      if \<not> pe_alloc env (unat (fo_data_len obj + 1)) then Some (OPRT_MALLOC_FAILED, obj\<lparr> fo_data := None \<rparr>)
      else do {
        d \<leftarrow> mem_rd 30 (unat (fo_data_len obj)) input;
        (ret, o', olen) \<leftarrow> mbedtls_cipher_auth_decrypt_wrapper (pe_cipher env) (pe_alloc env)
          (Some \<lparr> cip_key = key, cip_key_len = key_len, cip_nonce = nonce, cip_ad = ad, cip_data = d \<rparr>)
          (Some (replicate (unat (fo_data_len obj + 1)) 0)) 0 tag 16;
        if ret \<noteq> OPRT_OK then Some (ret, obj\<lparr> fo_data := None \<rparr>)
        else Some (ret, obj\<lparr> fo_data := o', fo_data_len := of_nat olen \<rparr>) } }) }"

definition lpv35_frame_parse ::
  "proto_env \<Rightarrow> bytes option \<Rightarrow> nat \<Rightarrow> bytes option \<Rightarrow> nat \<Rightarrow> lpv35_frame_object option \<Rightarrow> (operate_ret \<times> lpv35_frame_object option) option" where
  "lpv35_frame_parse env key key_len input ilen output =
     (case (key, input, output) of
        (Some key, Some input, Some obj) \<Rightarrow>
          if key_len = 0 \<or> ilen = 0 then Some (OPRT_INVALID_PARM, output)
          else do {
            h \<leftarrow> mem_rd 0 4 input;
            if h \<noteq> LPV35_FRAME_HEAD then Some (OPRT_VERSION_FMT_ERR, output)
            else if ilen < 4 then None
            else do {
              t \<leftarrow> mem_rd (ilen - 4) 4 input;
              if t \<noteq> LPV35_FRAME_TAIL then Some (OPRT_VERSION_FMT_ERR, output)
              else do {
                s \<leftarrow> mem_rd 6 4 input;
                ty \<leftarrow> mem_rd 10 4 input;
                l \<leftarrow> mem_rd 14 4 input;
                (let obj = obj\<lparr> fo_sequence := pe_htonl env (le32_of s), fo_type := pe_htonl env (le32_of ty) \<rparr>;
                     len = pe_htonl env (le32_of l) in
                 if len \<noteq> of_nat ilen - 18 - 4 then Some (OPRT_COM_ERROR, Some obj)
                 else map_option (\<lambda>(rt, obj). (rt, Some obj)) (lpv35_frame_open env key key_len input len obj)) } } }
      | _ \<Rightarrow> Some (OPRT_INVALID_PARM, output))"

section \<open>LAN frames: round trip\<close>

definition lpv35_bytes :: "u32 \<Rightarrow> u32 \<Rightarrow> bytes \<Rightarrow> bytes \<Rightarrow> bytes \<Rightarrow> bytes" where
  "lpv35_bytes s ty nonce c t = LPV35_FRAME_HEAD @ ([0, 0] @ be32 s @ be32 ty @ be32 (12 + of_nat (length c) + 16)) @ nonce @ c @ t @ LPV35_FRAME_TAIL"

lemma length_frame_nonce [simp]: "length (frame_nonce env k) = 12"
  by (simp add: frame_nonce_def)

lemma length_frame_ends [simp]: "length LPV35_FRAME_HEAD = 4" "length LPV35_FRAME_TAIL = 4"
  by (simp_all add: LPV35_FRAME_HEAD_def LPV35_FRAME_TAIL_def)

lemma additional_data_eq: "net_order htonl \<Longrightarrow>
    additional_data htonl obj = [0, 0] @ be32 (fo_sequence obj) @ be32 (fo_type obj) @ be32 (12 + fo_data_len obj + 16)"
  by (simp add: additional_data_def net_order_le32)

lemma length_additional_data [simp]: "length (additional_data htonl obj) = 14"
  by (simp add: additional_data_def)

lemma lpv35_serialize_bytes:
  assumes env: "gcm_laws (pe_cipher env)" "net_order (pe_htonl env)" "\<And>n. pe_alloc env n" and key: "16 \<le> length key"
    and d: "fo_data obj = Some d" "length d = unat (fo_data_len obj)" and out: "50 + length d \<le> length out"
  shows "\<exists>c t nonce. length c = length d \<and> length t = 16 \<and> length nonce = 12 \<and>
    mc_auth_decrypt (pe_cipher env) (take 16 key) nonce ([0, 0] @ be32 (fo_sequence obj) @ be32 (fo_type obj) @ be32 (12 + fo_data_len obj + 16))
      (c @ t) 16 = (0, d) \<and>
    lpv35_frame_serialize env st (Some key) 16 (Some obj) (Some out) = Some (OPRT_OK,
      Some (lpv35_bytes (fo_sequence obj) (fo_type obj) nonce c t @ drop (50 + length d) out), Some (50 + length d),
      st\<lparr> ps_rnd_no := ps_rnd_no st + 12 \<rparr>)"
proof -
  let ?nonce = "frame_nonce env (ps_rnd_no st)" and ?ad = "additional_data (pe_htonl env) obj"
  let ?p = "\<lparr> cip_key = key, cip_key_len = 16, cip_nonce = ?nonce, cip_ad = ?ad, cip_data = d \<rparr>"
  let ?pre = "LPV35_FRAME_HEAD @ ?ad @ ?nonce"
  have "length d \<le> length (drop 30 out)"
    using out by simp
  then obtain c t where c: "length c = length d" "length t = 16"
    "mc_auth_decrypt (pe_cipher env) (take 16 key) ?nonce ?ad (c @ t) 16 = (0, d)"
    "mbedtls_cipher_auth_encrypt_wrapper (pe_cipher env) (pe_alloc env) (Some ?p) (Some (drop 30 out)) 0 (replicate 16 0) 16 =
      Some (0, Some (c @ drop (length d) (drop 30 out)), length d, t)"
    using gcm_encrypt_ok [of "pe_cipher env" "pe_alloc env" ?p "drop 30 out" "replicate 16 0" 0] env(1,3) key out by auto
  have w: "mem_wr 0 LPV35_FRAME_HEAD out = Some (LPV35_FRAME_HEAD @ drop 4 out)"
    "mem_wr 4 ?ad (LPV35_FRAME_HEAD @ drop 4 out) = Some (LPV35_FRAME_HEAD @ ?ad @ drop 18 out)"
    "mem_wr 18 ?nonce (LPV35_FRAME_HEAD @ ?ad @ drop 18 out) = Some (?pre @ drop 30 out)"
    "mem_wr 30 (c @ drop (length d) (drop 30 out)) (?pre @ drop 30 out) = Some (?pre @ c @ drop (30 + length d) out)"
    "mem_wr (30 + length d) t (?pre @ c @ drop (30 + length d) out) = Some (?pre @ c @ t @ drop (46 + length d) out)"
    "mem_wr (46 + length d) LPV35_FRAME_TAIL (?pre @ c @ t @ drop (46 + length d) out) =
      Some (?pre @ c @ t @ LPV35_FRAME_TAIL @ drop (50 + length d) out)"
    using c(1,2) out by (simp_all add: mem_wr_def add.commute)
  have "mem_rd 0 (unat (fo_data_len obj)) d = Some d"
    using d(2) by (simp add: mem_rd_def)
  then have "lpv35_frame_serialize env st (Some key) 16 (Some obj) (Some out) = Some (OPRT_OK,
      Some (?pre @ c @ t @ LPV35_FRAME_TAIL @ drop (50 + length d) out), Some (50 + length d), st\<lparr> ps_rnd_no := ps_rnd_no st + 12 \<rparr>)"
    using w c(4) d(1) by (simp add: lpv35_frame_serialize_def Let_def)
  then show ?thesis
    using c additional_data_eq [OF env(2), of obj] d(2)
    by (intro exI [of _ c] exI [of _ t] exI [of _ ?nonce]) (simp add: lpv35_bytes_def)
qed

lemma lpv35_parse_bytes:
  assumes env: "gcm_laws (pe_cipher env)" "net_order (pe_htonl env)" "\<And>n. pe_alloc env n" and key: "16 \<le> length key"
    and len: "length c = length d" "length t = 16" "length nonce = 12" "length d + 50 < 2147483648"
    and dec: "mc_auth_decrypt (pe_cipher env) (take 16 key) nonce ([0, 0] @ be32 s @ be32 ty @ be32 (12 + of_nat (length d) + 16))
      (c @ t) 16 = (0, d)"
  shows "lpv35_frame_parse env (Some key) 16 (Some (lpv35_bytes s ty nonce c t)) (50 + length d) (Some obj) =
    Some (OPRT_OK, Some (obj\<lparr> fo_sequence := s, fo_type := ty, fo_data := Some (d @ [0]), fo_data_len := of_nat (length d) \<rparr>))"
proof -
  let ?l = "12 + of_nat (length d) + 16 :: u32"
  let ?f = "lpv35_bytes s ty nonce c t" and ?ad = "[0, 0] @ be32 s @ be32 ty @ be32 ?l"
  have f: "?f = LPV35_FRAME_HEAD @ ([0, 0] @ be32 s @ be32 ty @ be32 ?l) @ nonce @ c @ t @ LPV35_FRAME_TAIL"
    using len by (simp add: lpv35_bytes_def)
  have r: "mem_rd 0 4 ?f = Some LPV35_FRAME_HEAD"
    "mem_rd (46 + length d) 4 ?f = Some LPV35_FRAME_TAIL"
    "mem_rd 6 4 ?f = Some (be32 s)" "mem_rd 10 4 ?f = Some (be32 ty)" "mem_rd 14 4 ?f = Some (be32 ?l)"
    "mem_rd 18 12 ?f = Some nonce" "mem_rd (30 + length d) 16 ?f = Some t" "mem_rd 4 14 ?f = Some ?ad"
    "mem_rd 30 (length d) ?f = Some c"
    using mem_rd_mid [of "[]" 0 LPV35_FRAME_HEAD 4] mem_rd_mid [of "LPV35_FRAME_HEAD @ ?ad @ nonce @ c @ t" _ LPV35_FRAME_TAIL 4 "[]"]
      mem_rd_mid [of "LPV35_FRAME_HEAD @ [0, 0]" 6 "be32 s" 4] mem_rd_mid [of "LPV35_FRAME_HEAD @ [0, 0] @ be32 s" 10 "be32 ty" 4]
      mem_rd_mid [of "LPV35_FRAME_HEAD @ [0, 0] @ be32 s @ be32 ty" 14 "be32 ?l" 4] mem_rd_mid [of "LPV35_FRAME_HEAD @ ?ad" 18 nonce 12]
      mem_rd_mid [of "LPV35_FRAME_HEAD @ ?ad @ nonce @ c" _ t 16] mem_rd_mid [of LPV35_FRAME_HEAD 4 ?ad 14]
      mem_rd_mid [of "LPV35_FRAME_HEAD @ ?ad @ nonce" 30 c] len
    unfolding f by (simp_all add: add.commute)
  have u: "unat (of_nat (length d) :: u32) = length d" "unat (30 + of_nat (length d) :: u32) = 30 + length d"
    "unat (of_nat (length d) + 1 :: u32) = length d + 1"
    using len(4) by (simp_all add: unat_word_ariths unat_of_nat)
  let ?p = "\<lparr> cip_key = key, cip_key_len = 16, cip_nonce = nonce, cip_ad = ?ad, cip_data = c \<rparr>"
  have "mbedtls_cipher_auth_decrypt_wrapper (pe_cipher env) (pe_alloc env) (Some ?p) (Some (replicate (length d + 1) 0)) 0 t 16 =
      Some (0, Some (d @ [0]), length d)"
    using gcm_decrypt_ok [of "pe_cipher env" "pe_alloc env" ?p t d "replicate (length d + 1) 0" 0] env key dec len
    by (simp del: replicate_Suc) simp
  moreover have "?l - 12 - 16 = of_nat (length d)" "?l = of_nat (50 + length d) - 18 - 4"
    by simp_all
  ultimately show ?thesis
    using r env(3) u net_order_be32 [OF env(2)]
    by (simp add: lpv35_frame_parse_def lpv35_frame_open_def Let_def)
qed

text \<open>
  C11: LAN frames round trip.  A frame object serialised with a 16 byte key into a buffer of the announced
  size or more fills exactly that size, and parsing those bytes with the same key gives the same sequence
  number, type and data, the data followed by a terminator.
\<close>

theorem lpv35_frame_roundtrip:
  assumes env: "gcm_laws (pe_cipher env)" "net_order (pe_htonl env)" "\<And>n. pe_alloc env n" and key: "16 \<le> length key"
    and d: "fo_data obj = Some d" "length d = unat (fo_data_len obj)" "length d + 50 < 2147483648"
    and out: "unat (lpv35_frame_buffer_size_get obj) \<le> length out"
  shows "\<exists>f st'. let n = unat (lpv35_frame_buffer_size_get obj) in
    lpv35_frame_serialize env st (Some key) 16 (Some obj) (Some out) = Some (OPRT_OK, Some (f @ drop n out), Some n, st') \<and>
    length f = n \<and>
    lpv35_frame_parse env (Some key) 16 (Some f) n (Some obj') = Some (OPRT_OK, Some (obj\<lparr> fo_data := Some (d @ [0]) \<rparr>))"
proof -
  have n: "unat (lpv35_frame_buffer_size_get obj) = 50 + length d"
    using d by (simp add: lpv35_frame_buffer_size_get_def unat_word_ariths)
  have l: "of_nat (length d) = fo_data_len obj"
    using d(2) by simp
  obtain c t nonce where c: "length c = length d" "length t = 16" "length nonce = 12"
    "mc_auth_decrypt (pe_cipher env) (take 16 key) nonce ([0, 0] @ be32 (fo_sequence obj) @ be32 (fo_type obj) @ be32 (12 + fo_data_len obj + 16))
      (c @ t) 16 = (0, d)"
    "lpv35_frame_serialize env st (Some key) 16 (Some obj) (Some out) = Some (OPRT_OK,
      Some (lpv35_bytes (fo_sequence obj) (fo_type obj) nonce c t @ drop (50 + length d) out), Some (50 + length d),
      st\<lparr> ps_rnd_no := ps_rnd_no st + 12 \<rparr>)"
    using lpv35_serialize_bytes [OF env key d(1,2) out [unfolded n], of st] by blast
  moreover have "lpv35_frame_parse env (Some key) 16 (Some (lpv35_bytes (fo_sequence obj) (fo_type obj) nonce c t)) (50 + length d) (Some obj') =
      Some (OPRT_OK, Some (obj'\<lparr> fo_sequence := fo_sequence obj, fo_type := fo_type obj, fo_data := Some (d @ [0]), fo_data_len := of_nat (length d) \<rparr>))"
    by (rule lpv35_parse_bytes [OF env key c(1,2,3) d(3)]) (simp only: l c(4))
  moreover have "obj'\<lparr> fo_sequence := fo_sequence obj, fo_type := fo_type obj, fo_data := Some (d @ [0]), fo_data_len := of_nat (length d) \<rparr> =
      obj\<lparr> fo_data := Some (d @ [0]) \<rparr>"
    unfolding l by (cases obj; cases obj') simp
  moreover have "length (lpv35_bytes (fo_sequence obj) (fo_type obj) nonce c t) = 50 + length d"
    using c by (simp add: lpv35_bytes_def)
  ultimately show ?thesis
    by (auto simp: n Let_def)
qed


theorem lpv35_frame_roundtrip_witness:
  "\<exists>f st'. lpv35_frame_serialize \<lparr> pe_cipher = toy_gcm, pe_rnd = (\<lambda>i n. replicate n (of_nat i)), pe_htonl = swap32,
        pe_alloc = (\<lambda>_. True), pe_junk = (\<lambda>n. replicate n 0), pe_time = 0 \<rparr> \<lparr> ps_serial_no = 0, ps_rnd_no = 0 \<rparr>
        (Some (replicate 16 1)) 16 (Some \<lparr> fo_sequence = 7, fo_type = 16, fo_data = Some [1, 2, 3], fo_data_len = 3 \<rparr>) (Some (replicate 60 0)) =
      Some (OPRT_OK, Some (f @ replicate 7 0), Some 53, st') \<and>
    lpv35_frame_parse \<lparr> pe_cipher = toy_gcm, pe_rnd = (\<lambda>i n. replicate n (of_nat i)), pe_htonl = swap32,
        pe_alloc = (\<lambda>_. True), pe_junk = (\<lambda>n. replicate n 0), pe_time = 0 \<rparr>
        (Some (replicate 16 1)) 16 (Some f) 53 (Some \<lparr> fo_sequence = 0, fo_type = 0, fo_data = None, fo_data_len = 0 \<rparr>) =
      Some (OPRT_OK, Some \<lparr> fo_sequence = 7, fo_type = 16, fo_data = Some [1, 2, 3, 0], fo_data_len = 3 \<rparr>)"
  using lpv35_frame_roundtrip [of "\<lparr> pe_cipher = toy_gcm, pe_rnd = (\<lambda>i n. replicate n (of_nat i)), pe_htonl = swap32,
        pe_alloc = (\<lambda>_. True), pe_junk = (\<lambda>n. replicate n 0), pe_time = 0 \<rparr>" "replicate 16 1"
      "\<lparr> fo_sequence = 7, fo_type = 16, fo_data = Some [1, 2, 3], fo_data_len = 3 \<rparr>" "[1, 2, 3]" "replicate 60 0"
      "\<lparr> ps_serial_no = 0, ps_rnd_no = 0 \<rparr>" "\<lparr> fo_sequence = 0, fo_type = 0, fo_data = None, fo_data_len = 0 \<rparr>"]
    toy_gcm_laws swap32_net_order
  by (auto simp: lpv35_frame_buffer_size_get_def)


section \<open>Messages: round trip\<close>

lemma cstr_literals:
  "length (cstr ''{\"protocol\":'') = 12" "length (cstr '',\"t\":'') = 5" "length (cstr '',\"data\":'') = 8"
  "0 \<notin> set (cstr ''{\"protocol\":'')" "0 \<notin> set (cstr '',\"t\":'')" "0 \<notin> set (cstr '',\"data\":'')"
  by code_simp+

lemma proto_text_length: "length (proto_text pro t src) \<le> length src + 47"
  using length_dec_int [of pro] length_dec_int [of t] by (simp add: proto_text_def cstr_literals)

lemma zero_notin_proto_text: "0 \<notin> set src \<Longrightarrow> 0 \<notin> set (proto_text pro t src)"
  by (simp add: proto_text_def cstr_literals zero_notin_dec_int)

text \<open>The 60 bytes reserved for the text around the data are enough for every number.\<close>

lemma make_json_ok:
  assumes "0 \<notin> set src" "length out = length src + 60"
  shows "\<exists>out'. make_json out pro t src = Some (out', length (proto_text pro t src) + 1) \<and>
    take (length (proto_text pro t src) + 1) out' = proto_text pro t src @ [0x7D] \<and> cstring out' = proto_text pro t src @ [0x7D]"
proof -
  let ?t = "proto_text pro t src"
  have l: "length ?t + 2 \<le> length out"
    using proto_text_length [of pro t src] assms(2) by simp
  let ?o = "?t @ [0x7D, 0] @ drop (length ?t + 2) out"
  have "make_json out pro t src = Some (?o, length ?t + 1)"
    using l by (simp add: make_json_def Let_def cstring_id assms(1) mem_wr_def)
  moreover have "cstring ?o = ?t @ [0x7D]"
    using cstring_id(2) [of "?t @ [0x7D]"] zero_notin_proto_text [OF assms(1), of pro t] by simp
  ultimately show ?thesis
    by (intro exI [of _ ?o]) simp
qed

lemma pv_literals: "length TUYA_PV23 = 3" "length TUYA_LPV35 = 3"
  by code_simp+

lemma pack_lpv35_ok:
  assumes src: "0 \<notin> set src" and env: "\<And>n. pe_alloc env n" "\<And>n. length (pe_junk env n) = n"
    and J: "J = proto_text pro (pe_time env) src @ [0x7D]"
  shows "\<exists>h. length h = 15 \<and> pack_data_with_cmd_lpv35 env st TUYA_LPV35 src pro num =
    Some (OPRT_OK, Some (h @ J @ replicate 16 0, of_nat (15 + length J)), st)"
proof -
  let ?h = "TUYA_LPV35 @ le32 (pe_htonl env 0) @ le32 (pe_htonl env num) @ le32 (pe_htonl env 1)"
  obtain out where o: "make_json (pe_junk env (length src + 60)) pro (pe_time env) src = Some (out, length J)" "take (length J) out = J"
    "cstring out = J"
    using make_json_ok [OF src env(2)] unfolding J by auto
  have "length J \<le> length out"
    using o(3) length_takeWhile_le [of "\<lambda>c. c \<noteq> 0" out] by (simp add: cstring_def)
  then have rd: "mem_rd 0 (length J) out = Some J"
    using o(2) by (simp add: mem_rd_def)
  let ?z = "replicate (length J + 31) (0 :: u8)"
  have w: "mem_wr 15 J ?z = Some (replicate 15 0 @ J @ replicate 16 0)"
    "mem_wr 0 TUYA_LPV35 (replicate 15 0 @ J @ replicate 16 0) = Some (TUYA_LPV35 @ replicate 12 0 @ J @ replicate 16 0)"
    "mem_wr 3 (le32 (pe_htonl env 0)) (TUYA_LPV35 @ replicate 12 0 @ J @ replicate 16 0) =
      Some (TUYA_LPV35 @ le32 (pe_htonl env 0) @ replicate 8 0 @ J @ replicate 16 0)"
    "mem_wr 7 (le32 (pe_htonl env num)) (TUYA_LPV35 @ le32 (pe_htonl env 0) @ replicate 8 0 @ J @ replicate 16 0) =
      Some (TUYA_LPV35 @ le32 (pe_htonl env 0) @ le32 (pe_htonl env num) @ replicate 4 0 @ J @ replicate 16 0)"
    "mem_wr 11 (le32 (pe_htonl env 1)) (TUYA_LPV35 @ le32 (pe_htonl env 0) @ le32 (pe_htonl env num) @ replicate 4 0 @ J @ replicate 16 0) =
      Some (?h @ J @ replicate 16 0)"
    by (simp_all add: mem_wr_def pv_literals)
  have "mem_rd 0 3 TUYA_LPV35 = Some TUYA_LPV35"
    by (simp add: mem_rd_def pv_literals)
  then have "pack_data_with_cmd_lpv35 env st TUYA_LPV35 src pro num = Some (OPRT_OK, Some (?h @ J @ replicate 16 0, of_nat (15 + length J)), st)"
    using env(1) o(1) rd w by (simp add: pack_data_with_cmd_lpv35_def Let_def cstring_id src add.commute [of _ "length J"])
  then show ?thesis
    by (intro exI [of _ ?h]) (simp add: pv_literals)
qed

lemma parse_lpv35_ok:
  assumes h: "length h = 15" and env: "\<And>n. pe_alloc env n" "\<And>n. length (pe_junk env n) = n" and J: "length J + 16 < 4294967296"
  shows "parse_data_with_lpv35 env (h @ J @ rest) (of_nat (15 + length J)) = Some (OPRT_OK, Some (J @ [0]))"
proof -
  have u: "(of_nat (15 + length J) - 15 :: u32) = of_nat (length J)" "unat (of_nat (length J) :: u32) = length J"
    "unat (of_nat (length J) + 1 :: u32) = length J + 1"
    using J by (simp_all add: unat_of_nat unat_word_ariths)
  have "mem_rd 15 (length J) (h @ J @ rest) = Some J" "\<exists>x. mem_rd 0 3 (h @ J @ rest) = Some x" "\<exists>x. mem_rd 7 4 (h @ J @ rest) = Some x"
    "\<exists>x. mem_rd 11 4 (h @ J @ rest) = Some x"
    using h by (simp_all add: mem_rd_def)
  moreover have "mem_wr 0 J (pe_junk env (length J + 1)) = Some (J @ drop (length J) (pe_junk env (length J + 1)))"
    "mem_wr (length J) [0] (J @ drop (length J) (pe_junk env (length J + 1))) = Some (J @ [0])"
    using env(2) by (simp_all add: mem_wr_def)
  ultimately show ?thesis
    using env(1) u by (auto simp: parse_data_with_lpv35_def Let_def)
qed

lemma pack_pv23_ok:
  assumes src: "0 \<notin> set src" and env: "gcm_laws (pe_cipher env)" "\<And>n. pe_alloc env n" "\<And>n. length (pe_junk env n) = n"
    and key: "16 \<le> length key" and J: "J = proto_text pro (pe_time env) src @ [0x7D]"
  shows "\<exists>s nonce c t. length s = 8 \<and> length nonce = 12 \<and> length c = length J \<and> length t = 16 \<and>
    mc_auth_decrypt (pe_cipher env) (take 16 key) nonce (TUYA_PV23 @ s @ [0]) (c @ t) 16 = (0, J) \<and>
    pack_data_with_cmd_pv23 env st TUYA_PV23 src pro num key =
      Some (OPRT_OK, Some ((TUYA_PV23 @ s @ [0]) @ nonce @ c @ t, 40 + of_nat (length J)), st\<lparr> ps_rnd_no := ps_rnd_no st + 12 \<rparr>)"
proof -
  let ?s = "le32 (pe_htonl env num) @ le32 (pe_htonl env 1)"
  let ?ad = "TUYA_PV23 @ ?s @ [0]"
  obtain out where o: "make_json (pe_junk env (length src + 60)) pro (pe_time env) src = Some (out, length J)" "cstring out = J"
    using make_json_ok [OF src env(3)] unfolding J by auto
  let ?z = "replicate (length J + 40) (0 :: u8)"
  have w: "mem_wr 0 TUYA_PV23 ?z = Some (TUYA_PV23 @ replicate (length J + 37) 0)"
    "mem_wr 3 (le32 (pe_htonl env num)) (TUYA_PV23 @ replicate (length J + 37) 0) =
      Some (TUYA_PV23 @ le32 (pe_htonl env num) @ replicate (length J + 33) 0)"
    "mem_wr 7 (le32 (pe_htonl env 1)) (TUYA_PV23 @ le32 (pe_htonl env num) @ replicate (length J + 33) 0) =
      Some (TUYA_PV23 @ ?s @ replicate (length J + 29) 0)"
    "mem_wr 11 [0] (TUYA_PV23 @ ?s @ replicate (length J + 29) 0) = Some (?ad @ replicate (length J + 28) 0)"
    by (simp_all add: mem_wr_def pv_literals)
  obtain nonce where n: "uni_random_string (pe_rnd env) (ps_rnd_no st) 12 (replicate (length J + 28) 0) = Some (nonce @ replicate (length J + 16) 0)"
    "length nonce = 12"
    using uni_random_string_hex_buf [of 12 "replicate (length J + 28) 0" "pe_rnd env" "ps_rnd_no st"] by auto
  let ?p = "\<lparr> cip_key = key, cip_key_len = 16, cip_nonce = nonce, cip_ad = ?ad, cip_data = J \<rparr>"
  let ?b = "?ad @ nonce @ replicate (length J + 16) 0"
  have "length (cip_data ?p) \<le> length (replicate (length J + 16) (0 :: u8))"
    by simp
  then obtain c t where c: "length c = length J" "length t = 16"
    "mc_auth_decrypt (pe_cipher env) (take 16 key) nonce ?ad (c @ t) 16 = (0, J)"
    "mbedtls_cipher_auth_encrypt_wrapper (pe_cipher env) (pe_alloc env) (Some ?p) (Some (replicate (length J + 16) 0)) 0 (replicate 16 0) 16 =
      Some (0, Some (c @ replicate 16 0), length J, t)"
    using gcm_encrypt_ok [of "pe_cipher env" "pe_alloc env" ?p "replicate (length J + 16) 0" "replicate 16 0" 0] env key by auto
  have r: "mem_rd 0 3 TUYA_PV23 = Some TUYA_PV23" "mem_rd 12 12 ?b = Some nonce" "mem_rd 0 12 ?b = Some ?ad"
    "mem_rd (24 + length J) 16 ?b = Some (replicate 16 0)" "drop 24 ?b = replicate (length J + 16) 0"
    "drop 12 (?ad @ replicate (length J + 28) 0) = replicate (length J + 28) 0" "take 12 (?ad @ replicate (length J + 28) 0) = ?ad"
    "mem_wr 24 (c @ replicate 16 0) ?b = Some (?ad @ nonce @ c @ replicate 16 0)"
    "mem_wr (24 + length J) t (?ad @ nonce @ c @ replicate 16 0) = Some (?ad @ nonce @ c @ t)"
    using n(2) c(1,2) by (simp_all add: mem_rd_def mem_wr_def pv_literals take_Cons' drop_Cons')
  have "pack_data_with_cmd_pv23 env st TUYA_PV23 src pro num key =
      Some (OPRT_OK, Some (?ad @ nonce @ c @ t, 40 + of_nat (length J)), st\<lparr> ps_rnd_no := ps_rnd_no st + 12 \<rparr>)"
    using env(2) o w n r c(4)
    by (simp add: pack_data_with_cmd_pv23_def Let_def cstring_id src del: replicate_add append_assoc) 
  then show ?thesis
    using c n(2) by (intro exI [of _ ?s] exI [of _ nonce] exI [of _ c] exI [of _ t]) simp
qed

lemma parse_pv23_ok:
  assumes len: "length s = 8" "length nonce = 12" "length c = length J" "length t = 16" "length J + 41 < 4294967296"
    and env: "gcm_laws (pe_cipher env)" "\<And>n. pe_alloc env n" "\<And>n. length (pe_junk env n) = n" and key: "16 \<le> length key"
    and dec: "mc_auth_decrypt (pe_cipher env) (take 16 key) nonce (TUYA_PV23 @ s @ [0]) (c @ t) 16 = (0, J)"
  shows "parse_data_with_pv23 env ((TUYA_PV23 @ s @ [0]) @ nonce @ c @ t) (40 + of_nat (length J)) key = Some (OPRT_OK, Some (J @ [0]))"
proof -
  let ?ad = "TUYA_PV23 @ s @ [0]" and ?p = "\<lparr> cip_key = key, cip_key_len = 16, cip_nonce = nonce, cip_ad = TUYA_PV23 @ s @ [0], cip_data = c \<rparr>"
  let ?b = "?ad @ nonce @ c @ t"
  have u: "(40 + of_nat (length J) - 40 :: u32) = of_nat (length J)" "unat (of_nat (length J) :: u32) = length J"
    "unat (of_nat (length J) + 1 :: u32) = length J + 1" "unat (40 + of_nat (length J) - 16 :: u32) = 24 + length J"
    using len(5) by (simp_all add: unat_of_nat unat_word_ariths)
  have r: "mem_rd 0 3 ?b = Some TUYA_PV23" "\<exists>x. mem_rd 3 4 ?b = Some x" "\<exists>x. mem_rd 7 4 ?b = Some x" "rd ?b 11 = Some 0"
    "mem_rd 12 12 ?b = Some nonce" "mem_rd 0 12 ?b = Some ?ad" "mem_rd 24 (length J) ?b = Some c" "mem_rd (24 + length J) 16 ?b = Some t"
    using len by (simp_all add: mem_rd_def rd_def pv_literals nth_append take_Cons' drop_Cons')
  let ?j = "pe_junk env (length J + 1)"
  have "mbedtls_cipher_auth_decrypt_wrapper (pe_cipher env) (pe_alloc env) (Some ?p) (Some ?j) 0 t 16 =
      Some (0, Some (J @ drop (length J) ?j), length J)"
    using gcm_decrypt_ok [of "pe_cipher env" "pe_alloc env" ?p t J ?j 0] env key dec len by simp
  moreover have "mem_wr (length J) [0] (J @ drop (length J) ?j) = Some (J @ [0])"
    using env(3) by (simp add: mem_wr_def)
  ultimately show ?thesis
    using r u env(2) by (auto simp: parse_data_with_pv23_def Let_def)
qed

text \<open>
  C12: messages round trip.  A message packed for the local network or for the broker, of any protocol number
  and data text, is parsed back by the same command to the JSON text that carries the protocol number,
  the time and the data; packing never overruns the buffer reserved for that text.
\<close>

theorem protocol_data_roundtrip:
  assumes src: "0 \<notin> set src" "length src < 1000000000" and cmd: "cmd = DP_CMD_LAN \<or> cmd = DP_CMD_MQ"
    and env: "gcm_laws (pe_cipher env)" "\<And>n. pe_alloc env n" "\<And>n. length (pe_junk env n) = n" and key: "16 \<le> length key"
  shows "\<exists>buf n st'. tuya_pack_protocol_data env st cmd (Some src) pro key = Some (OPRT_OK, Some (buf, n), st') \<and>
    tuya_parse_protocol_data env cmd (Some buf) n key = Some (OPRT_OK, Some (proto_text pro (pe_time env) src @ cstr ''}'' @ [0]))"
proof -
  define J where "J = proto_text pro (pe_time env) src @ [0x7D]"
  have J: "length J < 1000000048" "proto_text pro (pe_time env) src @ cstr ''}'' @ [0] = J @ [0]"
    using proto_text_length [of pro "pe_time env" src] src(2) by (simp_all add: J_def cstr_def)
  have n: "\<not> (40 + of_nat (length J) :: u32) < 15" "\<not> (of_nat (15 + length J) :: u32) < 15"
    using J(1) by (simp_all add: word_less_nat_alt unat_of_nat unat_word_ariths)
  obtain num st1 where st1: "tuya_pack_protocol_serial_no env st = (num, st1)"
    by force
  show ?thesis
    using cmd
  proof
    assume c: "cmd = DP_CMD_LAN"
    obtain h where h: "length h = 15" "pack_data_with_cmd_lpv35 env st1 TUYA_LPV35 src pro num =
        Some (OPRT_OK, Some (h @ J @ replicate 16 0, of_nat (15 + length J)), st1)"
      using pack_lpv35_ok [OF src(1) env(2,3) J_def] by blast
    moreover have "parse_data_with_lpv35 env (h @ J @ replicate 16 0) (of_nat (15 + length J)) = Some (OPRT_OK, Some (J @ [0]))"
      using parse_lpv35_ok [OF h(1) env(2,3)] J(1) by simp
    ultimately show ?thesis
      using c st1 n(2) unfolding J(2) by (simp add: tuya_pack_protocol_data_def tuya_parse_protocol_data_def del: of_nat_add)
  next
    assume c: "cmd = DP_CMD_MQ"
    obtain s nonce e t where e: "length s = 8" "length nonce = 12" "length e = length J" "length t = 16"
      "mc_auth_decrypt (pe_cipher env) (take 16 key) nonce (TUYA_PV23 @ s @ [0]) (e @ t) 16 = (0, J)"
      "pack_data_with_cmd_pv23 env st1 TUYA_PV23 src pro num key =
        Some (OPRT_OK, Some ((TUYA_PV23 @ s @ [0]) @ nonce @ e @ t, 40 + of_nat (length J)), st1\<lparr> ps_rnd_no := ps_rnd_no st1 + 12 \<rparr>)"
      using pack_pv23_ok [OF src(1) env key J_def] by blast
    moreover have "parse_data_with_pv23 env ((TUYA_PV23 @ s @ [0]) @ nonce @ e @ t) (40 + of_nat (length J)) key = Some (OPRT_OK, Some (J @ [0]))"
      using J(1) by (intro parse_pv23_ok e env key) simp
    ultimately show ?thesis
      using c st1 n(1) unfolding J(2) by (simp add: tuya_pack_protocol_data_def tuya_parse_protocol_data_def)
  qed
qed

theorem protocol_data_roundtrip_witness:
  "let env = \<lparr> pe_cipher = toy_gcm, pe_rnd = (\<lambda>i n. replicate n (of_nat i)), pe_htonl = swap32,
        pe_alloc = (\<lambda>_. True), pe_junk = (\<lambda>n. replicate n 0), pe_time = 0 \<rparr> in
   \<exists>buf n st'. tuya_pack_protocol_data env \<lparr> ps_serial_no = 0, ps_rnd_no = 0 \<rparr> DP_CMD_MQ (Some [0x7B, 0x7D]) 4 (replicate 16 1) =
      Some (OPRT_OK, Some (buf, n), st') \<and>
    tuya_parse_protocol_data env DP_CMD_MQ (Some buf) n (replicate 16 1) =
      Some (OPRT_OK, Some (proto_text 4 0 [0x7B, 0x7D] @ cstr ''}'' @ [0]))"
  unfolding Let_def
  using protocol_data_roundtrip [of "[0x7B, 0x7D]" DP_CMD_MQ "\<lparr> pe_cipher = toy_gcm, pe_rnd = (\<lambda>i n. replicate n (of_nat i)), pe_htonl = swap32,
        pe_alloc = (\<lambda>_. True), pe_junk = (\<lambda>n. replicate n 0), pe_time = 0 \<rparr>" "replicate 16 1" "\<lparr> ps_serial_no = 0, ps_rnd_no = 0 \<rparr>" 4]
    toy_gcm_laws
  by simp

end
