(* ===== verification/TimeService.thy ===== *)
theory TimeService
  imports Prelude
begin

text \<open>
  The time service, \<^verbatim>\<open>src/src/tal_system/src/tal_time_serivce.c\<close>: calendar conversions, the clock that runs on
  the millisecond counter of the system, time zone and summer time.

  \<^verbatim>\<open>TIME_T\<close> and \<^verbatim>\<open>SYS_TIME_T\<close> are unsigned types of the platform; their values are integers here, and the
  theorems about conversions bound them below \<^verbatim>\<open>2^32\<close>, where every width of 32 bits or more agrees.
  The millisecond counter is a function \<open>clk\<close> of the number of the call, kept in the state.  Table
  accesses outside a table are \<open>None\<close>.
\<close>

section \<open>Calendar\<close>

record posix_tm =
  tm_sec :: int
  tm_min :: int
  tm_hour :: int
  tm_mday :: int
  tm_mon :: int
  tm_year :: int
  tm_wday :: int

abbreviation (input) SEC_PER_DAY :: int where "SEC_PER_DAY \<equiv> 86400"
abbreviation (input) SEC_PER_HOUR :: int where "SEC_PER_HOUR \<equiv> 3600"

definition SEC_PER_YR :: "int list" where
  "SEC_PER_YR = [31536000, 31622400]"

definition SEC_PER_MT :: "int list list" where
  "SEC_PER_MT =
    [[2678400, 2419200, 2678400, 2592000, 2678400, 2592000, 2678400, 2678400, 2592000, 2678400, 2592000, 2678400],
     [2678400, 2505600, 2678400, 2592000, 2678400, 2592000, 2678400, 2678400, 2592000, 2678400, 2592000, 2678400]]"

definition is_leap :: "int \<Rightarrow> nat" where
  "is_leap yr = (if yr mod 100 = 0 then (if yr mod 400 = 0 then 1 else 0) else (if yr mod 4 = 0 then 1 else 0))"

definition is_valid_date_time :: "posix_tm \<Rightarrow> int" where
  "is_valid_date_time tm =
     (if tm_sec tm > 59 then - 1
      else if tm_min tm > 59 then - 1
      else if tm_hour tm > 23 then - 1
      else if tm_year tm + 1900 < 1970 \<or> tm_year tm + 1900 > 2111 then - 1
      else if tm_mon tm \<ge> 12 then - 1
      else if tm_mon tm = 1 \<and> is_leap (tm_year tm + 1900) = 0 \<and> tm_mday tm > 28 then - 1
      else if tm_mon tm = 1 \<and> is_leap (tm_year tm + 1900) \<noteq> 0 \<and> tm_mday tm > 29 then - 1
      else if (tm_mon tm = 3 \<or> tm_mon tm = 5 \<or> tm_mon tm = 8 \<or> tm_mon tm = 10) \<and> tm_mday tm > 30 then - 1
      else if tm_mday tm < 1 \<or> tm_mday tm > 31 then - 1
      else 0)"

text \<open>The year is a 16-bit parameter; \<open>yr\<close> is reduced after the decrement as the assignment does.\<close>

definition get_day_of_week :: "int \<Rightarrow> int \<Rightarrow> int \<Rightarrow> int option" where
  "get_day_of_week month day year =
     (let year = (year - (if month < 3 then 1 else 0)) mod 65536 in do {
      t \<leftarrow> rd [0, 3, 2, 5, 0, 3, 5, 1, 4, 6, 2, 4] (nat (month - 1));
      Some ((year + year div 4 - year div 100 + year div 400 + t + day) mod 7) })"

definition year_start :: "int \<Rightarrow> int" where
  "year_start year = foldl (\<lambda>t i. t + SEC_PER_YR ! is_leap i) 0 [1970..year - 1]"

definition tal_time_mktime :: "posix_tm option \<Rightarrow> int option" where
  "tal_time_mktime tm =
     (case tm of
        None \<Rightarrow> Some 0
      | Some tm \<Rightarrow>
        (let time = year_start (tm_year tm + 1900);
             leapyr = (if is_leap (tm_year tm + 1900) \<noteq> 0 then 1 else 0) in do {
         time \<leftarrow> for_loop 0 (nat (tm_mon tm)) (\<lambda>i time. do { s \<leftarrow> rd (SEC_PER_MT ! leapyr) i; Some (time + s) }) time;
         Some (time + (tm_mday tm - 1) * SEC_PER_DAY + tm_hour tm * SEC_PER_HOUR + tm_min tm * 60 + tm_sec tm) }))"

lemma SEC_PER_YR_leap: "SEC_PER_YR ! is_leap y = (if is_leap y = 0 then 31536000 else 31622400)"
  by (simp add: SEC_PER_YR_def is_leap_def)

function year_loop :: "int \<Rightarrow> int \<Rightarrow> int \<times> int" where
  "year_loop year ltm =
     (if ltm < SEC_PER_YR ! is_leap year then (year, ltm)
      else year_loop (year + 1) (ltm - SEC_PER_YR ! is_leap year))"
  by pat_completeness auto
termination
  by (relation "measure (\<lambda>(year, ltm). nat ltm)") (auto simp: SEC_PER_YR_leap split: if_splits)

function month_loop :: "int list \<Rightarrow> nat \<Rightarrow> int \<Rightarrow> (nat \<times> int) option" where
  "month_loop tbl mon ltm =
     (if mon < length tbl
      then if ltm < tbl ! mon then Some (mon, ltm) else month_loop tbl (mon + 1) (ltm - tbl ! mon)
      else None)"
  by pat_completeness auto
termination
  by (relation "measure (\<lambda>(tbl, mon, ltm). length tbl - mon)") auto

declare year_loop.simps [simp del] month_loop.simps [simp del]

definition tal_time_gmtime_r :: "int \<Rightarrow> posix_tm option" where
  "tal_time_gmtime_r tm =
     (let (year, ltm) = year_loop 1970 tm; leapyr = is_leap year in do {
      (mon, ltm) \<leftarrow> month_loop (SEC_PER_MT ! leapyr) 0 ltm;
      (let mday = ltm div SEC_PER_DAY + 1; ltm = ltm mod SEC_PER_DAY;
           hour = ltm div SEC_PER_HOUR; ltm = ltm mod SEC_PER_HOUR in do {
       wday \<leftarrow> get_day_of_week (int mon + 1) mday year;
       Some \<lparr> tm_sec = ltm mod 60, tm_min = ltm div 60, tm_hour = hour, tm_mday = mday, tm_mon = int mon,
              tm_year = year - 1900, tm_wday = wday \<rparr> }) })"

section \<open>The clock\<close>

type_synonym ms_clock = "nat \<Rightarrow> int"

record time_state =
  ts_mutex :: bool
  ts_last_ms :: int
  ts_tz_sync :: bool
  ts_tz :: int
  ts_sz_cnt :: nat
  ts_sz_zone :: "(int \<times> int) list"
  ts_cloud_sync :: bool
  ts_cloud_posix :: int
  ts_disable_update :: bool
  ts_sys_last_ms :: int
  ts_sys_roll_ms :: int
  ts_clk_no :: nat

definition get_millisecond :: "ms_clock \<Rightarrow> time_state \<Rightarrow> int \<times> time_state" where
  "get_millisecond clk st = (clk (ts_clk_no st), st\<lparr> ts_clk_no := ts_clk_no st + 1 \<rparr>)"

definition tal_time_service_init :: "ms_clock \<Rightarrow> operate_ret \<Rightarrow> time_state \<Rightarrow> operate_ret \<times> time_state" where
  "tal_time_service_init clk mutex st =
     (if ts_mutex st then (OPRT_OK, st)
      else if mutex \<noteq> OPRT_OK then (mutex, st)
      else
        (let (ms, st) = get_millisecond clk st in
         (OPRT_OK, st\<lparr> ts_mutex := True, ts_cloud_posix := 0, ts_last_ms := ms, ts_sz_cnt := 0, ts_sz_zone := replicate 6 (0, 0) \<rparr>)))"

definition tal_time_set_posix :: "ms_clock \<Rightarrow> int \<Rightarrow> int \<Rightarrow> time_state \<Rightarrow> operate_ret \<times> time_state" where
  "tal_time_set_posix clk time src st =
     (if ts_disable_update st then (OPRT_OK, st)
      else
        (let (ms, st) = get_millisecond clk st;
             st = st\<lparr> ts_cloud_posix := time, ts_last_ms := ms \<rparr>
         in (OPRT_OK, if src = 1 then st\<lparr> ts_cloud_sync := True \<rparr> else st)))"

definition tal_time_set :: "ms_clock \<Rightarrow> posix_tm \<Rightarrow> time_state \<Rightarrow> (operate_ret \<times> time_state) option" where
  "tal_time_set clk tm st =
     (if is_valid_date_time tm = 0 then map_option (\<lambda>time. tal_time_set_posix clk time 2 st) (tal_time_mktime (Some tm))
      else Some (OPRT_COM_ERROR, st))"

text \<open>The counter has 32 bits; a value below the remembered one means it has started over.\<close>

definition time_recycle :: "int \<Rightarrow> time_state \<Rightarrow> time_state" where
  "time_recycle ms st =
     (if ts_last_ms st > ms
      then st\<lparr> ts_cloud_posix := ts_cloud_posix st + (0x100000000 - ts_last_ms st) div 1000, ts_last_ms := 0 \<rparr> else st)"

definition tal_time_get_posix :: "ms_clock \<Rightarrow> time_state \<Rightarrow> int \<times> time_state" where
  "tal_time_get_posix clk st =
     (let (ms, st) = get_millisecond clk st; st = time_recycle ms st
      in (ts_cloud_posix st + (ms - ts_last_ms st) div 1000, st))"

definition tal_time_get_posix_ms :: "ms_clock \<Rightarrow> time_state \<Rightarrow> int \<times> time_state" where
  "tal_time_get_posix_ms clk st =
     (let (ms, st) = get_millisecond clk st; st = time_recycle ms st
      in (ts_cloud_posix st * 1000 + (ms - ts_last_ms st), st))"

definition tal_time_get_cur_posix :: "time_state \<Rightarrow> int" where
  "tal_time_get_cur_posix st = ts_cloud_posix st"

definition tal_time_check_time_sync :: "time_state \<Rightarrow> operate_ret" where
  "tal_time_check_time_sync st = (if \<not> ts_cloud_sync st then OPRT_COM_ERROR else OPRT_OK)"

definition tal_time_check_time_zone_sync :: "time_state \<Rightarrow> operate_ret" where
  "tal_time_check_time_zone_sync st = (if \<not> ts_tz_sync st then OPRT_COM_ERROR else OPRT_OK)"

definition tal_time_get :: "ms_clock \<Rightarrow> time_state \<Rightarrow> (operate_ret \<times> posix_tm \<times> time_state) option" where
  "tal_time_get clk st =
     (let (cur, st) = tal_time_get_posix clk st in map_option (\<lambda>tm. (OPRT_OK, tm, st)) (tal_time_gmtime_r cur))"

definition tal_time_get_system_time :: "ms_clock \<Rightarrow> time_state \<Rightarrow> (int \<times> int) \<times> time_state" where
  "tal_time_get_system_time clk st =
     (let (ms, st) = get_millisecond clk st;
          st = (if ts_sys_last_ms st > ms then st\<lparr> ts_sys_roll_ms := ts_sys_roll_ms st + 0x100000000 \<rparr> else st)
      in (((ms + ts_sys_roll_ms st) div 1000, (ms + ts_sys_roll_ms st) mod 1000), st\<lparr> ts_sys_last_ms := ms \<rparr>))"

definition tal_time_config_update :: "bool \<Rightarrow> time_state \<Rightarrow> operate_ret \<times> time_state" where
  "tal_time_config_update disable st = (OPRT_OK, st\<lparr> ts_disable_update := disable \<rparr>)"

section \<open>Zones\<close>

definition tal_time_is_in_sum_zone :: "int \<Rightarrow> time_state \<Rightarrow> bool" where
  "tal_time_is_in_sum_zone time st = list_ex (\<lambda>(lo, hi). time \<ge> lo \<and> time \<le> hi) (take (ts_sz_cnt st) (ts_sz_zone st))"

definition is_in_sum_zone :: "ms_clock \<Rightarrow> time_state \<Rightarrow> bool \<times> time_state" where
  "is_in_sum_zone clk st =
     (let (time, st) = tal_time_get_posix clk st; (time', st) = tal_time_get_posix clk st
      in (if time > time' then False else tal_time_is_in_sum_zone time st, st))"

definition tal_time_set_sum_zone_tbl :: "(int \<times> int) list option \<Rightarrow> nat \<Rightarrow> time_state \<Rightarrow> time_state option" where
  "tal_time_set_sum_zone_tbl zone cnt st =
     (case zone of
        None \<Rightarrow> Some (st\<lparr> ts_sz_cnt := 0 \<rparr>)
      | Some z \<Rightarrow>
        if cnt = 0 then Some (st\<lparr> ts_sz_cnt := 0 \<rparr>)
        else
          (let n = (if cnt > 6 then 6 else cnt) in do {
           z \<leftarrow> mem_rd 0 n z;
           zs \<leftarrow> mem_wr 0 z (ts_sz_zone st);
           Some (st\<lparr> ts_sz_cnt := n, ts_sz_zone := zs \<rparr>) }))"

definition tal_time_get_sum_time_posix :: "ms_clock \<Rightarrow> time_state \<Rightarrow> int \<times> time_state" where
  "tal_time_get_sum_time_posix clk st =
     (let (time, st) = tal_time_get_posix clk st; (summer, st) = is_in_sum_zone clk st
      in (if summer then time + SEC_PER_HOUR else time, st))"

definition tal_time_get_sum_time :: "ms_clock \<Rightarrow> time_state \<Rightarrow> (operate_ret \<times> posix_tm \<times> time_state) option" where
  "tal_time_get_sum_time clk st =
     (let (time, st) = tal_time_get_sum_time_posix clk st in map_option (\<lambda>tm. (OPRT_OK, tm, st)) (tal_time_gmtime_r time))"

definition tal_time_get_sum_zone :: "time_state \<Rightarrow> nat \<times> (int \<times> int) list" where
  "tal_time_get_sum_zone st = (ts_sz_cnt st, ts_sz_zone st)"

definition tal_time_get_local_time_custom :: "ms_clock \<Rightarrow> int \<Rightarrow> time_state \<Rightarrow> (operate_ret \<times> posix_tm \<times> time_state) option" where
  "tal_time_get_local_time_custom clk in_time st =
     (let (local_time, st) = (if in_time = 0 then (let (t, st) = tal_time_get_posix clk st in (t + ts_tz st, st))
                              else (in_time + ts_tz st, st));
          (summer, st) = is_in_sum_zone clk st;
          local_time = (if summer then local_time + SEC_PER_HOUR else local_time)
      in map_option (\<lambda>tm. (OPRT_OK, tm, st)) (tal_time_gmtime_r local_time))"

text \<open>
  \<^verbatim>\<open>sscanf\<close> with \<^verbatim>\<open>"%d:%d"\<close>: an integer is optional white space, an optional sign and at least
  one digit; the result is the value and the rest of the text.
\<close>

definition is_digit :: "u8 \<Rightarrow> bool" where
  "is_digit c \<longleftrightarrow> 0x30 \<le> c \<and> c \<le> 0x39"

definition digits_value :: "bytes \<Rightarrow> nat" where
  "digits_value ds = foldl (\<lambda>v c. 10 * v + unat (c - 0x30)) 0 ds"

definition scan_int :: "bytes \<Rightarrow> (int \<times> bytes) option" where
  "scan_int s =
     (let s = dropWhile (\<lambda>c. c = 0x20 \<or> 0x09 \<le> c \<and> c \<le> 0x0D) s;
          neg = (s \<noteq> [] \<and> hd s = 0x2D);
          s = (if s \<noteq> [] \<and> (hd s = 0x2D \<or> hd s = 0x2B) then tl s else s);
          ds = takeWhile is_digit s
      in if ds = [] then None
         else Some (if neg then - int (digits_value ds) else int (digits_value ds), dropWhile is_digit s))"

definition scan_hh_mm :: "bytes \<Rightarrow> (int \<times> int) option" where
  "scan_hh_mm s = do {
     (h, s) \<leftarrow> scan_int s;
     if s \<noteq> [] \<and> hd s = 0x3A then do { (m, s) \<leftarrow> scan_int (tl s); Some (h, m) } else None }"

text \<open>The sign is searched in the whole text, but the first character is the one that is skipped.\<close>

definition get_time_zone :: "bytes \<Rightarrow> operate_ret \<times> int option" where
  "get_time_zone tz =
     (let (offset, plus) = (if 0x2B \<in> set tz then (1, True) else if 0x2D \<in> set tz then (1 :: nat, False) else (0, True))
      in case scan_hh_mm (drop offset tz) of
           None \<Rightarrow> (OPRT_INVALID_PARM, None)
         | Some (h, m) \<Rightarrow> (let posix = (h * 60 + m) * 60 in (OPRT_OK, Some (if plus then posix else - posix))))"

definition tal_time_set_time_zone :: "bytes \<Rightarrow> time_state \<Rightarrow> operate_ret \<times> time_state" where
  "tal_time_set_time_zone tz st =
     (case get_time_zone tz of
        (rt, None) \<Rightarrow> (rt, st)
      | (rt, Some z) \<Rightarrow> (OPRT_OK, st\<lparr> ts_tz := z, ts_tz_sync := True \<rparr>))"

definition tal_time_get_time_zone_seconds :: "time_state \<Rightarrow> operate_ret \<times> int" where
  "tal_time_get_time_zone_seconds st = (OPRT_OK, ts_tz st)"

definition tal_time_set_time_zone_seconds :: "int \<Rightarrow> time_state \<Rightarrow> operate_ret \<times> time_state" where
  "tal_time_set_time_zone_seconds tz st = (OPRT_OK, st\<lparr> ts_tz := tz, ts_tz_sync := True \<rparr>)"

section \<open>Conversions\<close>

lemma year_start_base: "year_start 1970 = 0"
  by (simp add: year_start_def)

lemma year_start_Suc: "1970 \<le> y \<Longrightarrow> year_start (y + 1) = year_start y + SEC_PER_YR ! is_leap y"
  by (simp add: year_start_def upto_rec2)

lemma SEC_PER_YR_pos: "0 < SEC_PER_YR ! is_leap y"
  by (simp add: SEC_PER_YR_leap)

lemma year_loop_spec:
  "0 \<le> t \<Longrightarrow> 1970 \<le> y0 \<Longrightarrow> year_loop y0 t = (y, r) \<Longrightarrow>
     y0 \<le> y \<and> year_start y + r = year_start y0 + t \<and> 0 \<le> r \<and> r < SEC_PER_YR ! is_leap y"
proof (induction y0 t rule: year_loop.induct)
  case (1 y0 t)
  show ?case
  proof (cases "t < SEC_PER_YR ! is_leap y0")
    case True
    then show ?thesis
      using "1.prems" by (simp add: year_loop.simps [of y0])
  next
    case False
    then have "year_loop (y0 + 1) (t - SEC_PER_YR ! is_leap y0) = (y, r)"
      using "1.prems"(3) by (simp add: year_loop.simps [of y0])
    then show ?thesis
      using "1.IH" [OF False] "1.prems" False year_start_Suc [of y0] by simp
  qed
qed

lemma year_loop_at:
  "1970 \<le> y0 \<Longrightarrow> y0 \<le> y \<Longrightarrow> 0 \<le> r \<Longrightarrow> r < SEC_PER_YR ! is_leap y \<Longrightarrow> year_loop y0 (year_start y - year_start y0 + r) = (y, r)"
proof (induction "nat (y - y0)" arbitrary: y0)
  case 0
  then show ?case by (simp add: year_loop.simps)
next
  case (Suc n)
  have mono: "year_start a \<le> year_start b" if "1970 \<le> a" "a \<le> b" for a b
    using that(2)
  proof (induction b rule: int_ge_induct)
    case (step i)
    then show ?case using year_start_Suc [of i] SEC_PER_YR_pos [of i] that(1) by simp
  qed simp
  have s: "year_start (y0 + 1) = year_start y0 + SEC_PER_YR ! is_leap y0"
    using Suc.prems(1) by (rule year_start_Suc)
  have "y0 + 1 \<le> y"
    using Suc.hyps(2) by simp
  then have "year_loop (y0 + 1) (year_start y - year_start (y0 + 1) + r) = (y, r)" "year_start (y0 + 1) \<le> year_start y"
    using Suc mono [of "y0 + 1" y] by simp_all
  then show ?case
    using s Suc.prems(3) by (subst year_loop.simps) (simp add: algebra_simps)
qed

lemma month_loop_at:
  "m < length tbl \<Longrightarrow> \<forall>x \<in> set tbl. 0 < x \<Longrightarrow> 0 \<le> r \<Longrightarrow> r < tbl ! m \<Longrightarrow> k \<le> m \<Longrightarrow>
     month_loop tbl k (sum_list (take (m - k) (drop k tbl)) + r) = Some (m, r)"
proof (induction "m - k" arbitrary: k)
  case 0
  then show ?case by (simp add: month_loop.simps)
next
  case (Suc n)
  have k: "drop k tbl = tbl ! k # drop (Suc k) tbl" "m - k = Suc (m - Suc k)"
    using Suc by (simp_all add: Cons_nth_drop_Suc)
  have "0 \<le> sum_list (take (m - Suc k) (drop (Suc k) tbl))"
    using Suc.prems(2) by (intro sum_list_nonneg) (auto dest!: in_set_takeD in_set_dropD)
  then show ?case
    using Suc.hyps(1) [of "Suc k"] Suc.hyps(2) Suc.prems k by (subst month_loop.simps) (simp add: algebra_simps)
qed

lemma month_loop_spec:
  "0 \<le> t \<Longrightarrow> t < sum_list (drop k tbl) \<Longrightarrow>
     \<exists>m r. month_loop tbl k t = Some (m, r) \<and> m < length tbl \<and> 0 \<le> r \<and> r < tbl ! m \<and> k \<le> m \<and>
       sum_list (take m tbl) + r = sum_list (take k tbl) + t"
proof (induction tbl k t rule: month_loop.induct)
  case (1 tbl k t)
  have k: "k < length tbl"
    using "1.prems" by (cases "k < length tbl") auto
  then have d: "drop k tbl = tbl ! k # drop (Suc k) tbl" "take (Suc k) tbl = take k tbl @ [tbl ! k]"
    by (simp_all add: Cons_nth_drop_Suc take_Suc_conv_app_nth)
  show ?case
  proof (cases "t < tbl ! k")
    case True
    then show ?thesis
      using k "1.prems" by (subst month_loop.simps) simp
  next
    case False
    then obtain m r where "month_loop tbl (k + 1) (t - tbl ! k) = Some (m, r)" "m < length tbl" "0 \<le> r" "r < tbl ! m" "k + 1 \<le> m"
      "sum_list (take m tbl) + r = sum_list (take (k + 1) tbl) + (t - tbl ! k)"
      using "1.IH" [OF k False] "1.prems" d by auto
    then show ?thesis
      using k False d by (subst month_loop.simps) simp
  qed
qed

lemma for_months:
  fixes tbl :: "int list"
  shows "n \<le> length tbl \<Longrightarrow> for_loop 0 n (\<lambda>i time. do { s \<leftarrow> rd tbl i; Some (time + s) }) time = Some (time + sum_list (take n tbl))"
proof -
  assume n: "n \<le> length tbl"
  have "\<exists>t. for_loop 0 n (\<lambda>i time. do { s \<leftarrow> rd tbl i; Some (time + s) }) time = Some t \<and> t = time + sum_list (take n tbl)"
    using n by (intro for_loop_rule [where P = "\<lambda>i t. t = time + sum_list (take i tbl)"])
      (auto simp: rd_Some take_Suc_conv_app_nth)
  then show ?thesis by simp
qed

text \<open>Months of a year: the two rows of the table.\<close>

definition month_tbl :: "int \<Rightarrow> int list" where
  "month_tbl y = SEC_PER_MT ! is_leap y"

lemma is_leap_cases: "is_leap y = 0 \<or> is_leap y = 1"
  by (simp add: is_leap_def)

lemma month_tbl: "length (month_tbl y) = 12" "\<forall>x \<in> set (month_tbl y). 0 < x" "sum_list (month_tbl y) = SEC_PER_YR ! is_leap y"
  using is_leap_cases [of y] by (auto simp: month_tbl_def SEC_PER_MT_def SEC_PER_YR_def)

lemma mktime_eq:
  assumes "0 \<le> tm_mon tm" "tm_mon tm \<le> 12"
  shows "tal_time_mktime (Some tm) = Some (year_start (tm_year tm + 1900) + sum_list (take (nat (tm_mon tm)) (month_tbl (tm_year tm + 1900))) +
    (tm_mday tm - 1) * 86400 + tm_hour tm * 3600 + tm_min tm * 60 + tm_sec tm)"
proof -
  have l: "(if is_leap (tm_year tm + 1900) \<noteq> 0 then 1 else 0) = is_leap (tm_year tm + 1900)"
    using is_leap_cases [of "tm_year tm + 1900"] by auto
  have "nat (tm_mon tm) \<le> length (month_tbl (tm_year tm + 1900))"
    using assms month_tbl(1) by simp
  then show ?thesis
    unfolding tal_time_mktime_def option.case Let_def l by (simp add: for_months flip: month_tbl_def)
qed

lemma mktime_parts:
  "m < 12 \<Longrightarrow> tal_time_mktime (Some \<lparr> tm_sec = s, tm_min = mi, tm_hour = h, tm_mday = d + 1, tm_mon = int m, tm_year = y - 1900, tm_wday = w \<rparr>) =
     Some (year_start y + sum_list (take m (month_tbl y)) + (d * 86400 + h * 3600 + mi * 60 + s))"
  by (subst mktime_eq) simp_all

lemma gmtime_eq:
  assumes y: "year_loop 1970 t = (y, l)" and m: "month_loop (month_tbl y) 0 l = Some (m, r)" "m < 12" and r: "0 \<le> r"
  shows "\<exists>w. tal_time_gmtime_r t = Some \<lparr> tm_sec = r mod 60, tm_min = r mod 3600 div 60, tm_hour = r mod 86400 div 3600,
      tm_mday = r div 86400 + 1, tm_mon = int m, tm_year = y - 1900, tm_wday = w \<rparr> \<and>
    get_day_of_week (int m + 1) (r div 86400 + 1) y = Some w"
proof -
  have "get_day_of_week (int m + 1) (r div 86400 + 1) y \<noteq> None"
    using m(2) by (simp add: get_day_of_week_def Let_def rd_def)
  then obtain w where w: "get_day_of_week (int m + 1) (r div 86400 + 1) y = Some w"
    by blast
  have e: "r mod 86400 mod 3600 = r mod 3600" "r mod 3600 mod 60 = r mod 60"
    by (rule mod_mod_cancel, simp)+
  have "tal_time_gmtime_r t = Some \<lparr> tm_sec = r mod 60, tm_min = r mod 3600 div 60, tm_hour = r mod 86400 div 3600,
      tm_mday = r div 86400 + 1, tm_mon = int m, tm_year = y - 1900, tm_wday = w \<rparr>"
    by (simp only: tal_time_gmtime_r_def Let_def y prod.case m(1) [unfolded month_tbl_def] Option.bind.simps w e)
  then show ?thesis
    using w by blast
qed

lemma split_seconds: "(r :: int) div 86400 * 86400 + r mod 86400 div 3600 * 3600 + r mod 3600 div 60 * 60 + r mod 60 = r"
proof -
  have "r mod 86400 mod 3600 = r mod 3600" "r mod 3600 mod 60 = r mod 60"
    by (rule mod_mod_cancel, simp)+
  then show ?thesis
    using div_mult_mod_eq [of r 86400] div_mult_mod_eq [of "r mod 86400" 3600] div_mult_mod_eq [of "r mod 3600" 60] by linarith
qed

text \<open>Where a time stamp falls: year, month and second of the month.\<close>

lemma time_position:
  assumes "0 \<le> t"
  obtains y l m r where "year_loop 1970 t = (y, l)" "month_loop (month_tbl y) 0 l = Some (m, r)" "m < 12" "0 \<le> r" "r < month_tbl y ! m"
    "1970 \<le> y" "year_start y + sum_list (take m (month_tbl y)) + r = t"
proof -
  obtain y l where y: "year_loop 1970 t = (y, l)"
    by force
  then have l: "1970 \<le> y" "year_start y + l = t" "0 \<le> l" "l < SEC_PER_YR ! is_leap y"
    using year_loop_spec [OF assms _ y] year_start_base by simp_all
  then obtain m r where "month_loop (month_tbl y) 0 l = Some (m, r)" "m < 12" "0 \<le> r" "r < month_tbl y ! m"
    "sum_list (take m (month_tbl y)) + r = l"
    using month_loop_spec [of l 0 "month_tbl y"] month_tbl [of y] by auto
  then show thesis
    using that y l by auto
qed

definition days_of :: "int \<Rightarrow> nat \<Rightarrow> int" where
  "days_of y m = (if m = 1 then (if is_leap y = 0 then 28 else 29) else if m = 3 \<or> m = 5 \<or> m = 8 \<or> m = 10 then 30 else 31)"

lemma month_days: "m < 12 \<Longrightarrow> month_tbl y ! m = 86400 * days_of y m"
proof -
  assume "m < 12"
  then have "m \<in> {0, 1, 2, 3, 4, 5, 6, 7, 8, 9, 10, 11}"
    unfolding insert_iff empty_iff by presburger
  then show ?thesis
    using is_leap_cases [of y] by (auto simp: month_tbl_def SEC_PER_MT_def days_of_def)
qed

lemma valid_parts:
  "s \<le> 59 \<Longrightarrow> mi \<le> 59 \<Longrightarrow> h \<le> 23 \<Longrightarrow> 1970 \<le> y \<Longrightarrow> y \<le> 2111 \<Longrightarrow> m < 12 \<Longrightarrow> 0 \<le> d \<Longrightarrow> d < days_of y m \<Longrightarrow>
     is_valid_date_time \<lparr> tm_sec = s, tm_min = mi, tm_hour = h, tm_mday = d + 1, tm_mon = int m, tm_year = y - 1900, tm_wday = w \<rparr> = 0"
  by (auto simp: is_valid_date_time_def days_of_def split: if_splits)

lemma year_start_mono: "1970 \<le> a \<Longrightarrow> a \<le> b \<Longrightarrow> year_start a \<le> year_start b"
proof -
  assume a: "1970 \<le> a" and "a \<le> b"
  from this(2) show ?thesis
  proof (induction b rule: int_ge_induct)
    case (step i)
    then show ?case using year_start_Suc [of i] SEC_PER_YR_pos [of i] a by simp
  qed simp
qed

lemma year_start_2107: "year_start 2107 = 4323283200"
  by code_simp

text \<open>
  C13: a time stamp converted to a calendar date and back is unchanged, the conversion never leaves
  the month table, and for every 32-bit time stamp the date passes the validity check.
\<close>

theorem gmtime_mktime:
  assumes "0 \<le> t"
  shows "\<exists>tm. tal_time_gmtime_r t = Some tm \<and> tal_time_mktime (Some tm) = Some t \<and> (t < 2 ^ 32 \<longrightarrow> is_valid_date_time tm = 0)"
proof -
  obtain y l m r where p: "year_loop 1970 t = (y, l)" "month_loop (month_tbl y) 0 l = Some (m, r)" "m < 12" "0 \<le> r" "r < month_tbl y ! m"
    "1970 \<le> y" "year_start y + sum_list (take m (month_tbl y)) + r = t"
    by (rule time_position [OF assms])
  obtain w where g: "tal_time_gmtime_r t = Some \<lparr> tm_sec = r mod 60, tm_min = r mod 3600 div 60, tm_hour = r mod 86400 div 3600,
      tm_mday = r div 86400 + 1, tm_mon = int m, tm_year = y - 1900, tm_wday = w \<rparr>"
    using gmtime_eq [OF p(1,2,3,4)] by blast
  let ?tm = "\<lparr> tm_sec = r mod 60, tm_min = r mod 3600 div 60, tm_hour = r mod 86400 div 3600,
      tm_mday = r div 86400 + 1, tm_mon = int m, tm_year = y - 1900, tm_wday = w \<rparr>"
  have mk: "tal_time_mktime (Some ?tm) = Some t"
    by (simp only: mktime_parts [OF p(3)] split_seconds p(7))
  have val: "is_valid_date_time ?tm = 0" if "t < 2 ^ 32"
  proof -
    have "0 \<le> sum_list (take m (month_tbl y))"
      using month_tbl(2) [of y] by (intro sum_list_nonneg) (auto dest!: in_set_takeD)
    then have "year_start y < year_start 2107"
      using p(4,7) that year_start_2107 by simp
    then have y: "y \<le> 2111"
      using year_start_mono [of 2107 y] by (cases "y < 2107") auto
    have f: "r mod 60 \<le> 59" "r mod 3600 div 60 \<le> 59" "r mod 86400 div 3600 \<le> 23" "0 \<le> r div 86400"
      using p(4) by (linarith, linarith, linarith, simp)
    have "r div 86400 < days_of y m"
      using p(5) unfolding month_days [OF p(3)] by linarith
    then show ?thesis
      by (rule valid_parts [OF f(1,2,3) p(6) y p(3) f(4)])
  qed
  show ?thesis
    by (intro exI [of _ ?tm] conjI impI g mk val)
qed

theorem gmtime_mktime_witness:
  "\<exists>tm. tal_time_gmtime_r 951827696 = Some tm \<and> tal_time_mktime (Some tm) = Some 951827696 \<and> is_valid_date_time tm = 0"
  using gmtime_mktime [of 951827696] by simp

lemma valid_bounds:
  assumes "is_valid_date_time tm = 0"
  shows "tm_sec tm \<le> 59 \<and> tm_min tm \<le> 59 \<and> tm_hour tm \<le> 23 \<and> 1970 \<le> tm_year tm + 1900 \<and> tm_mon tm < 12 \<and>
    1 \<le> tm_mday tm \<and> (0 \<le> tm_mon tm \<longrightarrow> tm_mday tm - 1 < days_of (tm_year tm + 1900) (nat (tm_mon tm)))"
proof -
  have n: "nat (tm_mon tm) = 1 \<longleftrightarrow> tm_mon tm = 1" "nat (tm_mon tm) = 3 \<longleftrightarrow> tm_mon tm = 3" "nat (tm_mon tm) = 5 \<longleftrightarrow> tm_mon tm = 5"
    "nat (tm_mon tm) = 8 \<longleftrightarrow> tm_mon tm = 8" "nat (tm_mon tm) = 10 \<longleftrightarrow> tm_mon tm = 10" if "0 \<le> tm_mon tm"
    using that by linarith+
  show ?thesis
    using assms unfolding is_valid_date_time_def days_of_def by (simp add: n del: One_nat_def split: if_split_asm) auto
qed

lemma clock_parts:
  fixes r :: int
  assumes "0 \<le> s" "s \<le> 59" "0 \<le> mi" "mi \<le> 59" "0 \<le> h" "h \<le> 23" "r = d * 86400 + h * 3600 + mi * 60 + s"
  shows "r mod 60 = s \<and> r mod 3600 div 60 = mi \<and> r mod 86400 div 3600 = h \<and> r div 86400 = d"
proof -
  have "r mod 60 = s"
    using assms by (intro int_mod_pos_eq [where q = "d * 1440 + h * 60 + mi"]) simp_all
  moreover have "r mod 3600 = mi * 60 + s"
    using assms by (intro int_mod_pos_eq [where q = "d * 24 + h"]) simp_all
  moreover have "(mi * 60 + s) div 60 = mi"
    using assms by (intro int_div_pos_eq [where r = s]) simp_all
  moreover have "r mod 86400 = h * 3600 + mi * 60 + s" "r div 86400 = d"
    using assms by (intro int_mod_pos_eq [where q = d] int_div_pos_eq [where r = "h * 3600 + mi * 60 + s"]; simp)+
  moreover have "(h * 3600 + mi * 60 + s) div 3600 = h"
    using assms by (intro int_div_pos_eq [where r = "mi * 60 + s"]) simp_all
  ultimately show ?thesis
    by simp
qed



section \<open>Day of the week\<close>

definition leaps :: "int \<Rightarrow> int" where
  "leaps n = n div 4 - n div 100 + n div 400"

lemma leaps_Suc: "leaps (n + 1) = leaps n + int (is_leap (n + 1))"
proof -
  have d: "(n + 1) div k = n div k + (if (n + 1) mod k = 0 then 1 else 0)" if "1 < k" for k :: int
  proof (cases "n mod k = k - 1")
    case True
    then have "n + 1 = k * (n div k + 1) + 0"
      using mult_div_mod_eq [of k n] unfolding distrib_left by linarith
    then show ?thesis
      using int_div_pos_eq [of "n + 1" k "n div k + 1" 0] int_mod_pos_eq [of "n + 1" k "n div k + 1" 0] that by simp
  next
    case False
    have "n + 1 = k * (n div k) + (n mod k + 1)" "0 \<le> n mod k + 1" "n mod k + 1 < k" "n mod k + 1 \<noteq> 0"
      using that False pos_mod_bound [of k n] pos_mod_sign [of k n] mult_div_mod_eq [of k n] by linarith+
    then show ?thesis
      using int_div_pos_eq [of "n + 1" k "n div k" "n mod k + 1"] int_mod_pos_eq [of "n + 1" k "n div k" "n mod k + 1"] by simp
  qed
  define P where "P k \<longleftrightarrow> (n + 1) mod k = 0" for k
  have "P 400 \<Longrightarrow> P 100" "P 100 \<Longrightarrow> P 4"
    unfolding P_def mod_eq_0_iff_dvd by (rule dvd_trans [rotated], assumption, simp)+
  moreover have "(n + 1) div 4 = n div 4 + (if P 4 then 1 else 0)" "(n + 1) div 100 = n div 100 + (if P 100 then 1 else 0)"
    "(n + 1) div 400 = n div 400 + (if P 400 then 1 else 0)" "is_leap (n + 1) = (if P 100 then (if P 400 then 1 else 0) else (if P 4 then 1 else 0))"
    unfolding P_def is_leap_def by (rule d, simp)+ (rule refl)
  ultimately show ?thesis
    unfolding leaps_def by (simp split: if_split)
qed

lemma year_start_days: "1970 \<le> y \<Longrightarrow> year_start y = 86400 * (365 * (y - 1970) + leaps (y - 1) - 477)"
proof (induction y rule: int_ge_induct)
  case base
  then show ?case by (simp add: year_start_base leaps_def)
next
  case (step i)
  then show ?case
    using year_start_Suc [of i] leaps_Suc [of "i - 1"] is_leap_cases [of i] by (auto simp: SEC_PER_YR_leap)
qed

text \<open>Days of the year before month \<open>m\<close>.\<close>

definition month_day0 :: "int \<Rightarrow> nat \<Rightarrow> int" where
  "month_day0 y m = [0, 31, 59, 90, 120, 151, 181, 212, 243, 273, 304, 334] ! m + (if 2 \<le> m then int (is_leap y) else 0)"

lemma month_start_days: "m < 12 \<Longrightarrow> sum_list (take m (month_tbl y)) = 86400 * month_day0 y m"
proof -
  assume "m < 12"
  then have "m \<in> {0, 1, 2, 3, 4, 5, 6, 7, 8, 9, 10, 11}"
    unfolding insert_iff empty_iff by presburger
  then show ?thesis
    using is_leap_cases [of y] by (auto simp: month_tbl_def SEC_PER_MT_def month_day0_def)
qed

lemma day_of_week_days:
  assumes y: "1970 \<le> y" "y < 65536" and m: "m < 12"
  shows "get_day_of_week (int m + 1) (d + 1) y = Some ((365 * (y - 1970) + leaps (y - 1) - 477 + month_day0 y m + d + 4) mod 7)"
proof -
  have L: "leaps y = leaps (y - 1) + int (is_leap y)"
    using leaps_Suc [of "y - 1"] by simp
  have "m \<in> {0, 1, 2, 3, 4, 5, 6, 7, 8, 9, 10, 11}"
    using m unfolding insert_iff empty_iff by presburger
  then have "get_day_of_week (int m + 1) (d + 1) y = Some (((if m < 2 then y - 1 + leaps (y - 1) else y + leaps y) +
      [0, 3, 2, 5, 0, 3, 5, 1, 4, 6, 2, 4] ! m + (d + 1)) mod 7)"
    using y by (auto simp: get_day_of_week_def Let_def rd_def leaps_def algebra_simps)
  moreover have "((if m < 2 then y - 1 + leaps (y - 1) else y + leaps y) + [0, 3, 2, 5, 0, 3, 5, 1, 4, 6, 2, 4] ! m + (d + 1)) mod 7 =
      (365 * (y - 1970) + leaps (y - 1) - 477 + month_day0 y m + d + 4) mod 7"
    using \<open>m \<in> _\<close> L by (auto simp: month_day0_def mod_eq_dvd_iff)
  ultimately show ?thesis
    by simp
qed

text \<open>
  C30: the day of the week of a 32-bit time stamp is right: the epoch was a Thursday, and every further day is the
  next day of the week.
\<close>

theorem gmtime_wday:
  assumes "0 \<le> t" "t < 2 ^ 32" "tal_time_gmtime_r t = Some tm"
  shows "tm_wday tm = (t div 86400 + 4) mod 7"
proof -
  obtain y l m r where p: "year_loop 1970 t = (y, l)" "month_loop (month_tbl y) 0 l = Some (m, r)" "m < 12" "0 \<le> r" "r < month_tbl y ! m"
    "1970 \<le> y" "year_start y + sum_list (take m (month_tbl y)) + r = t"
    by (rule time_position [OF assms(1)])
  have "0 \<le> sum_list (take m (month_tbl y))"
    using month_tbl(2) [of y] by (intro sum_list_nonneg) (auto dest!: in_set_takeD)
  then have "year_start y < year_start 2107"
    using p(4,7) assms(2) year_start_2107 by simp
  then have y: "y < 65536"
    using year_start_mono [of 2107 y] by (cases "y < 2107") auto
  let ?D = "365 * (y - 1970) + leaps (y - 1) - 477 + month_day0 y m"
  have "t = 86400 * ?D + r"
    using p(7) year_start_days [OF p(6)] month_start_days [OF p(3), of y] by (simp add: algebra_simps)
  then have "t div 86400 = ?D + r div 86400"
    by simp
  moreover have "tm_wday tm = (?D + r div 86400 + 4) mod 7"
    using gmtime_eq [OF p(1,2,3,4)] assms(3) day_of_week_days [OF p(6) y p(3), of "r div 86400"] by auto
  ultimately show ?thesis
    by simp
qed

theorem gmtime_wday_witness:
  "\<exists>tm. tal_time_gmtime_r 951827696 = Some tm \<and> tm_wday tm = 2"
proof -
  have "tal_time_gmtime_r 951827696 \<noteq> None"
    by code_simp
  then obtain tm where "tal_time_gmtime_r 951827696 = Some tm"
    by blast
  then show ?thesis
    using gmtime_wday [of 951827696 tm] by simp
qed


section \<open>The running clock\<close>

fun after_reads :: "ms_clock \<Rightarrow> nat \<Rightarrow> time_state \<Rightarrow> time_state" where
  "after_reads clk 0 st = st"
| "after_reads clk (Suc n) st = snd (tal_time_get_posix clk (after_reads clk n st))"

lemma get_posix_eq:
  "tal_time_get_posix clk st =
     (let ms = clk (ts_clk_no st) in
      if ts_last_ms st > ms
      then (ts_cloud_posix st + (0x100000000 - ts_last_ms st) div 1000 + ms div 1000,
            st\<lparr> ts_clk_no := ts_clk_no st + 1, ts_cloud_posix := ts_cloud_posix st + (0x100000000 - ts_last_ms st) div 1000, ts_last_ms := 0 \<rparr>)
      else (ts_cloud_posix st + (ms - ts_last_ms st) div 1000, st\<lparr> ts_clk_no := ts_clk_no st + 1 \<rparr>))"
  by (simp add: tal_time_get_posix_def get_millisecond_def time_recycle_def Let_def)

text \<open>
  The clock since a setting at counter value \<open>l0\<close> to the time \<open>c\<close>: before the counter starts
  over it is untouched, afterwards it has been advanced and counts from zero.
\<close>

definition clock_at :: "int \<Rightarrow> int \<Rightarrow> bool \<Rightarrow> time_state \<Rightarrow> bool" where
  "clock_at c l0 over st \<longleftrightarrow>
     (if over then ts_cloud_posix st = c + (0x100000000 - l0) div 1000 \<and> ts_last_ms st = 0
      else ts_cloud_posix st = c \<and> ts_last_ms st = l0)"

lemma div_mod_near:
  assumes "(a :: int) \<le> b" "b - a < 0x100000000"
  shows "b div 0x100000000 = a div 0x100000000 \<and> b mod 0x100000000 = a mod 0x100000000 + (b - a) \<or>
    b div 0x100000000 = a div 0x100000000 + 1 \<and> b mod 0x100000000 = a mod 0x100000000 + (b - a) - 0x100000000"
proof (cases "a mod 0x100000000 + (b - a) < 0x100000000")
  case True
  have "b = 0x100000000 * (a div 0x100000000) + (a mod 0x100000000 + (b - a))"
    using mult_div_mod_eq [of "0x100000000" a] by linarith
  then show ?thesis
    using int_div_pos_eq [of b "0x100000000" "a div 0x100000000" "a mod 0x100000000 + (b - a)"]
      int_mod_pos_eq [of b "0x100000000" "a div 0x100000000" "a mod 0x100000000 + (b - a)"] True assms pos_mod_sign [of "0x100000000" a] by simp
next
  case False
  have "b = 0x100000000 * (a div 0x100000000 + 1) + (a mod 0x100000000 + (b - a) - 0x100000000)"
    using mult_div_mod_eq [of "0x100000000" a] unfolding distrib_left mult_1_right by linarith
  then show ?thesis
    using int_div_pos_eq [of b "0x100000000" "a div 0x100000000 + 1" "a mod 0x100000000 + (b - a) - 0x100000000"]
      int_mod_pos_eq [of b "0x100000000" "a div 0x100000000 + 1" "a mod 0x100000000 + (b - a) - 0x100000000"] False assms
      pos_mod_bound [of "0x100000000" a] by simp
qed

lemma clock_at_read:
  assumes "clock_at c l0 over st" "0 \<le> clk (ts_clk_no st)"
  shows "clock_at c l0 (over \<or> clk (ts_clk_no st) < l0) (snd (tal_time_get_posix clk st)) \<and>
    ts_clk_no (snd (tal_time_get_posix clk st)) = Suc (ts_clk_no st)"
  using assms by (auto simp: clock_at_def get_posix_eq Let_def split: if_split_asm)

lemma after_reads_clock:
  fixes T :: "nat \<Rightarrow> int"
  assumes clk: "\<And>k. clk k = T k mod 0x100000000" and mono: "\<And>k. T k \<le> T (Suc k)"
    and st: "ts_clk_no st = Suc i" "clock_at c (T i mod 0x100000000) False st" and bound: "T (i + n) - T i < 0x100000000"
  shows "ts_clk_no (after_reads clk n st) = Suc (i + n) \<and>
    clock_at c (T i mod 0x100000000) (T (i + n) div 0x100000000 \<noteq> T i div 0x100000000) (after_reads clk n st)"
  using bound
proof (induction n)
  case 0
  then show ?case using st by simp
next
  case (Suc n)
  have m: "T i \<le> T (i + n)" "T (i + n) \<le> T (Suc (i + n))"
    using lift_Suc_mono_le [of T, OF mono] by simp_all
  then have IH: "ts_clk_no (after_reads clk n st) = Suc (i + n)"
    "clock_at c (T i mod 0x100000000) (T (i + n) div 0x100000000 \<noteq> T i div 0x100000000) (after_reads clk n st)"
    using Suc by simp_all
  let ?l0 = "T i mod 0x100000000" and ?ms = "T (Suc (i + n)) mod 0x100000000"
  have near: "T (Suc (i + n)) div 0x100000000 = T i div 0x100000000 \<and> ?ms = ?l0 + (T (Suc (i + n)) - T i) \<or>
      T (Suc (i + n)) div 0x100000000 = T i div 0x100000000 + 1 \<and> ?ms = ?l0 + (T (Suc (i + n)) - T i) - 0x100000000"
    using Suc.prems m by (intro div_mod_near) simp_all
  have over: "(T (i + n) div 0x100000000 \<noteq> T i div 0x100000000 \<or> ?ms < ?l0) = (T (Suc (i + n)) div 0x100000000 \<noteq> T i div 0x100000000)"
  proof -
    have "T i div 0x100000000 \<le> T (i + n) div 0x100000000" "T (i + n) div 0x100000000 \<le> T (Suc (i + n)) div 0x100000000"
      using m by (simp_all add: zdiv_mono1)
    moreover have e: "0 \<le> T (Suc (i + n)) - T i" "T (Suc (i + n)) - T i < 0x100000000"
      using Suc.prems m by simp_all
    ultimately show ?thesis
      using near
    proof (elim disjE conjE)
      assume d: "T i div 0x100000000 \<le> T (i + n) div 0x100000000" "T (i + n) div 0x100000000 \<le> T (Suc (i + n)) div 0x100000000"
        "T (Suc (i + n)) div 0x100000000 = T i div 0x100000000" "?ms = ?l0 + (T (Suc (i + n)) - T i)"
      have "\<not> ?ms < ?l0" "T (i + n) div 0x100000000 = T i div 0x100000000"
        unfolding d(4) using d e(1) by simp_all
      then show ?thesis
        using d(3) by simp
    next
      assume d: "T (Suc (i + n)) div 0x100000000 = T i div 0x100000000 + 1" "?ms = ?l0 + (T (Suc (i + n)) - T i) - 0x100000000"
      have "?ms < ?l0"
        unfolding d(2) using e(2) by simp
      then show ?thesis
        using d(1) by simp
    qed
  qed
  have "0 \<le> clk (ts_clk_no (after_reads clk n st))"
    by (simp add: clk)
  from clock_at_read [where clk = clk, OF IH(2) this] show ?case
    unfolding IH(1) clk [of "Suc (i + n)"] over by simp
qed

lemma clock_reading:
  assumes "clock_at c l0 over st" "0 \<le> clk (ts_clk_no st)"
  shows "fst (tal_time_get_posix clk st) =
    (if over \<or> clk (ts_clk_no st) < l0 then c + (0x100000000 - l0) div 1000 + clk (ts_clk_no st) div 1000
     else c + (clk (ts_clk_no st) - l0) div 1000)"
  using assms by (auto simp: clock_at_def get_posix_eq Let_def split: if_split_asm)

text \<open>
  C31: the clock is accurate for one period of the counter.  The time is set to \<open>c\<close> while the uptime is \<open>T i\<close>, and then read
  any number of times at increasing uptimes.  A reading made less than \<^verbatim>\<open>2^32\<close> milliseconds after the setting
  is the elapsed time in whole seconds after \<open>c\<close>, or one second less, also when the 32-bit counter has
  started over in between.
\<close>

theorem clock_accuracy:
  fixes T :: "nat \<Rightarrow> int"
  assumes clk: "\<And>k. clk k = T k mod 0x100000000" and mono: "\<And>k. T k \<le> T (Suc k)" and i: "ts_clk_no st = i"
    and st: "\<not> ts_disable_update st" and bound: "T (Suc (i + n)) - T i < 0x100000000"
  shows "fst (tal_time_get_posix clk (after_reads clk n (snd (tal_time_set_posix clk c src st)))) \<in>
    {c + (T (Suc (i + n)) - T i) div 1000 - 1, c + (T (Suc (i + n)) - T i) div 1000}"
proof -
  let ?st = "snd (tal_time_set_posix clk c src st)" and ?l0 = "T i mod 0x100000000" and ?ms = "T (Suc (i + n)) mod 0x100000000"
  let ?e = "T (Suc (i + n)) - T i"
  have s: "ts_clk_no ?st = Suc i" "clock_at c ?l0 False ?st"
    using st i by (simp_all add: tal_time_set_posix_def get_millisecond_def clock_at_def clk Let_def)
  have m: "T i \<le> T (i + n)" "T (i + n) \<le> T (Suc (i + n))"
    using lift_Suc_mono_le [of T, OF mono] by simp_all
  have ar: "ts_clk_no (after_reads clk n ?st) = Suc (i + n)"
    "clock_at c ?l0 (T (i + n) div 0x100000000 \<noteq> T i div 0x100000000) (after_reads clk n ?st)"
    using after_reads_clock [where T = T, OF clk mono s] m bound by simp_all
  have near: "T (Suc (i + n)) div 0x100000000 = T i div 0x100000000 \<and> ?ms = ?l0 + ?e \<or>
      T (Suc (i + n)) div 0x100000000 = T i div 0x100000000 + 1 \<and> ?ms = ?l0 + ?e - 0x100000000"
    using bound m by (intro div_mod_near) simp_all
  have dv: "T i div 0x100000000 \<le> T (i + n) div 0x100000000" "T (i + n) div 0x100000000 \<le> T (Suc (i + n)) div 0x100000000"
    using m by (simp_all add: zdiv_mono1)
  have "0 \<le> clk (ts_clk_no (after_reads clk n ?st))"
    by (simp add: clk)
  note r = clock_reading [where clk = clk, OF ar(2) this, unfolded ar(1) clk [of "Suc (i + n)"]]
  from near show ?thesis
  proof (elim disjE conjE)
    assume d: "T (Suc (i + n)) div 0x100000000 = T i div 0x100000000" "?ms = ?l0 + ?e"
    then have "T (i + n) div 0x100000000 = T i div 0x100000000" "\<not> ?ms < ?l0"
      using dv m by simp_all
    then show ?thesis
      using r d(2) by simp
  next
    assume d: "T (Suc (i + n)) div 0x100000000 = T i div 0x100000000 + 1" "?ms = ?l0 + ?e - 0x100000000"
    have "?ms < ?l0"
      unfolding d(2) using bound by simp
    then have "fst (tal_time_get_posix clk (after_reads clk n ?st)) = c + ((0x100000000 - ?l0) div 1000 + ?ms div 1000)"
      using r by simp
    moreover have "(0x100000000 - ?l0) + ?ms = ?e"
      unfolding d(2) by simp
    moreover have "(x + y) div 1000 - 1 \<le> x div 1000 + y div 1000 \<and> x div 1000 + y div 1000 \<le> (x + y) div 1000" for x y :: int
      by linarith
    ultimately show ?thesis
      by (smt (verit, best) insert_iff)
  qed
qed

theorem clock_accuracy_witness:
  "fst (tal_time_get_posix (\<lambda>k. (4294967000 + 500 * int k) mod 0x100000000)
      (after_reads (\<lambda>k. (4294967000 + 500 * int k) mod 0x100000000) 3
        (snd (tal_time_set_posix (\<lambda>k. (4294967000 + 500 * int k) mod 0x100000000) 1000 1
          \<lparr> ts_mutex = True, ts_last_ms = 0, ts_tz_sync = False, ts_tz = 0, ts_sz_cnt = 0, ts_sz_zone = [], ts_cloud_sync = False,
             ts_cloud_posix = 0, ts_disable_update = False, ts_sys_last_ms = 0, ts_sys_roll_ms = 0, ts_clk_no = 0 \<rparr>)))) \<in> {1001, 1002}"
  using clock_accuracy [of "\<lambda>k. (4294967000 + 500 * int k) mod 0x100000000" "\<lambda>k. 4294967000 + 500 * int k"
      "\<lparr> ts_mutex = True, ts_last_ms = 0, ts_tz_sync = False, ts_tz = 0, ts_sz_cnt = 0, ts_sz_zone = [], ts_cloud_sync = False,
             ts_cloud_posix = 0, ts_disable_update = False, ts_sys_last_ms = 0, ts_sys_roll_ms = 0, ts_clk_no = 0 \<rparr>" 0 3 1000 1]
  by simp

text \<open>
  C32: the clock misses the second wrap of the counter.  Once a wrap has been noticed, the remembered counter value is zero, no
  later value is below it, and every further reading is a fixed base plus the counter in seconds: when the
  counter starts over again, the time falls back.
\<close>

theorem clock_second_wrap:
  assumes "clk (ts_clk_no st) < ts_last_ms st" "\<And>k. 0 \<le> clk k" "st' = snd (tal_time_get_posix clk st)"
  shows "fst (tal_time_get_posix clk (after_reads clk n st')) =
    ts_cloud_posix st + (0x100000000 - ts_last_ms st) div 1000 + clk (ts_clk_no st + 1 + n) div 1000"
proof -
  have "ts_clk_no (after_reads clk n st') = ts_clk_no st + 1 + n \<and> ts_last_ms (after_reads clk n st') = 0 \<and>
      ts_cloud_posix (after_reads clk n st') = ts_cloud_posix st + (0x100000000 - ts_last_ms st) div 1000"
  proof (induction n)
    case 0
    then show ?case using assms by (simp add: get_posix_eq Let_def)
  next
    case (Suc n)
    then show ?case using assms(2) [of "ts_clk_no st + 1 + n"] by (simp add: get_posix_eq Let_def)
  qed
  then show ?thesis
    using assms(2) [of "ts_clk_no st + 1 + n"] by (simp add: get_posix_eq Let_def)
qed

theorem clock_second_wrap_witness:
  "let clk = (\<lambda>k. if k = 2 then 4294967295 else 0);
       st = \<lparr> ts_mutex = True, ts_last_ms = 5000, ts_tz_sync = False, ts_tz = 0, ts_sz_cnt = 0, ts_sz_zone = [], ts_cloud_sync = False,
             ts_cloud_posix = 1000, ts_disable_update = False, ts_sys_last_ms = 0, ts_sys_roll_ms = 0, ts_clk_no = 1 \<rparr>;
       st' = snd (tal_time_get_posix clk st) in
   fst (tal_time_get_posix clk (after_reads clk 0 st')) = 8590929 \<and> fst (tal_time_get_posix clk (after_reads clk 1 st')) = 4295962"
proof -
  let ?clk = "\<lambda>k :: nat. if k = 2 then 4294967295 else 0 :: int"
  let ?st = "\<lparr> ts_mutex = True, ts_last_ms = 5000, ts_tz_sync = False, ts_tz = 0, ts_sz_cnt = 0, ts_sz_zone = [], ts_cloud_sync = False,
             ts_cloud_posix = 1000, ts_disable_update = False, ts_sys_last_ms = 0, ts_sys_roll_ms = 0, ts_clk_no = 1 \<rparr>"
  have "fst (tal_time_get_posix ?clk (after_reads ?clk n (snd (tal_time_get_posix ?clk ?st)))) = 4295962 + ?clk (2 + n) div 1000" for n
    using clock_second_wrap [of ?clk ?st "snd (tal_time_get_posix ?clk ?st)" n] by simp
  from this [of 0] this [of 1] show ?thesis
    by (simp add: Let_def)
qed

section \<open>Time zone text\<close>

lemma digit_not_sign: "is_digit c \<Longrightarrow> c \<noteq> 0x2D \<and> c \<noteq> 0x2B \<and> c \<noteq> 0x20 \<and> \<not> (0x09 \<le> c \<and> c \<le> 0x0D) \<and> c \<noteq> 0x3A"
  by (auto simp: is_digit_def word_le_nat_alt)

lemma scan_int_digits:
  assumes "ds \<noteq> []" "\<forall>c \<in> set ds. is_digit c" "rest = [] \<or> \<not> is_digit (hd rest)"
  shows "scan_int (ds @ rest) = Some (int (digits_value ds), rest)"
proof -
  obtain d ds' where d: "ds = d # ds'"
    using assms(1) by (cases ds) auto
  then have "dropWhile (\<lambda>c. c = 0x20 \<or> 0x09 \<le> c \<and> c \<le> 0x0D) (ds @ rest) = ds @ rest" "hd (ds @ rest) \<noteq> 0x2D" "hd (ds @ rest) \<noteq> 0x2B"
    using assms(2) digit_not_sign [of d] by auto
  moreover have "takeWhile is_digit (ds @ rest) = ds" "dropWhile is_digit (ds @ rest) = rest"
    using assms(2,3) by (cases rest; auto simp: takeWhile_append dropWhile_append)+
  ultimately show ?thesis
    using assms(1) by (simp add: scan_int_def Let_def)
qed

text \<open>
  a time zone text of the form \<open>+hh:mm\<close> or \<open>-hh:mm\<close>, with any number of digits, sets the zone to that many
  seconds, positive or negative, and marks the zone as set.
\<close>

theorem set_time_zone_text:
  assumes "hs \<noteq> []" "ms \<noteq> []" "\<forall>c \<in> set hs \<union> set ms. is_digit c"
  shows "tal_time_set_time_zone ((if neg then 0x2D else 0x2B) # hs @ 0x3A # ms) st =
    (OPRT_OK, st\<lparr> ts_tz := (if neg then - 1 else 1) * (int (digits_value hs) * 3600 + int (digits_value ms) * 60), ts_tz_sync := True \<rparr>)"
proof -
  have n: "0x2D \<notin> set hs" "0x2B \<notin> set hs" "0x2D \<notin> set ms" "0x2B \<notin> set ms"
    using assms(3) digit_not_sign by blast+
  have "scan_int (hs @ 0x3A # ms) = Some (int (digits_value hs), 0x3A # ms)"
    using assms by (intro scan_int_digits) (auto simp: is_digit_def)
  moreover have "scan_int ms = Some (int (digits_value ms), [])"
    using scan_int_digits [of ms "[]"] assms by simp
  ultimately have "scan_hh_mm (hs @ 0x3A # ms) = Some (int (digits_value hs), int (digits_value ms))"
    by (simp add: scan_hh_mm_def)
  then show ?thesis
    using n by (cases neg) (simp_all add: tal_time_set_time_zone_def get_time_zone_def Let_def)
qed

theorem set_time_zone_text_witness:
  "ts_tz (snd (tal_time_set_time_zone (cstr ''-05:30'')
     \<lparr> ts_mutex = True, ts_last_ms = 0, ts_tz_sync = False, ts_tz = 0, ts_sz_cnt = 0, ts_sz_zone = [], ts_cloud_sync = False,
       ts_cloud_posix = 0, ts_disable_update = False, ts_sys_last_ms = 0, ts_sys_roll_ms = 0, ts_clk_no = 0 \<rparr>)) = - 19800"
  using set_time_zone_text [of "[0x30, 0x35]" "[0x33, 0x30]" True
     "\<lparr> ts_mutex = True, ts_last_ms = 0, ts_tz_sync = False, ts_tz = 0, ts_sz_cnt = 0, ts_sz_zone = [], ts_cloud_sync = False,
       ts_cloud_posix = 0, ts_disable_update = False, ts_sys_last_ms = 0, ts_sys_roll_ms = 0, ts_clk_no = 0 \<rparr>"]
  by (simp add: is_digit_def digits_value_def cstr_def)

end
