(* ===== verification/TuyaList.thy ===== *)
theory TuyaList
  imports Prelude
begin

text \<open>
  Intrusive linked lists.  The header \<^verbatim>\<open>tuya_list.h\<close> comes with the platform and is not part of the
  sources, so its operations are a parameter: a record of functions on the state \<open>'h\<close> of all links, with
  list heads \<open>'l\<close>, positions \<open>'p\<close> (what a \<^verbatim>\<open>LIST_HEAD *\<close> may point to) and nodes \<open>'n\<close>.
  \<open>list_laws\<close> is its documented behaviour, on links where every node is on at most one list and
  there once.  \<open>seq_lists\<close> shows that the laws can hold.
\<close>

record ('h, 'l, 'p, 'n) list_ops =
  lo_nodes :: "'h \<Rightarrow> 'l \<Rightarrow> 'n list"
  lo_head :: "'l \<Rightarrow> 'p"
  lo_prev :: "'n \<Rightarrow> 'h \<Rightarrow> 'p"
  lo_init :: "'l \<Rightarrow> 'h \<Rightarrow> 'h"
  lo_add :: "'n \<Rightarrow> 'p \<Rightarrow> 'h \<Rightarrow> 'h"
  lo_add_tail :: "'n \<Rightarrow> 'l \<Rightarrow> 'h \<Rightarrow> 'h"
  lo_del :: "'n \<Rightarrow> 'h \<Rightarrow> 'h"

definition lists_ok :: "('h, 'l, 'p, 'n, 'z) list_ops_scheme \<Rightarrow> 'h \<Rightarrow> bool" where
  "lists_ok ops h \<longleftrightarrow> (\<forall>l. distinct (lo_nodes ops h l)) \<and>
     (\<forall>l l' x. x \<in> set (lo_nodes ops h l) \<longrightarrow> x \<in> set (lo_nodes ops h l') \<longrightarrow> l = l')"

definition unlinked :: "('h, 'l, 'p, 'n, 'z) list_ops_scheme \<Rightarrow> 'h \<Rightarrow> 'n \<Rightarrow> bool" where
  "unlinked ops h x \<longleftrightarrow> (\<forall>l. x \<notin> set (lo_nodes ops h l))"

definition list_laws :: "('h, 'l, 'p, 'n, 'z) list_ops_scheme \<Rightarrow> bool" where
  "list_laws ops \<longleftrightarrow>
     (\<forall>h l l'. lo_nodes ops (lo_init ops l h) l' = (if l' = l then [] else lo_nodes ops h l')) \<and>
     (\<forall>h l x. lists_ok ops h \<longrightarrow> x \<in> set (lo_nodes ops h l) \<longrightarrow>
        (\<forall>l'. lo_nodes ops (lo_del ops x h) l' = remove1 x (lo_nodes ops h l'))) \<and>
     (\<forall>h l x. lists_ok ops h \<longrightarrow> unlinked ops h x \<longrightarrow>
        (\<forall>l'. lo_nodes ops (lo_add_tail ops x l h) l' = (if l' = l then lo_nodes ops h l @ [x] else lo_nodes ops h l'))) \<and>
     (\<forall>h l x. lists_ok ops h \<longrightarrow> unlinked ops h x \<longrightarrow>
        (\<forall>l'. lo_nodes ops (lo_add ops x (lo_head ops l) h) l' = (if l' = l then x # lo_nodes ops h l else lo_nodes ops h l'))) \<and>
     (\<forall>h l x y us vs. lists_ok ops h \<longrightarrow> unlinked ops h x \<longrightarrow> lo_nodes ops h l = us @ y # vs \<longrightarrow>
        (\<forall>l'. lo_nodes ops (lo_add ops x (lo_prev ops y h) h) l' = (if l' = l then us @ x # y # vs else lo_nodes ops h l')))"

lemma list_laws_init:
  "list_laws ops \<Longrightarrow> lo_nodes ops (lo_init ops l h) l' = (if l' = l then [] else lo_nodes ops h l')"
  by (simp add: list_laws_def)

lemma list_laws_del:
  "list_laws ops \<Longrightarrow> lists_ok ops h \<Longrightarrow> x \<in> set (lo_nodes ops h l) \<Longrightarrow>
     lo_nodes ops (lo_del ops x h) l' = remove1 x (lo_nodes ops h l')"
  unfolding list_laws_def by blast

lemma list_laws_add_tail:
  "list_laws ops \<Longrightarrow> lists_ok ops h \<Longrightarrow> unlinked ops h x \<Longrightarrow>
     lo_nodes ops (lo_add_tail ops x l h) l' = (if l' = l then lo_nodes ops h l @ [x] else lo_nodes ops h l')"
  unfolding list_laws_def by blast

lemma list_laws_add_head:
  "list_laws ops \<Longrightarrow> lists_ok ops h \<Longrightarrow> unlinked ops h x \<Longrightarrow>
     lo_nodes ops (lo_add ops x (lo_head ops l) h) l' = (if l' = l then x # lo_nodes ops h l else lo_nodes ops h l')"
  unfolding list_laws_def by blast

lemma list_laws_add_before:
  "list_laws ops \<Longrightarrow> lists_ok ops h \<Longrightarrow> unlinked ops h x \<Longrightarrow> lo_nodes ops h l = us @ y # vs \<Longrightarrow>
     lo_nodes ops (lo_add ops x (lo_prev ops y h) h) l' = (if l' = l then us @ x # y # vs else lo_nodes ops h l')"
  unfolding list_laws_def by blast

lemma del_unlinks:
  assumes "list_laws ops" "lists_ok ops h" "x \<in> set (lo_nodes ops h l)"
  shows "unlinked ops (lo_del ops x h) x" "lists_ok ops (lo_del ops x h)"
  using assms(2) list_laws_del [OF assms] unfolding unlinked_def lists_ok_def
  by (auto dest: notin_set_remove1)

lemma ok_add_tail:
  assumes "list_laws ops" "lists_ok ops h" "unlinked ops h x"
  shows "lists_ok ops (lo_add_tail ops x l h)"
  using assms(2,3) list_laws_add_tail [OF assms, of l] unfolding lists_ok_def unlinked_def by auto

lemma ok_add_head:
  assumes "list_laws ops" "lists_ok ops h" "unlinked ops h x"
  shows "lists_ok ops (lo_add ops x (lo_head ops l) h)"
  using assms(2,3) list_laws_add_head [OF assms, of l] unfolding lists_ok_def unlinked_def by auto

text \<open>
  A walk over a list for the first node whose object satisfies \<open>P\<close>; the objects are on a heap, and reading
  one that is not allocated is \<open>None\<close>.
\<close>

fun find_node :: "('n \<rightharpoonup> 'a) \<Rightarrow> ('a \<Rightarrow> bool) \<Rightarrow> 'n list \<Rightarrow> 'n option option" where
  "find_node heap P [] = Some None"
| "find_node heap P (x # xs) = do { a \<leftarrow> heap x; if P a then Some (Some x) else find_node heap P xs }"

lemma find_node_find:
  "set xs \<subseteq> dom heap \<Longrightarrow> find_node heap P xs = Some (find (\<lambda>x. P (the (heap x))) xs)"
  by (induction xs) auto

section \<open>Lists that satisfy the laws\<close>

datatype ('l, 'n) seq_pos = Front 'l | Before 'n

fun insert_before :: "'n \<Rightarrow> 'n \<Rightarrow> 'n list \<Rightarrow> 'n list" where
  "insert_before x y [] = []"
| "insert_before x y (z # zs) = (if z = y then x # z # zs else z # insert_before x y zs)"

definition seq_add :: "'n \<Rightarrow> ('l, 'n) seq_pos \<Rightarrow> ('l \<Rightarrow> 'n list) \<Rightarrow> ('l \<Rightarrow> 'n list)" where
  "seq_add x p h = (case p of Front l \<Rightarrow> h(l := x # h l) | Before y \<Rightarrow> (\<lambda>l. insert_before x y (h l)))"

definition seq_lists :: "('l \<Rightarrow> 'n list, 'l, ('l, 'n) seq_pos, 'n) list_ops" where
  "seq_lists = \<lparr> lo_nodes = \<lambda>h. h, lo_head = Front, lo_prev = \<lambda>y h. Before y, lo_init = \<lambda>l h. h(l := []),
     lo_add = seq_add, lo_add_tail = \<lambda>x l h. h(l := h l @ [x]), lo_del = \<lambda>x h l. remove1 x (h l) \<rparr>"

lemma insert_before_notin: "y \<notin> set zs \<Longrightarrow> insert_before x y zs = zs"
  by (induction zs) auto

lemma insert_before_at: "y \<notin> set us \<Longrightarrow> insert_before x y (us @ y # vs) = us @ x # y # vs"
  by (induction us) auto

lemma seq_lists_laws: "list_laws seq_lists"
proof -
  have "seq_add x (Before y) h l' = (if l' = l then us @ x # y # vs else h l')"
    if "lists_ok seq_lists h" "h l = us @ y # vs" for h :: "'a \<Rightarrow> 'b list" and l l' us vs x y
  proof (cases "l' = l")
    case True
    then show ?thesis
      using that insert_before_at [of y us x vs] by (auto simp: seq_add_def lists_ok_def seq_lists_def) (metis distinct_append not_distinct_conv_prefix disjoint_iff list.set_intros(1))
  next
    case False
    then have "y \<notin> set (h l')"
      using that by (auto simp: lists_ok_def seq_lists_def)
    then show ?thesis
      using False by (simp add: seq_add_def insert_before_notin)
  qed
  then show ?thesis
    unfolding list_laws_def by (auto simp: seq_lists_def seq_add_def)
qed

end
