(* ===== verification/SwTimer.thy ===== *)
theory SwTimer
  imports TuyaList TimeService
begin

text \<open>
  Software timers, \<^verbatim>\<open>src/src/tal_system/src/tal_sw_timer.c\<close>.  A timer is an object of the heap, named by its
  address (\<open>0\<close> is \<^verbatim>\<open>NULL\<close>); access to an address that is not allocated is \<open>None\<close>.  The two
  lists of the manager are lists of the platform (theory \<open>TuyaList\<close>).  Callbacks are application code: the
  dispatcher takes what a callback does to the manager as an argument, and likewise what other threads do
  between the end of its critical section and the call.
\<close>

section \<open>State\<close>

datatype timer_type = TAL_TIMER_ONCE | TAL_TIMER_CYCLE

record timer =
  tmr_cb :: nat
  tmr_data :: nat
  tmr_expire_time :: u64
  tmr_interval :: u32
  tmr_is_running :: bool
  tmr_timer_id :: nat
  tmr_type :: timer_type

datatype timer_head = List_active | List_standby

record 'h timer_mgr =
  tm_links :: 'h
  tm_heap :: "nat \<rightharpoonup> timer"
  tm_total_cnt :: u16
  tm_running_cnt :: u16
  tm_inited :: bool
  tm_last_cb :: nat
  tm_posts :: nat
  tm_time :: time_state

type_synonym ('h, 'p) timer_lists = "('h, timer_head, 'p, nat) list_ops"

abbreviation (input) SEM_WAIT_FOREVER :: u32 where "SEM_WAIT_FOREVER \<equiv> 0xFFFFFFFF"

text \<open>\<^verbatim>\<open>tal_time_get_system_time\<close> and the product of its two results.\<close>

definition now_ms :: "ms_clock \<Rightarrow> 'h timer_mgr \<Rightarrow> u64 \<times> 'h timer_mgr" where
  "now_ms clk m =
     (let ((sec, ms), tt) = tal_time_get_system_time clk (tm_time m)
      in (of_int sec * 1000 + of_int ms, m\<lparr> tm_time := tt \<rparr>))"

section \<open>Operations\<close>

fun attach_pos :: "(nat \<rightharpoonup> timer) \<Rightarrow> u64 \<Rightarrow> nat list \<Rightarrow> nat option option" where
  "attach_pos heap e [] = Some None"
| "attach_pos heap e (y # ys) = do {
     t \<leftarrow> heap y;
     if tmr_expire_time t \<ge> e then Some (Some y) else attach_pos heap e ys }"

definition timer_attach :: "('h, 'p) timer_lists \<Rightarrow> nat \<Rightarrow> 'h timer_mgr \<Rightarrow> 'h timer_mgr option" where
  "timer_attach ops x m = do {
     t \<leftarrow> tm_heap m x;
     (let h = lo_del ops x (tm_links m) in
      if lo_nodes ops h List_active = [] then Some (m\<lparr> tm_links := lo_add_tail ops x List_active h \<rparr>)
      else do {
        pos \<leftarrow> attach_pos (tm_heap m) (tmr_expire_time t) (lo_nodes ops h List_active);
        Some (m\<lparr> tm_links := (case pos of None \<Rightarrow> lo_add_tail ops x List_active h
                                       | Some y \<Rightarrow> lo_add ops x (lo_prev ops y h) h) \<rparr>) }) }"

definition to_standby :: "('h, 'p) timer_lists \<Rightarrow> nat \<Rightarrow> timer \<Rightarrow> 'h timer_mgr \<Rightarrow> 'h timer_mgr" where
  "to_standby ops x t m = m\<lparr> tm_heap := (tm_heap m)(x \<mapsto> t\<lparr> tmr_is_running := False \<rparr>), tm_running_cnt := tm_running_cnt m - 1,
     tm_links := lo_add_tail ops x List_standby (lo_del ops x (tm_links m)) \<rparr>"

definition sem_post :: "'h timer_mgr \<Rightarrow> 'h timer_mgr" where
  "sem_post m = m\<lparr> tm_posts := tm_posts m + 1 \<rparr>"

text \<open>
  One round of the dispatcher inside its critical section: either nothing is due and the time to the next
  expiry is known (\<open>None\<close> when no timer is active), or a timer has expired.
\<close>

datatype poll_result = Poll_idle "u32 option" | Poll_fire nat nat

definition timer_poll :: "('h, 'p) timer_lists \<Rightarrow> ms_clock \<Rightarrow> 'h timer_mgr \<Rightarrow> (poll_result \<times> 'h timer_mgr) option" where
  "timer_poll ops clk m =
     (let (now, m) = now_ms clk m in
      case lo_nodes ops (tm_links m) List_active of
        [] \<Rightarrow> Some (Poll_idle None, m)
      | x # _ \<Rightarrow> do {
          t \<leftarrow> tm_heap m x;
          if tmr_expire_time t > now then Some (Poll_idle (Some (ucast (tmr_expire_time t - now))), m)
          else if tmr_type t = TAL_TIMER_ONCE then Some (Poll_fire x (tmr_cb t), to_standby ops x t m)
          else do {
            m \<leftarrow> timer_attach ops x
              (m\<lparr> tm_heap := (tm_heap m)(x \<mapsto> t\<lparr> tmr_expire_time := now + ucast (tmr_interval t) \<rparr>) \<rparr>);
            Some (Poll_fire x (tmr_cb t), m) } })"

text \<open>
  The dispatcher; the list in its result is the ghost record of the calls it made.  \<open>other\<close> is what other
  threads do once the mutex is released, and the object is read again after that.
\<close>

fun timer_dispatch ::
  "nat \<Rightarrow> ('h, 'p) timer_lists \<Rightarrow> ms_clock \<Rightarrow> (nat \<Rightarrow> nat \<Rightarrow> nat \<Rightarrow> 'h timer_mgr \<Rightarrow> 'h timer_mgr) \<Rightarrow> ('h timer_mgr \<Rightarrow> 'h timer_mgr) \<Rightarrow>
     u32 \<Rightarrow> 'h timer_mgr \<Rightarrow> ((nat \<times> nat \<times> nat) list \<times> u32 \<times> 'h timer_mgr) option" where
  "timer_dispatch 0 ops clk call other next_expired m = None"
| "timer_dispatch (Suc fuel) ops clk call other next_expired m = do {
     (r, m) \<leftarrow> timer_poll ops clk m;
     (case r of
        Poll_idle None \<Rightarrow> Some ([], next_expired, m)
      | Poll_idle (Some w) \<Rightarrow> Some ([], w, m)
      | Poll_fire x cb \<Rightarrow>
        (let m = other m in
         if cb = 0 then timer_dispatch fuel ops clk call other next_expired m
         else do {
           t \<leftarrow> tm_heap m x;
           (let m = (call cb (tmr_timer_id t) (tmr_data t) (m\<lparr> tm_last_cb := cb \<rparr>))\<lparr> tm_last_cb := 0 \<rparr> in do {
            (calls, nx, m) \<leftarrow> timer_dispatch fuel ops clk call other next_expired m;
            Some ((cb, tmr_timer_id t, tmr_data t) # calls, nx, m) }) })) }"

definition tal_sw_timer_init :: "('h, 'p) timer_lists \<Rightarrow> operate_ret \<Rightarrow> 'h timer_mgr \<Rightarrow> operate_ret \<times> 'h timer_mgr" where
  "tal_sw_timer_init ops thread_rc m =
     (if tm_inited m then (OPRT_OK, m)
      else
        (let m = m\<lparr> tm_posts := 0, tm_links := lo_init ops List_standby (lo_init ops List_active (tm_links m)) \<rparr> in
         (thread_rc, if thread_rc = OPRT_OK then m\<lparr> tm_inited := True \<rparr> else m)))"

text \<open>\<open>ptr\<close> is the result of the allocation, \<open>want_id\<close> whether the caller passes a place for the identifier.\<close>

definition tal_sw_timer_create ::
  "('h, 'p) timer_lists \<Rightarrow> nat \<Rightarrow> nat \<Rightarrow> bool \<Rightarrow> nat \<Rightarrow> 'h timer_mgr \<Rightarrow> operate_ret \<times> nat option \<times> 'h timer_mgr" where
  "tal_sw_timer_create ops func arg want_id ptr m =
     (if func = 0 \<or> \<not> want_id then (OPRT_INVALID_PARM, None, m)
      else if ptr = 0 then (OPRT_MALLOC_FAILED, None, m)
      else
        (let t = \<lparr> tmr_cb = func, tmr_data = arg, tmr_expire_time = 0, tmr_interval = 0, tmr_is_running = False,
                   tmr_timer_id = ptr, tmr_type = TAL_TIMER_ONCE \<rparr> in
         (OPRT_OK, Some ptr, m\<lparr> tm_heap := (tm_heap m)(ptr \<mapsto> t), tm_total_cnt := tm_total_cnt m + 1,
            tm_links := lo_add_tail ops ptr List_standby (tm_links m) \<rparr>)))"

definition tal_sw_timer_delete :: "('h, 'p) timer_lists \<Rightarrow> nat \<Rightarrow> 'h timer_mgr \<Rightarrow> (operate_ret \<times> 'h timer_mgr) option" where
  "tal_sw_timer_delete ops x m =
     (if x = 0 then Some (OPRT_INVALID_PARM, m)
      else do {
        t \<leftarrow> tm_heap m x;
        Some (OPRT_OK, sem_post (m\<lparr> tm_links := lo_del ops x (tm_links m), tm_total_cnt := tm_total_cnt m - 1,
          tm_running_cnt := (if tmr_is_running t then tm_running_cnt m - 1 else tm_running_cnt m),
          tm_heap := (tm_heap m)(x := None) \<rparr>)) })"

definition tal_sw_timer_stop :: "('h, 'p) timer_lists \<Rightarrow> nat \<Rightarrow> 'h timer_mgr \<Rightarrow> (operate_ret \<times> 'h timer_mgr) option" where
  "tal_sw_timer_stop ops x m =
     (if x = 0 then Some (OPRT_INVALID_PARM, m)
      else do {
        t \<leftarrow> tm_heap m x;
        Some (OPRT_OK, sem_post (if tmr_is_running t then to_standby ops x t m else m)) })"

text \<open>The result is an integer in the code too: the error code is returned as the truth value.\<close>

definition tal_sw_timer_is_running :: "nat \<Rightarrow> 'h timer_mgr \<Rightarrow> int option" where
  "tal_sw_timer_is_running x m =
     (if x = 0 then Some OPRT_INVALID_PARM else map_option (\<lambda>t. of_bool (tmr_is_running t)) (tm_heap m x))"

definition tal_sw_timer_remain_time_get ::
  "ms_clock \<Rightarrow> nat \<Rightarrow> bool \<Rightarrow> 'h timer_mgr \<Rightarrow> (operate_ret \<times> u32 option \<times> 'h timer_mgr) option" where
  "tal_sw_timer_remain_time_get clk x want m =
     (if x = 0 \<or> \<not> want then Some (OPRT_INVALID_PARM, None, m)
      else
        (let (now, m) = now_ms clk m in do {
         t \<leftarrow> tm_heap m x;
         if \<not> tmr_is_running t then Some (sint (tmr_interval t), None, m)
         else Some (OPRT_OK, Some (if tmr_expire_time t > now then ucast (tmr_expire_time t - now) else 0), m) }))"

definition tal_sw_timer_start ::
  "('h, 'p) timer_lists \<Rightarrow> ms_clock \<Rightarrow> nat \<Rightarrow> u32 \<Rightarrow> timer_type \<Rightarrow> 'h timer_mgr \<Rightarrow> (operate_ret \<times> 'h timer_mgr) option" where
  "tal_sw_timer_start ops clk x time_ms ty m =
     (if x = 0 then Some (OPRT_INVALID_PARM, m)
      else
        (let (now, m) = now_ms clk m in do {
         t \<leftarrow> tm_heap m x;
         (let t' = t\<lparr> tmr_is_running := True, tmr_interval := (if time_ms \<noteq> 0 then time_ms else tmr_interval t), tmr_type := ty \<rparr>;
              t' = t'\<lparr> tmr_expire_time := now + ucast (tmr_interval t') \<rparr> in do {
          m \<leftarrow> timer_attach ops x
            (m\<lparr> tm_heap := (tm_heap m)(x \<mapsto> t'), tm_running_cnt := (if tmr_is_running t then tm_running_cnt m else tm_running_cnt m + 1) \<rparr>);
          Some (OPRT_OK, sem_post m) }) }))"

definition tal_sw_timer_trigger :: "('h, 'p) timer_lists \<Rightarrow> nat \<Rightarrow> 'h timer_mgr \<Rightarrow> (operate_ret \<times> 'h timer_mgr) option" where
  "tal_sw_timer_trigger ops x m =
     (if x = 0 then Some (OPRT_INVALID_PARM, m)
      else do {
        t \<leftarrow> tm_heap m x;
        (let m = m\<lparr> tm_heap := (tm_heap m)(x \<mapsto> t\<lparr> tmr_expire_time := 0 \<rparr>) \<rparr> in
         Some (OPRT_OK, sem_post (if tmr_is_running t
           then m\<lparr> tm_links := lo_add ops x (lo_head ops List_active) (lo_del ops x (tm_links m)) \<rparr> else m))) })"

definition tal_sw_timer_release :: "'h timer_mgr \<Rightarrow> operate_ret \<times> 'h timer_mgr" where
  "tal_sw_timer_release m = (OPRT_OK, m)"

definition tal_sw_timer_get_num :: "'h timer_mgr \<Rightarrow> int" where
  "tal_sw_timer_get_num m = uint (tm_running_cnt m)"

section \<open>Steps\<close>

text \<open>
  The manager runs by calls of its interface, from any thread and from callbacks, and by rounds of the
  dispatcher; each happens under the mutex.  The clock may be read by others in between.
\<close>

definition timer_start :: "('h, 'p) timer_lists \<Rightarrow> 'h timer_mgr \<Rightarrow> bool" where
  "timer_start ops m \<longleftrightarrow> (\<exists>m0. \<not> tm_inited m0 \<and> tm_heap m0 = Map.empty \<and> tm_total_cnt m0 = 0 \<and> tm_running_cnt m0 = 0 \<and>
     tal_sw_timer_init ops OPRT_OK m0 = (OPRT_OK, m))"

inductive timer_step :: "('h, 'p) timer_lists \<Rightarrow> ms_clock \<Rightarrow> 'h timer_mgr \<Rightarrow> 'h timer_mgr \<Rightarrow> bool" for ops clk where
  step_init: "tal_sw_timer_init ops rc m = (rc', m') \<Longrightarrow> timer_step ops clk m m'"
| step_create: "tm_heap m ptr = None \<Longrightarrow> tal_sw_timer_create ops func arg want ptr m = (rc, tid, m') \<Longrightarrow> timer_step ops clk m m'"
| step_delete: "tal_sw_timer_delete ops x m = Some (rc, m') \<Longrightarrow> timer_step ops clk m m'"
| step_stop: "tal_sw_timer_stop ops x m = Some (rc, m') \<Longrightarrow> timer_step ops clk m m'"
| step_start: "tal_sw_timer_start ops clk x ms ty m = Some (rc, m') \<Longrightarrow> timer_step ops clk m m'"
| step_trigger: "tal_sw_timer_trigger ops x m = Some (rc, m') \<Longrightarrow> timer_step ops clk m m'"
| step_poll: "timer_poll ops clk m = Some (r, m') \<Longrightarrow> timer_step ops clk m m'"
| step_call: "timer_step ops clk m (m\<lparr> tm_last_cb := cb \<rparr>)"
| step_time: "timer_step ops clk m (m\<lparr> tm_time := tt \<rparr>)"

inductive_cases timer_stepE: "timer_step ops clk m m'"

section \<open>The invariant\<close>

definition expire_of :: "(nat \<rightharpoonup> timer) \<Rightarrow> nat \<Rightarrow> u64" where
  "expire_of heap x = (case heap x of None \<Rightarrow> 0 | Some t \<Rightarrow> tmr_expire_time t)"

text \<open>
  The two lists share the allocated timers, each on one of them once; the running ones are the active ones,
  in the order of their expiry; and the counters count them.
\<close>

definition timer_view :: "nat list \<Rightarrow> nat list \<Rightarrow> 'h timer_mgr \<Rightarrow> bool" where
  "timer_view as ss m \<longleftrightarrow>
     distinct (as @ ss) \<and> dom (tm_heap m) = set as \<union> set ss \<and>
     (\<forall>x t. tm_heap m x = Some t \<longrightarrow> tmr_timer_id t = x \<and> x \<noteq> 0 \<and> tmr_cb t \<noteq> 0 \<and> (tmr_is_running t \<longleftrightarrow> x \<in> set as)) \<and>
     sorted (map (expire_of (tm_heap m)) as) \<and>
     tm_total_cnt m = of_nat (length as + length ss) \<and> tm_running_cnt m = of_nat (length as) \<and> tm_inited m"

definition timer_inv :: "('h, 'p) timer_lists \<Rightarrow> 'h timer_mgr \<Rightarrow> bool" where
  "timer_inv ops m \<longleftrightarrow> timer_view (lo_nodes ops (tm_links m) List_active) (lo_nodes ops (tm_links m) List_standby) m"


lemma timer_head_all: "(\<forall>l. P l) \<longleftrightarrow> P List_active \<and> P List_standby"
  by (metis timer_head.exhaust)

lemma timer_head_ex: "(\<exists>l. P l) \<longleftrightarrow> P List_active \<or> P List_standby"
  by (metis timer_head.exhaust)

lemma inv_lists_ok: "timer_inv ops m \<Longrightarrow> lists_ok ops (tm_links m)"
  unfolding timer_inv_def timer_view_def lists_ok_def by (auto simp: timer_head_all)

lemma inv_linked: "timer_inv ops m \<Longrightarrow> tm_heap m x = Some t \<Longrightarrow> \<exists>l. x \<in> set (lo_nodes ops (tm_links m) l)"
  unfolding timer_inv_def timer_view_def timer_head_ex by blast

lemma inv_del:
  assumes "list_laws ops" "timer_inv ops m" "tm_heap m x = Some t"
  shows "unlinked ops (lo_del ops x (tm_links m)) x" "lists_ok ops (lo_del ops x (tm_links m))"
    "lo_nodes ops (lo_del ops x (tm_links m)) l = remove1 x (lo_nodes ops (tm_links m) l)"
proof -
  obtain l' where "x \<in> set (lo_nodes ops (tm_links m) l')"
    using inv_linked [OF assms(2,3)] ..
  with del_unlinks [OF assms(1) inv_lists_ok [OF assms(2)]] list_laws_del [OF assms(1) inv_lists_ok [OF assms(2)]]
  show "unlinked ops (lo_del ops x (tm_links m)) x" "lists_ok ops (lo_del ops x (tm_links m))"
    "lo_nodes ops (lo_del ops x (tm_links m)) l = remove1 x (lo_nodes ops (tm_links m) l)"
    by blast+
qed

lemma attach_pos_find:
  "\<forall>y \<in> set ys. heap y \<noteq> None \<Longrightarrow>
     attach_pos heap e ys = Some (case dropWhile (\<lambda>y. expire_of heap y < e) ys of [] \<Rightarrow> None | y # _ \<Rightarrow> Some y)"
  by (induction ys) (auto simp: expire_of_def)

definition insert_by :: "('a \<Rightarrow> 'b :: linorder) \<Rightarrow> 'a \<Rightarrow> 'a list \<Rightarrow> 'a list" where
  "insert_by f x ys = takeWhile (\<lambda>y. f y < f x) ys @ x # dropWhile (\<lambda>y. f y < f x) ys"

lemma set_insert_by [simp]: "set (insert_by f x ys) = insert x (set ys)"
  unfolding insert_by_def by (metis Un_insert_right list.simps(15) set_append takeWhile_dropWhile_id)

lemma length_insert_by [simp]: "length (insert_by f x ys) = Suc (length ys)"
  unfolding insert_by_def by (metis add_Suc_right length_Cons length_append takeWhile_dropWhile_id)

lemma distinct_insert_by [simp]: "distinct (insert_by f x ys) \<longleftrightarrow> x \<notin> set ys \<and> distinct ys"
proof -
  have "distinct (us @ x # vs) \<longleftrightarrow> x \<notin> set (us @ vs) \<and> distinct (us @ vs)" for us vs
    by auto
  then show ?thesis
    unfolding insert_by_def by (metis takeWhile_dropWhile_id)
qed

lemma sorted_insert_by: "sorted (map f ys) \<Longrightarrow> sorted (map f (insert_by f x ys))"
proof (induction ys)
  case (Cons y ys)
  then show ?case
    by (auto simp: insert_by_def dest: set_takeWhileD set_dropWhileD order_trans[of "f x" "f y"])
qed (simp add: insert_by_def)

lemma timer_attach_nodes:
  assumes laws: "list_laws ops" and ok: "lists_ok ops (tm_links m)" "x \<in> set (lo_nodes ops (tm_links m) l)"
    and heap: "tm_heap m x = Some t" "\<forall>y \<in> set (lo_nodes ops (tm_links m) List_active). tm_heap m y \<noteq> None"
  shows "\<exists>h. timer_attach ops x m = Some (m\<lparr> tm_links := h \<rparr>) \<and>
    lo_nodes ops h List_active = insert_by (expire_of (tm_heap m)) x (remove1 x (lo_nodes ops (tm_links m) List_active)) \<and>
    lo_nodes ops h List_standby = remove1 x (lo_nodes ops (tm_links m) List_standby)"
proof -
  define h where "h = lo_del ops x (tm_links m)"
  define as where "as = lo_nodes ops h List_active"
  note del = list_laws_del [OF laws ok, folded h_def]
  note un = del_unlinks [OF laws ok, folded h_def]
  have e: "tmr_expire_time t = expire_of (tm_heap m) x"
    using heap(1) by (simp add: expire_of_def)
  have "\<forall>y \<in> set as. tm_heap m y \<noteq> None"
    unfolding as_def del using heap(2) by (metis notin_set_remove1)
  note pos = attach_pos_find [OF this, of "expire_of (tm_heap m) x"]
  note tl = list_laws_add_tail [OF laws un(2,1), of List_active]
  show ?thesis
  proof (cases "dropWhile (\<lambda>y. expire_of (tm_heap m) y < expire_of (tm_heap m) x) as")
    case Nil
    then have all: "insert_by (expire_of (tm_heap m)) x as = as @ [x]"
      unfolding insert_by_def by (metis append.right_neutral takeWhile_dropWhile_id)
    have "timer_attach ops x m = Some (m\<lparr> tm_links := lo_add_tail ops x List_active h \<rparr>)"
      using heap(1) pos Nil by (simp add: timer_attach_def e flip: h_def as_def)
    then show ?thesis
      using all by (intro exI [of _ "lo_add_tail ops x List_active h"]) (simp add: tl flip: del as_def)
  next
    case (Cons y vs)
    then have ne: "as \<noteq> []" by auto
    have "as = takeWhile (\<lambda>y. expire_of (tm_heap m) y < expire_of (tm_heap m) x) as @ y # vs"
      by (metis Cons takeWhile_dropWhile_id)
    note bf = list_laws_add_before [OF laws un(2,1) this [unfolded as_def], folded as_def]
    have "timer_attach ops x m = Some (m\<lparr> tm_links := lo_add ops x (lo_prev ops y h) h \<rparr>)"
      using heap(1) pos Cons ne by (simp add: timer_attach_def e flip: h_def as_def)
    then show ?thesis
      using Cons by (intro exI [of _ "lo_add ops x (lo_prev ops y h) h"]) (simp add: bf insert_by_def flip: del as_def)
  qed
qed

section \<open>The invariant is kept\<close>

text \<open>What the list and heap updates of the operations do to the lists of the invariant.\<close>

lemma remove1_counts:
  "x \<in> set xs \<Longrightarrow> of_nat (length (remove1 x xs)) = (of_nat (length xs) - 1 :: 'a :: ring_1)"
  by (induction xs) (auto simp del: length_remove1)

lemma expire_of_other: "y \<noteq> x \<Longrightarrow> expire_of (heap(x := v)) y = expire_of heap y"
  by (simp add: expire_of_def)

lemma sorted_rest:
  assumes "sorted (map (expire_of heap) as)" "distinct as"
  shows "sorted (map (expire_of (heap(x := v))) (remove1 x as))"
proof -
  have "map (expire_of (heap(x := v))) (remove1 x as) = map (expire_of heap) (remove1 x as)"
    using assms(2) by (auto simp: expire_of_def)
  then show ?thesis
    using sorted_map_remove1 [OF assms(1), of x] by (simp only:)
qed

lemma view_running: "timer_view as ss m \<Longrightarrow> tm_heap m x = Some t \<Longrightarrow> (tmr_is_running t \<longleftrightarrow> x \<in> set as) \<and> (tmr_is_running t \<longleftrightarrow> x \<notin> set ss)"
  unfolding timer_view_def by (metis (no_types, lifting) Un_iff disjoint_iff distinct_append domI)

lemma viewD:
  assumes "timer_view as ss m"
  shows "distinct as" "distinct ss" "set as \<inter> set ss = {}" "sorted (map (expire_of (tm_heap m)) as)"
    "tm_total_cnt m = of_nat (length as + length ss)" "tm_running_cnt m = of_nat (length as)"
    "dom (tm_heap m) = set as \<union> set ss" "tm_inited m"
    "\<forall>y u. tm_heap m y = Some u \<longrightarrow> tmr_timer_id u = y \<and> y \<noteq> 0 \<and> tmr_cb u \<noteq> 0 \<and> (tmr_is_running u \<longleftrightarrow> y \<in> set as)"
  using assms unfolding timer_view_def by auto

lemma view_attach:
  assumes v: "timer_view as ss m" and x: "tm_heap m x = Some t"
    and t': "tmr_is_running t'" "tmr_timer_id t' = x" "tmr_cb t' \<noteq> 0"
    and m': "tm_heap m' = (tm_heap m)(x \<mapsto> t')" "tm_total_cnt m' = tm_total_cnt m" "tm_inited m'"
      "tm_running_cnt m' = (if tmr_is_running t then tm_running_cnt m else tm_running_cnt m + 1)"
  shows "timer_view (insert_by (expire_of (tm_heap m')) x (remove1 x as)) (remove1 x ss) m'"
proof -
  note run = view_running [OF v x]
  have "(of_nat (Suc (length (remove1 x as)) + length (remove1 x ss)) :: u16) = of_nat (length as + length ss)"
    "(of_nat (Suc (length (remove1 x as))) :: u16) = (if tmr_is_running t then of_nat (length as) else of_nat (length as) + 1)"
    using run remove1_counts [of x as, where ?'a = u16] remove1_counts [of x ss, where ?'a = u16]
    by (auto simp: remove1_idem add.commute)
  then show ?thesis
    unfolding timer_view_def m'
    using sorted_insert_by [OF sorted_rest [OF viewD(4,1) [OF v], of x "Some t'"], of x] viewD [OF v] x t' m'(3)
    by (auto simp: dom_def)
qed

lemma view_move:
  assumes v: "timer_view as ss m" and x: "tm_heap m x = Some t" "tmr_is_running t"
    and m': "tm_heap m' = (tm_heap m)(x \<mapsto> t\<lparr> tmr_is_running := False \<rparr>)" "tm_total_cnt m' = tm_total_cnt m"
      "tm_inited m' = tm_inited m" "tm_running_cnt m' = tm_running_cnt m - 1"
  shows "timer_view (remove1 x as) (remove1 x ss @ [x]) m'"
proof -
  note run = view_running [OF v x(1)]
  have "(of_nat (length (remove1 x as) + Suc (length (remove1 x ss))) :: u16) = of_nat (length as + length ss)"
    "(of_nat (length (remove1 x as)) :: u16) = of_nat (length as) - 1"
    using run x(2) remove1_counts [of x as, where ?'a = u16] by (auto simp: remove1_idem)
  then show ?thesis
    unfolding timer_view_def m'
    using sorted_rest [OF viewD(4,1) [OF v], of x "Some (t\<lparr> tmr_is_running := False \<rparr>)"] viewD [OF v] x run
    by (auto simp: dom_def)
qed

lemma view_delete:
  assumes v: "timer_view as ss m" and x: "tm_heap m x = Some t"
    and m': "tm_heap m' = (tm_heap m)(x := None)" "tm_total_cnt m' = tm_total_cnt m - 1" "tm_inited m' = tm_inited m"
      "tm_running_cnt m' = (if tmr_is_running t then tm_running_cnt m - 1 else tm_running_cnt m)"
  shows "timer_view (remove1 x as) (remove1 x ss) m'"
proof -
  note run = view_running [OF v x]
  have "(of_nat (length (remove1 x as) + length (remove1 x ss)) :: u16) = of_nat (length as + length ss) - 1"
    "(of_nat (length (remove1 x as)) :: u16) = (if tmr_is_running t then of_nat (length as) - 1 else of_nat (length as))"
    using run remove1_counts [of x as, where ?'a = u16] remove1_counts [of x ss, where ?'a = u16]
    by (auto simp: remove1_idem)
  then show ?thesis
    unfolding timer_view_def m'
    using sorted_rest [OF viewD(4,1) [OF v], of x None] viewD [OF v] x
    by (auto simp: dom_def)
qed

lemma view_create:
  assumes v: "timer_view as ss m" and p: "tm_heap m p = None" "p \<noteq> 0"
    and t: "\<not> tmr_is_running t" "tmr_timer_id t = p" "tmr_cb t \<noteq> 0"
    and m': "tm_heap m' = (tm_heap m)(p \<mapsto> t)" "tm_total_cnt m' = tm_total_cnt m + 1" "tm_inited m' = tm_inited m"
      "tm_running_cnt m' = tm_running_cnt m"
  shows "timer_view as (ss @ [p]) m'"
proof -
  have "p \<notin> set as" "p \<notin> set ss"
    using v p unfolding timer_view_def by auto
  moreover from this have "sorted (map (expire_of ((tm_heap m)(p \<mapsto> t))) as)"
    using sorted_rest [OF viewD(4,1) [OF v], of p "Some t"] by (simp add: remove1_idem)
  ultimately show ?thesis
    using v p t unfolding timer_view_def m' by (auto simp: add_ac)
qed

lemma view_front:
  assumes v: "timer_view as ss m" and x: "tm_heap m x = Some t" "tmr_is_running t"
    and m': "tm_heap m' = (tm_heap m)(x \<mapsto> t\<lparr> tmr_expire_time := 0 \<rparr>)" "tm_total_cnt m' = tm_total_cnt m"
      "tm_inited m'" "tm_running_cnt m' = tm_running_cnt m"
  shows "timer_view (x # remove1 x as) (remove1 x ss) m'"
proof -
  have e: "expire_of (tm_heap m') x = 0"
    by (simp add: m'(1) expire_of_def)
  have "insert_by (expire_of (tm_heap m')) x ys = x # ys" for ys
    by (cases ys) (simp_all add: insert_by_def e)
  moreover have "tmr_timer_id t = x" "tmr_cb t \<noteq> 0"
    using viewD(9) [OF v] x(1) by blast+
  ultimately show ?thesis
    using view_attach [OF v x(1), of "t\<lparr> tmr_expire_time := 0 \<rparr>" m'] x m' by simp
qed

lemma view_other:
  assumes v: "timer_view as ss m" and x: "tm_heap m x = Some t" "\<not> tmr_is_running t"
  shows "timer_view as ss (m\<lparr> tm_heap := (tm_heap m)(x \<mapsto> t\<lparr> tmr_expire_time := e \<rparr>) \<rparr>)"
proof -
  have "x \<notin> set as"
    using view_running [OF v x(1)] x(2) by blast
  then have "sorted (map (expire_of ((tm_heap m)(x \<mapsto> t\<lparr> tmr_expire_time := e \<rparr>))) as)"
    using sorted_rest [OF viewD(4,1) [OF v], of x "Some (t\<lparr> tmr_expire_time := e \<rparr>)"] by (simp add: remove1_idem)
  then show ?thesis
    using v x unfolding timer_view_def by (auto simp: dom_def)
qed

lemma view_irrelevant [simp]:
  "timer_view as ss (m\<lparr> tm_time := tt \<rparr>) = timer_view as ss m"
  "timer_view as ss (m\<lparr> tm_last_cb := cb \<rparr>) = timer_view as ss m"
  "timer_view as ss (m\<lparr> tm_posts := n \<rparr>) = timer_view as ss m"
  "timer_view as ss (m\<lparr> tm_links := h \<rparr>) = timer_view as ss m"
  by (simp_all add: timer_view_def)

lemma inv_irrelevant [simp]:
  "timer_inv ops (m\<lparr> tm_time := tt \<rparr>) = timer_inv ops m"
  "timer_inv ops (m\<lparr> tm_last_cb := cb \<rparr>) = timer_inv ops m"
  "timer_inv ops (sem_post m) = timer_inv ops m"
  by (simp_all add: timer_inv_def sem_post_def)

lemma inv_timer: "timer_inv ops m \<Longrightarrow> tm_heap m x = Some t \<Longrightarrow> tmr_timer_id t = x \<and> x \<noteq> 0 \<and> tmr_cb t \<noteq> 0"
  unfolding timer_inv_def timer_view_def by blast

lemma inv_alloc: "timer_inv ops m \<Longrightarrow> x \<in> set (lo_nodes ops (tm_links m) l) \<Longrightarrow> tm_heap m x \<noteq> None"
  unfolding timer_inv_def timer_view_def by (cases l) auto

lemma attach_inv:
  assumes laws: "list_laws ops" and inv: "timer_inv ops m" and x: "tm_heap m x = Some t"
    and t': "tmr_is_running t'" "tmr_timer_id t' = x" "tmr_cb t' \<noteq> 0"
    and m1: "m1 = m\<lparr> tm_heap := (tm_heap m)(x \<mapsto> t'), tm_running_cnt := (if tmr_is_running t then tm_running_cnt m else tm_running_cnt m + 1) \<rparr>"
  shows "\<exists>h. timer_attach ops x m1 = Some (m1\<lparr> tm_links := h \<rparr>) \<and> timer_inv ops (m1\<lparr> tm_links := h \<rparr>) \<and>
    lo_nodes ops h List_active = insert_by (expire_of (tm_heap m1)) x (remove1 x (lo_nodes ops (tm_links m) List_active))"
proof -
  obtain l where l: "x \<in> set (lo_nodes ops (tm_links m1) l)"
    using inv_linked [OF inv x] m1 by auto
  have ok: "lists_ok ops (tm_links m1)"
    using inv_lists_ok [OF inv] m1 by simp
  have hp: "tm_heap m1 x = Some t'" "\<forall>y \<in> set (lo_nodes ops (tm_links m1) List_active). tm_heap m1 y \<noteq> None"
    using inv_alloc [OF inv, of _ List_active] by (auto simp: m1)
  obtain h where h: "timer_attach ops x m1 = Some (m1\<lparr> tm_links := h \<rparr>)"
    "lo_nodes ops h List_active = insert_by (expire_of (tm_heap m1)) x (remove1 x (lo_nodes ops (tm_links m) List_active))"
    "lo_nodes ops h List_standby = remove1 x (lo_nodes ops (tm_links m) List_standby)"
    using timer_attach_nodes [OF laws ok l hp] m1 by auto
  have "timer_view (insert_by (expire_of (tm_heap m1)) x (remove1 x (lo_nodes ops (tm_links m) List_active)))
      (remove1 x (lo_nodes ops (tm_links m) List_standby)) m1"
    using inv m1 by (intro view_attach [OF inv [unfolded timer_inv_def] x t']) (auto simp: timer_inv_def timer_view_def)
  then show ?thesis
    using h by (auto simp: timer_inv_def)
qed

lemma standby_inv:
  assumes laws: "list_laws ops" and inv: "timer_inv ops m" and x: "tm_heap m x = Some t" "tmr_is_running t"
  shows "timer_inv ops (to_standby ops x t m)"
    "lo_nodes ops (tm_links (to_standby ops x t m)) List_active = remove1 x (lo_nodes ops (tm_links m) List_active)"
proof -
  note del = inv_del [OF laws inv x(1)]
  show act: "lo_nodes ops (tm_links (to_standby ops x t m)) List_active = remove1 x (lo_nodes ops (tm_links m) List_active)"
    by (simp add: to_standby_def list_laws_add_tail [OF laws del(2,1)] del(3))
  show "timer_inv ops (to_standby ops x t m)"
    unfolding timer_inv_def act
    by (simp add: to_standby_def list_laws_add_tail [OF laws del(2,1)] del(3), rule view_move [OF inv [unfolded timer_inv_def] x]) simp_all
qed

lemma now_ms_time: "\<exists>now tt. now_ms clk m = (now, m\<lparr> tm_time := tt \<rparr>)"
  by (cases "tal_time_get_system_time clk (tm_time m)") (auto simp: now_ms_def split: prod.splits)

lemma now_ms_inv:
  obtains now m0 where "now_ms clk m = (now, m0)" "timer_inv ops m0 = timer_inv ops m" "tm_heap m0 = tm_heap m"
    "tm_links m0 = tm_links m"
  using now_ms_time [of clk m] that by force

lemma start_inv:
  assumes "list_laws ops" "timer_inv ops m" "tm_heap m x = Some t"
  shows "\<exists>m'. tal_sw_timer_start ops clk x ms ty m = Some (OPRT_OK, m') \<and> timer_inv ops m'"
proof -
  obtain now m0 where n: "now_ms clk m = (now, m0)" "timer_inv ops m0 = timer_inv ops m" "tm_heap m0 = tm_heap m"
    by (rule now_ms_inv)
  define t1 where "t1 = t\<lparr> tmr_is_running := True, tmr_interval := (if ms \<noteq> 0 then ms else tmr_interval t), tmr_type := ty \<rparr>"
  define t' where "t' = t1\<lparr> tmr_expire_time := now + ucast (tmr_interval t1) \<rparr>"
  have t: "tmr_is_running t'" "tmr_timer_id t' = x" "tmr_cb t' \<noteq> 0" "x \<noteq> 0"
    using inv_timer [OF assms(2,3)] by (simp_all add: t'_def t1_def)
  have inv: "timer_inv ops m0" and x: "tm_heap m0 x = Some t"
    using assms n by simp_all
  from attach_inv [OF assms(1) inv x t(1-3) refl] show ?thesis
    using t(4) x n(1) unfolding tal_sw_timer_start_def t'_def t1_def by (auto simp: Let_def)
qed

lemma stop_inv:
  assumes "list_laws ops" "timer_inv ops m" "tm_heap m x = Some t"
  shows "\<exists>m'. tal_sw_timer_stop ops x m = Some (OPRT_OK, m') \<and> timer_inv ops m'"
  using assms inv_timer [OF assms(2,3)] standby_inv(1) [OF assms] by (auto simp: tal_sw_timer_stop_def)

lemma delete_inv:
  assumes laws: "list_laws ops" and inv: "timer_inv ops m" and x: "tm_heap m x = Some t"
  shows "\<exists>m'. tal_sw_timer_delete ops x m = Some (OPRT_OK, m') \<and> timer_inv ops m'"
proof -
  define m' where "m' = m\<lparr> tm_links := lo_del ops x (tm_links m), tm_total_cnt := tm_total_cnt m - 1,
    tm_running_cnt := (if tmr_is_running t then tm_running_cnt m - 1 else tm_running_cnt m), tm_heap := (tm_heap m)(x := None) \<rparr>"
  have "lo_nodes ops (tm_links m') l = remove1 x (lo_nodes ops (tm_links m) l)" for l
    by (simp add: m'_def inv_del(3) [OF laws inv x])
  then have "timer_inv ops m'"
    unfolding timer_inv_def using view_delete [OF inv [unfolded timer_inv_def] x, of m'] by (simp add: m'_def)
  moreover have "tal_sw_timer_delete ops x m = Some (OPRT_OK, sem_post m')"
    using inv_timer [OF inv x] x by (simp add: tal_sw_timer_delete_def m'_def)
  ultimately show ?thesis by simp
qed

lemma trigger_inv:
  assumes laws: "list_laws ops" and inv: "timer_inv ops m" and x: "tm_heap m x = Some t"
  shows "\<exists>m'. tal_sw_timer_trigger ops x m = Some (OPRT_OK, m') \<and> timer_inv ops m'"
proof -
  define m1 where "m1 = m\<lparr> tm_heap := (tm_heap m)(x \<mapsto> t\<lparr> tmr_expire_time := 0 \<rparr>) \<rparr>"
  define m2 where "m2 = m1\<lparr> tm_links := lo_add ops x (lo_head ops List_active) (lo_del ops x (tm_links m)) \<rparr>"
  note del = inv_del [OF laws inv x]
  have "timer_inv ops m2" if "tmr_is_running t"
  proof -
    have "lo_nodes ops (tm_links m2) l = (if l = List_active then x # remove1 x (lo_nodes ops (tm_links m) l)
        else remove1 x (lo_nodes ops (tm_links m) l))" for l
      by (simp add: m2_def list_laws_add_head [OF laws del(2,1)] del(3))
    then show ?thesis
      unfolding timer_inv_def using view_front [OF inv [unfolded timer_inv_def] x that, of m2] viewD(8) [OF inv [unfolded timer_inv_def]]
      by (simp add: m2_def m1_def)
  qed
  moreover have "timer_inv ops m1" if "\<not> tmr_is_running t"
    using view_other [OF inv [unfolded timer_inv_def] x that] by (simp add: timer_inv_def m1_def)
  moreover have "tal_sw_timer_trigger ops x m = Some (OPRT_OK, sem_post (if tmr_is_running t then m2 else m1))"
    using inv_timer [OF inv x] x by (simp add: tal_sw_timer_trigger_def m1_def m2_def Let_def)
  ultimately show ?thesis by simp
qed

lemma create_inv:
  assumes laws: "list_laws ops" and inv: "timer_inv ops m" and p: "tm_heap m ptr = None"
    and c: "tal_sw_timer_create ops func arg want ptr m = (rc, tid, m')"
  shows "timer_inv ops m'"
proof (cases "func = 0 \<or> \<not> want \<or> ptr = 0")
  case True
  with c inv show ?thesis
    by (auto simp: tal_sw_timer_create_def split: if_splits)
next
  case False
  have "unlinked ops (tm_links m) ptr"
    using inv_alloc [OF inv, of ptr] p by (auto simp: unlinked_def)
  note add = list_laws_add_tail [OF laws inv_lists_ok [OF inv] this]
  have "lo_nodes ops (tm_links m') l = (if l = List_standby then lo_nodes ops (tm_links m) l @ [ptr] else lo_nodes ops (tm_links m) l)" for l
    using False c by (auto simp: tal_sw_timer_create_def Let_def add)
  moreover have "timer_view (lo_nodes ops (tm_links m) List_active) (lo_nodes ops (tm_links m) List_standby @ [ptr]) m'"
    using False c by (intro view_create [OF inv [unfolded timer_inv_def] p]) (auto simp: tal_sw_timer_create_def Let_def)
  ultimately show ?thesis
    by (simp add: timer_inv_def)
qed

text \<open>A round of the dispatcher: what it answers, and what an expired timer becomes.\<close>

definition fired :: "u64 \<Rightarrow> timer \<Rightarrow> timer" where
  "fired now t = (if tmr_type t = TAL_TIMER_ONCE then t\<lparr> tmr_is_running := False \<rparr>
                  else t\<lparr> tmr_expire_time := now + ucast (tmr_interval t) \<rparr>)"

lemma poll_idle:
  assumes "now_ms clk m = (now, m0)"
  shows "lo_nodes ops (tm_links m0) List_active = [] \<Longrightarrow> timer_poll ops clk m = Some (Poll_idle None, m0)"
    "lo_nodes ops (tm_links m0) List_active = x # as \<Longrightarrow> tm_heap m0 x = Some t \<Longrightarrow> now < tmr_expire_time t \<Longrightarrow>
       timer_poll ops clk m = Some (Poll_idle (Some (ucast (tmr_expire_time t - now))), m0)"
  using assms by (simp_all add: timer_poll_def)

lemma poll_fire:
  assumes n: "now_ms clk m = (now, m0)" and laws: "list_laws ops" and inv: "timer_inv ops m0"
    and x: "lo_nodes ops (tm_links m0) List_active = x # as" "tm_heap m0 x = Some t" "tmr_expire_time t \<le> now"
  shows "\<exists>m'. timer_poll ops clk m = Some (Poll_fire x (tmr_cb t), m') \<and> timer_inv ops m' \<and> tm_time m' = tm_time m0 \<and>
    tm_heap m' = (tm_heap m0)(x \<mapsto> fired now t) \<and>
    lo_nodes ops (tm_links m') List_active = (if tmr_type t = TAL_TIMER_ONCE then as else insert_by (expire_of (tm_heap m')) x as)"
proof -
  have run: "tmr_is_running t"
    using view_running [OF inv [unfolded timer_inv_def] x(2)] x(1) by simp
  show ?thesis
  proof (cases "tmr_type t")
    case TAL_TIMER_ONCE
    then have "timer_poll ops clk m = Some (Poll_fire x (tmr_cb t), to_standby ops x t m0)"
      using n x by (simp add: timer_poll_def not_less)
    then show ?thesis
      using standby_inv [OF laws inv x(2) run] TAL_TIMER_ONCE x(1) by (auto simp: to_standby_def fired_def)
  next
    case TAL_TIMER_CYCLE
    define m1 where "m1 = m0\<lparr> tm_heap := (tm_heap m0)(x \<mapsto> fired now t) \<rparr>"
    have t': "tmr_is_running (fired now t)" "tmr_timer_id (fired now t) = x" "tmr_cb (fired now t) \<noteq> 0"
      using run inv_timer [OF inv x(2)] TAL_TIMER_CYCLE by (simp_all add: fired_def)
    have "m1 = m0\<lparr> tm_heap := (tm_heap m0)(x \<mapsto> fired now t),
        tm_running_cnt := (if tmr_is_running t then tm_running_cnt m0 else tm_running_cnt m0 + 1) \<rparr>"
      using run by (simp add: m1_def)
    from attach_inv [OF laws inv x(2) t' this] obtain h where h:
      "timer_attach ops x m1 = Some (m1\<lparr> tm_links := h \<rparr>)" "timer_inv ops (m1\<lparr> tm_links := h \<rparr>)"
      "lo_nodes ops h List_active = insert_by (expire_of (tm_heap m1)) x as"
      using x(1) by auto
    moreover have "timer_poll ops clk m = Some (Poll_fire x (tmr_cb t), m1\<lparr> tm_links := h \<rparr>)"
      using n x h(1) TAL_TIMER_CYCLE by (simp add: timer_poll_def not_less m1_def fired_def)
    ultimately show ?thesis
      using TAL_TIMER_CYCLE by (simp add: m1_def)
  qed
qed

lemma poll_inv:
  assumes laws: "list_laws ops" and inv: "timer_inv ops m"
  shows "\<exists>r m'. timer_poll ops clk m = Some (r, m') \<and> timer_inv ops m'"
proof -
  obtain now m0 where n: "now_ms clk m = (now, m0)" "timer_inv ops m0 = timer_inv ops m"
    by (rule now_ms_inv)
  show ?thesis
  proof (cases "lo_nodes ops (tm_links m0) List_active")
    case Nil
    then show ?thesis using poll_idle(1) [OF n(1)] n inv by blast
  next
    case (Cons x as)
    then obtain t where "tm_heap m0 x = Some t"
      using inv_alloc [of ops m0 x List_active] n(2) inv by auto
    then show ?thesis
      using poll_idle(2) [OF n(1) Cons] poll_fire [OF n(1) laws _ Cons] n(2) inv by (meson linorder_not_le)
  qed
qed

interpretation sw: invariant_system "timer_start ops" "timer_step ops clk" "\<lambda>m. list_laws ops \<longrightarrow> timer_inv ops m" for ops clk
proof (unfold_locales, safe)
  fix m :: "'a timer_mgr" assume laws: "list_laws ops" and "timer_start ops m"
  then show "timer_inv ops m"
    by (auto simp: timer_start_def tal_sw_timer_init_def timer_inv_def timer_view_def list_laws_init)
next
  fix m m' :: "'a timer_mgr" assume laws: "list_laws ops" and step: "timer_step ops clk m m'" and inv: "timer_inv ops m"
  from step show "timer_inv ops m'"
  proof cases
    case (step_init rc rc')
    then show ?thesis
      using inv by (auto simp: tal_sw_timer_init_def timer_inv_def timer_view_def)
  next
    case step_create
    then show ?thesis by (rule create_inv [OF laws inv])
  next
    case (step_delete x rc)
    then show ?thesis
      using delete_inv [OF laws inv, of x] inv by (cases "x = 0"; cases "tm_heap m x") (auto simp: tal_sw_timer_delete_def)
  next
    case (step_stop x rc)
    then show ?thesis
      using stop_inv [OF laws inv, of x] inv by (cases "x = 0"; cases "tm_heap m x") (auto simp: tal_sw_timer_stop_def)
  next
    case (step_start x ms ty rc)
    obtain now m0 where n: "now_ms clk m = (now, m0)" "tm_heap m0 = tm_heap m"
      by (rule now_ms_inv)
    show ?thesis
      using step_start start_inv [OF laws inv, of x _ clk ms ty] inv n
      by (cases "x = 0"; cases "tm_heap m x") (auto simp: tal_sw_timer_start_def)
  next
    case (step_trigger x rc)
    then show ?thesis
      using trigger_inv [OF laws inv, of x] inv by (cases "x = 0"; cases "tm_heap m x") (auto simp: tal_sw_timer_trigger_def)
  next
    case (step_poll r)
    then show ?thesis using poll_inv [OF laws inv, of clk] by auto
  qed (use inv in simp_all)
qed

section \<open>Dispatching\<close>

text \<open>
  The next \<open>n\<close> readings of the system time do not decrease and lie between \<open>lo\<close> and \<open>hi\<close>.
\<close>

fun steady :: "ms_clock \<Rightarrow> int \<Rightarrow> int \<Rightarrow> nat \<Rightarrow> time_state \<Rightarrow> bool" where
  "steady clk lo hi 0 tt = True"
| "steady clk lo hi (Suc n) tt =
     (let ((sec, ms), tt') = tal_time_get_system_time clk tt; now = sec * 1000 + ms
      in lo \<le> now \<and> now \<le> hi \<and> steady clk now hi n tt')"

lemma steady_mono: "steady clk lo hi n tt \<Longrightarrow> lo' \<le> lo \<Longrightarrow> steady clk lo' hi n tt"
  by (cases n) (auto split: prod.splits simp: Let_def)

lemma steady_now:
  assumes "steady clk lo hi (Suc n) (tm_time m)"
  obtains now m0 where "now_ms clk m = (of_int now, m0)" "lo \<le> now" "now \<le> hi" "steady clk now hi n (tm_time m0)"
    "timer_inv ops m0 = timer_inv ops m" "tm_heap m0 = tm_heap m" "tm_links m0 = tm_links m"
proof -
  obtain s ms tt where t: "tal_time_get_system_time clk (tm_time m) = ((s, ms), tt)"
    by (metis prod.collapse)
  then have "now_ms clk m = (of_int (s * 1000 + ms), m\<lparr> tm_time := tt \<rparr>)"
    by (simp add: now_ms_def)
  with assms t that [of "s * 1000 + ms" "m\<lparr> tm_time := tt \<rparr>"] show ?thesis
    by (simp add: Let_def)
qed

lemma u64_le_int: "0 \<le> i \<Longrightarrow> i < 2 ^ 64 \<Longrightarrow> ((w :: u64) \<le> of_int i \<longleftrightarrow> uint w \<le> i)"
  by (simp add: word_le_def unsigned_of_int take_bit_int_eq_self)

lemma uint_later:
  assumes "0 \<le> i" "i < 2 ^ 63"
  shows "uint (of_int i + ucast (d :: u32) :: u64) = i + uint d"
proof -
  have d: "uint d < 2 ^ 32"
    using uint_bounded [of d] by simp
  have "uint (of_int i :: u64) = i" "uint (ucast d :: u64) = uint d"
    using assms d by (simp_all add: unsigned_of_int unsigned_ucast_eq take_bit_int_eq_self)
  then show ?thesis
    using assms d uint_plus_simple_iff [of "of_int i :: u64" "ucast d"] by (simp add: no_olen_add)
qed

lemma insert_by_filter: "\<not> P x \<Longrightarrow> filter P (insert_by f x ys) = filter P ys"
  by (simp add: insert_by_def) (metis filter_append takeWhile_dropWhile_id)

text \<open>The active timers that expire up to \<open>hi\<close>, and what the dispatcher reports about the time to wait.\<close>

definition short :: "('h, 'p) timer_lists \<Rightarrow> int \<Rightarrow> 'h timer_mgr \<Rightarrow> nat list" where
  "short ops hi m = filter (\<lambda>x. uint (expire_of (tm_heap m) x) \<le> hi) (lo_nodes ops (tm_links m) List_active)"

definition wakes :: "('h, 'p) timer_lists \<Rightarrow> int \<Rightarrow> int \<Rightarrow> u32 \<Rightarrow> u32 \<Rightarrow> 'h timer_mgr \<Rightarrow> bool" where
  "wakes ops lo hi nx0 nx m =
     (case lo_nodes ops (tm_links m) List_active of [] \<Rightarrow> nx = nx0
      | x # _ \<Rightarrow> \<exists>now. lo \<le> now \<and> now \<le> hi \<and> now < uint (expire_of (tm_heap m) x) \<and> nx = of_int (uint (expire_of (tm_heap m) x) - now))"

lemma short_fired:
  assumes inv: "timer_inv ops m" and x: "lo_nodes ops (tm_links m) List_active = x # as" "tm_heap m x = Some t"
    and now: "0 \<le> now" "now < 2 ^ 63" "now \<le> hi" "uint (tmr_expire_time t) \<le> now"
      "tmr_type t = TAL_TIMER_CYCLE \<longrightarrow> hi < now + uint (tmr_interval t)"
    and m': "tm_heap m' = (tm_heap m)(x \<mapsto> fired (of_int now) t)"
      "lo_nodes ops (tm_links m') List_active = (if tmr_type t = TAL_TIMER_ONCE then as else insert_by (expire_of (tm_heap m')) x as)"
  shows "short ops hi m = x # short ops hi m'" "x \<notin> set (short ops hi m')"
proof -
  have d: "x \<notin> set as"
    using viewD(1) [OF inv [unfolded timer_inv_def]] x(1) by simp
  have same: "filter (\<lambda>y. uint (expire_of (tm_heap m') y) \<le> hi) as = filter (\<lambda>y. uint (expire_of (tm_heap m) y) \<le> hi) as"
    using d by (intro filter_cong refl) (auto simp: expire_of_def m'(1))
  have late: "\<not> uint (expire_of (tm_heap m') x) \<le> hi" if "tmr_type t = TAL_TIMER_CYCLE"
    using that now uint_later [OF now(1,2), of "tmr_interval t"] by (simp add: expire_of_def m'(1) fired_def)
  have s': "short ops hi m' = filter (\<lambda>y. uint (expire_of (tm_heap m) y) \<le> hi) as"
    using same late by (cases "tmr_type t") (simp_all add: short_def m'(2) insert_by_filter)
  show "short ops hi m = x # short ops hi m'" "x \<notin> set (short ops hi m')"
    using x now d unfolding s' by (simp_all add: short_def expire_of_def)
qed

lemma active_least:
  assumes inv: "timer_inv ops m" and x: "lo_nodes ops (tm_links m) List_active = x # as"
    and y: "y \<in> set (lo_nodes ops (tm_links m) List_active)"
  shows "uint (expire_of (tm_heap m) x) \<le> uint (expire_of (tm_heap m) y)"
proof -
  have "sorted (map (expire_of (tm_heap m)) (x # as))"
    using viewD(4) [OF inv [unfolded timer_inv_def]] x by simp
  then show ?thesis
    using x y by (auto simp: word_le_def)
qed

lemma remaining:
  assumes "0 \<le> now" "now < uint (e :: u64)"
  shows "ucast (e - of_int now) = (of_int (uint e - now) :: u32)"
proof -
  have "uint (of_int now :: u64) = now"
    using assms uint_bounded [of e] by (simp add: unsigned_of_int take_bit_int_eq_self)
  then have "uint (e - of_int now) = uint e - now"
    using assms uint_sub_lem [of "of_int now" e] by simp
  then show ?thesis
    by (simp only: ucast_eq)
qed

lemma round_fire:
  assumes n: "now_ms clk m = (of_int now, m0)" and laws: "list_laws ops" and inv: "timer_inv ops m0"
    and x: "lo_nodes ops (tm_links m0) List_active = x # as" "tm_heap m0 x = Some t"
    and now: "0 \<le> now" "now < 2 ^ 63" "now \<le> hi" "uint (tmr_expire_time t) \<le> now"
      "tmr_type t = TAL_TIMER_CYCLE \<longrightarrow> hi < now + uint (tmr_interval t)"
    and quiet: "\<And>cb i d m. call cb i d m = m" "\<And>m. other m = m"
  obtains m' where "timer_inv ops m'" "tm_time m' = tm_time m0" "tm_heap m' = (tm_heap m0)(x \<mapsto> fired (of_int now) t)"
    "short ops hi m0 = x # short ops hi m'" "x \<notin> set (short ops hi m')" "set as \<subseteq> set (lo_nodes ops (tm_links m') List_active)"
    "timer_dispatch (Suc fuel) ops clk call other nx0 m = do {
       (calls, nx, m') \<leftarrow> timer_dispatch fuel ops clk call other nx0 m'; Some ((tmr_cb t, x, tmr_data t) # calls, nx, m') }"
proof -
  have "tmr_expire_time t \<le> of_int now"
    using u64_le_int [of now] now by simp
  then obtain m1 where m1: "timer_poll ops clk m = Some (Poll_fire x (tmr_cb t), m1)" "timer_inv ops m1"
    "tm_time m1 = tm_time m0" "tm_heap m1 = (tm_heap m0)(x \<mapsto> fired (of_int now) t)"
    "lo_nodes ops (tm_links m1) List_active = (if tmr_type t = TAL_TIMER_ONCE then as else insert_by (expire_of (tm_heap m1)) x as)"
    using poll_fire [OF n laws inv x] by auto
  note sh = short_fired [OF inv x now m1(4,5)]
  show ?thesis
  proof (rule that [of "m1\<lparr> tm_last_cb := 0 \<rparr>"])
    show "timer_dispatch (Suc fuel) ops clk call other nx0 m = do {
       (calls, nx, m') \<leftarrow> timer_dispatch fuel ops clk call other nx0 (m1\<lparr> tm_last_cb := 0 \<rparr>);
       Some ((tmr_cb t, x, tmr_data t) # calls, nx, m') }"
      using m1(1,4) inv_timer [OF inv x(2)] by (simp add: quiet fired_def Let_def)
  qed (use m1 sh in \<open>auto simp: short_def\<close>)
qed

text \<open>
  What a dispatch does: it calls no timer twice, every timer that was due, and only timers that expire while it
  runs, with their own callback and argument.
\<close>

definition served :: "('h, 'p) timer_lists \<Rightarrow> int \<Rightarrow> int \<Rightarrow> 'h timer_mgr \<Rightarrow> (nat \<times> nat \<times> nat) list \<Rightarrow> bool" where
  "served ops lo hi m calls \<longleftrightarrow> distinct (map (fst \<circ> snd) calls) \<and>
     (\<forall>x \<in> set (lo_nodes ops (tm_links m) List_active). uint (expire_of (tm_heap m) x) \<le> lo \<longrightarrow> (\<exists>cb d. (cb, x, d) \<in> set calls)) \<and>
     (\<forall>cb x d. (cb, x, d) \<in> set calls \<longrightarrow> x \<in> set (short ops hi m) \<and> (\<exists>t. tm_heap m x = Some t \<and> cb = tmr_cb t \<and> d = tmr_data t))"

lemma served_fire:
  assumes v: "served ops lo hi m' calls" and t: "tm_heap m x = Some t" and m': "tm_heap m' = (tm_heap m)(x \<mapsto> t')"
    and sh: "short ops hi m = x # short ops hi m'" "x \<notin> set (short ops hi m')"
    and as: "lo_nodes ops (tm_links m) List_active = x # as" "set as \<subseteq> set (lo_nodes ops (tm_links m') List_active)"
  shows "served ops lo hi m ((tmr_cb t, x, tmr_data t) # calls)"
  unfolding served_def
proof (intro conjI ballI allI impI)
  have "x \<notin> (fst \<circ> snd) ` set calls"
    using v sh(2) unfolding served_def by fastforce
  then show "distinct (map (fst \<circ> snd) ((tmr_cb t, x, tmr_data t) # calls))"
    using v unfolding served_def by simp
next
  fix y assume y: "y \<in> set (lo_nodes ops (tm_links m) List_active)" "uint (expire_of (tm_heap m) y) \<le> lo"
  show "\<exists>cb d. (cb, y, d) \<in> set ((tmr_cb t, x, tmr_data t) # calls)"
  proof (cases "y = x")
    case False
    then have "y \<in> set (lo_nodes ops (tm_links m') List_active)" "uint (expire_of (tm_heap m') y) \<le> lo"
      using y as by (auto simp: m' expire_of_other)
    then show ?thesis
      using v unfolding served_def by (meson list.set_intros(2))
  qed auto
next
  fix cb z d assume c: "(cb, z, d) \<in> set ((tmr_cb t, x, tmr_data t) # calls)"
  show "z \<in> set (short ops hi m)"
    using c v sh unfolding served_def by auto
  show "\<exists>u. tm_heap m z = Some u \<and> cb = tmr_cb u \<and> d = tmr_data u"
    using c v sh(2) t unfolding served_def m' by (metis fun_upd_other prod.inject set_ConsD)
qed

lemma dispatch_live:
  assumes laws: "list_laws ops" and bounds: "0 \<le> lo" "hi < 2 ^ 63"
    and quiet: "\<And>cb i d m. call cb i d m = m" "\<And>m. other m = m"
  shows "timer_inv ops m \<Longrightarrow> steady clk lo hi n (tm_time m) \<Longrightarrow> length (short ops hi m) < n \<Longrightarrow>
    \<forall>x t. tm_heap m x = Some t \<and> tmr_type t = TAL_TIMER_CYCLE \<longrightarrow> hi - lo < uint (tmr_interval t) \<Longrightarrow>
    \<exists>calls nx m'. timer_dispatch n ops clk call other nx0 m = Some (calls, nx, m') \<and> timer_inv ops m' \<and>
      served ops lo hi m calls \<and> wakes ops lo hi nx0 nx m'"
proof (induction n arbitrary: m)
  case (Suc n)
  obtain now m0 where n: "now_ms clk m = (of_int now, m0)" "lo \<le> now" "now \<le> hi" "steady clk now hi n (tm_time m0)"
    "timer_inv ops m0 = timer_inv ops m" "tm_heap m0 = tm_heap m" "tm_links m0 = tm_links m"
    by (rule steady_now [OF Suc.prems(2)])
  have inv: "timer_inv ops m0" and nb: "0 \<le> now" "now < 2 ^ 63" "now < 2 ^ 64"
    using n Suc.prems(1) bounds by simp_all
  show ?case
  proof (cases "lo_nodes ops (tm_links m) List_active")
    case Nil
    then show ?thesis
      using poll_idle(1) [OF n(1), of ops] n inv by (simp add: wakes_def served_def)
  next
    case (Cons x as)
    obtain t where t: "tm_heap m x = Some t"
      using inv_alloc [OF Suc.prems(1), of x List_active] Cons by auto
    have x0: "lo_nodes ops (tm_links m0) List_active = x # as" "tm_heap m0 x = Some t"
      using Cons t n by simp_all
    show ?thesis
    proof (cases "uint (tmr_expire_time t) \<le> now")
      case False
      then have "of_int now < tmr_expire_time t"
        using u64_le_int [OF nb(1,3)] by (simp flip: not_le)
      note idle = poll_idle(2) [OF n(1) x0 this]
      have "\<forall>y \<in> set (lo_nodes ops (tm_links m) List_active). lo < uint (expire_of (tm_heap m) y)"
        using active_least [OF Suc.prems(1) Cons] False n(2) t by (force simp: expire_of_def)
      moreover have "wakes ops lo hi nx0 (ucast (tmr_expire_time t - of_int now)) m0"
        using False n(2,3) x0 remaining [OF nb(1), of "tmr_expire_time t"] by (auto simp: wakes_def expire_of_def)
      ultimately show ?thesis
        using idle inv by (auto simp: served_def)
    next
      case True
      have cyc: "tmr_type t = TAL_TIMER_CYCLE \<longrightarrow> hi < now + uint (tmr_interval t)"
        using Suc.prems(4) t n(2) by fastforce
      obtain m2 where m2: "timer_inv ops m2" "tm_time m2 = tm_time m0" "tm_heap m2 = (tm_heap m0)(x \<mapsto> fired (of_int now) t)"
        "short ops hi m0 = x # short ops hi m2" "x \<notin> set (short ops hi m2)" "set as \<subseteq> set (lo_nodes ops (tm_links m2) List_active)"
        "timer_dispatch (Suc n) ops clk call other nx0 m = do {
           (calls, nx, m') \<leftarrow> timer_dispatch n ops clk call other nx0 m2; Some ((tmr_cb t, x, tmr_data t) # calls, nx, m') }"
        by (rule round_fire [OF n(1) laws inv x0 nb(1,2) n(3) True cyc quiet])
      have s0: "short ops hi m0 = short ops hi m"
        by (simp add: short_def n)
      have "\<forall>y u. tm_heap m2 y = Some u \<and> tmr_type u = TAL_TIMER_CYCLE \<longrightarrow> hi - lo < uint (tmr_interval u)"
        using Suc.prems(4) t by (auto simp: m2(3) n(6) fired_def split: if_splits)
      moreover have "steady clk lo hi n (tm_time m2)" "length (short ops hi m2) < n"
        using m2(2,4) s0 steady_mono [OF n(4,2)] Suc.prems(3) by simp_all
      ultimately obtain calls nx m' where r: "timer_dispatch n ops clk call other nx0 m2 = Some (calls, nx, m')"
        "timer_inv ops m'" "served ops lo hi m2 calls" "wakes ops lo hi nx0 nx m'"
        using Suc.IH [OF m2(1)] by blast
      have "served ops lo hi m ((tmr_cb t, x, tmr_data t) # calls)"
        using served_fire [OF r(3) t] m2(3-6) s0 n(6) Cons by simp
      then show ?thesis
        using m2(7) r by auto
    qed
  qed
qed simp

section \<open>Properties\<close>

definition timer_mgr0 :: "(timer_head \<Rightarrow> nat list) timer_mgr" where
  "timer_mgr0 = \<lparr> tm_links = \<lambda>_. [], tm_heap = Map.empty, tm_total_cnt = 0, tm_running_cnt = 0, tm_inited = False,
     tm_last_cb = 0, tm_posts = 0, tm_time = \<lparr> ts_mutex = True, ts_last_ms = 0, ts_tz_sync = False, ts_tz = 0, ts_sz_cnt = 0,
       ts_sz_zone = [], ts_cloud_sync = False, ts_cloud_posix = 0, ts_disable_update = False, ts_sys_last_ms = 0,
       ts_sys_roll_ms = 0, ts_clk_no = 0 \<rparr> \<rparr>"

text \<open>A manager with one timer, created at address 5 and started at time 100 with the given interval and type.\<close>

definition demo_clock :: ms_clock where
  "demo_clock k = (if k = 0 then 100 else 110)"

definition demo_created :: "(timer_head \<Rightarrow> nat list) timer_mgr" where
  "demo_created = snd (snd (tal_sw_timer_create seq_lists 7 9 True 5 (snd (tal_sw_timer_init seq_lists OPRT_OK timer_mgr0))))"

definition demo_started :: "u32 \<Rightarrow> timer_type \<Rightarrow> (timer_head \<Rightarrow> nat list) timer_mgr" where
  "demo_started ms ty = snd (the (tal_sw_timer_start seq_lists demo_clock 5 ms ty demo_created))"

lemmas demo_simps = demo_clock_def demo_created_def timer_mgr0_def tal_sw_timer_init_def tal_sw_timer_create_def
  seq_lists_def tal_sw_timer_start_def now_ms_def tal_time_get_system_time_def get_millisecond_def timer_attach_def sem_post_def

lemma demo_created_reach: "reach (timer_start seq_lists) (timer_step seq_lists demo_clock) demo_created"
proof -
  define m0 where "m0 = snd (tal_sw_timer_init seq_lists OPRT_OK timer_mgr0)"
  have "timer_start seq_lists m0"
    unfolding timer_start_def by (rule exI [of _ timer_mgr0]) (simp add: m0_def timer_mgr0_def tal_sw_timer_init_def)
  moreover have "timer_step seq_lists demo_clock m0 demo_created"
    by (rule step_create [of _ 5 _ 7 9 True OPRT_OK "Some 5"])
      (simp_all add: m0_def demo_created_def timer_mgr0_def tal_sw_timer_init_def tal_sw_timer_create_def)
  ultimately show ?thesis
    by (blast intro: reach_init reach_step)
qed

lemma demo_started_eq:
  "tal_sw_timer_start seq_lists demo_clock 5 ms ty demo_created = Some (OPRT_OK, demo_started ms ty)"
  "lo_nodes seq_lists (tm_links (demo_started ms ty)) List_active = [5]"
  "lo_nodes seq_lists (tm_links (demo_started ms ty)) List_standby = []"
  "tm_heap (demo_started ms ty) = [5 \<mapsto> \<lparr> tmr_cb = 7, tmr_data = 9, tmr_expire_time = 100 + ucast ms, tmr_interval = ms,
     tmr_is_running = True, tmr_timer_id = 5, tmr_type = ty \<rparr>]"
  "tm_time (demo_started ms ty) = (tm_time timer_mgr0)\<lparr> ts_sys_last_ms := 100, ts_clk_no := 1 \<rparr>"
  unfolding demo_started_def by (auto simp: demo_simps)

lemma demo_started_reach: "reach (timer_start seq_lists) (timer_step seq_lists demo_clock) (demo_started ms ty)"
  by (rule reach_step [OF demo_created_reach]) (rule step_start [OF demo_started_eq(1)])

lemma demo_started_inv: "timer_inv seq_lists (demo_started ms ty)"
  using sw.reach_inv [OF demo_started_reach] seq_lists_laws by blast

text \<open>
  C10: In every state the timer manager can reach, the invariant holds: each allocated timer is on exactly one of the two
  lists, once; the running timers are those of the active list, which is sorted by expiry time; and the two counters are
  the lengths of the lists.
\<close>

theorem sw_timer_invariant:
  assumes "list_laws ops" and "reach (timer_start ops) (timer_step ops clk) m"
  shows "timer_view (lo_nodes ops (tm_links m) List_active) (lo_nodes ops (tm_links m) List_standby) m"
  using sw.reach_inv [OF assms(2)] assms(1) by (simp add: timer_inv_def)

theorem sw_timer_invariant_witness:
  "list_laws (seq_lists :: (timer_head \<Rightarrow> nat list, _) timer_lists) \<and>
   reach (timer_start seq_lists) (timer_step seq_lists demo_clock) (demo_started 10 TAL_TIMER_CYCLE) \<and>
   timer_view [5] [] (demo_started 10 TAL_TIMER_CYCLE)"
  using sw_timer_invariant [OF seq_lists_laws demo_started_reach, of 10 TAL_TIMER_CYCLE] seq_lists_laws demo_started_reach
  by (simp add: demo_started_eq)

text \<open>
  C33: No operation on an allocated timer faults in a reachable state: starting, stopping, triggering, deleting and a
  dispatch round touch allocated timers only, and all but the round answer success.
\<close>

theorem sw_timer_no_fault:
  assumes laws: "list_laws ops" and m: "reach (timer_start ops) (timer_step ops clk) m" and x: "x \<in> dom (tm_heap m)"
  shows "(\<exists>m'. tal_sw_timer_start ops clk x ms ty m = Some (OPRT_OK, m')) \<and> (\<exists>m'. tal_sw_timer_stop ops x m = Some (OPRT_OK, m')) \<and>
    (\<exists>m'. tal_sw_timer_trigger ops x m = Some (OPRT_OK, m')) \<and> (\<exists>m'. tal_sw_timer_delete ops x m = Some (OPRT_OK, m')) \<and>
    (\<exists>r m'. timer_poll ops clk m = Some (r, m'))"
proof -
  have inv: "timer_inv ops m"
    using sw.reach_inv [OF m] laws by blast
  obtain t where t: "tm_heap m x = Some t"
    using x by auto
  show ?thesis
    using start_inv [OF laws inv t, of clk ms ty] stop_inv [OF laws inv t] trigger_inv [OF laws inv t] delete_inv [OF laws inv t]
      poll_inv [OF laws inv, of clk] by blast
qed

theorem sw_timer_no_fault_witness:
  "5 \<in> dom (tm_heap (demo_started 10 TAL_TIMER_CYCLE)) \<and>
   (\<exists>m'. tal_sw_timer_delete seq_lists 5 (demo_started 10 TAL_TIMER_CYCLE) = Some (OPRT_OK, m'))"
  using sw_timer_no_fault [OF seq_lists_laws demo_started_reach, of 5 10 TAL_TIMER_CYCLE]
  by (simp add: demo_started_eq)

text \<open>
  C9: A dispatch ends and serves the timers.  If the readings of the clock stay between lo and hi while it runs, every cyclic
  interval is longer than hi - lo, and neither callbacks nor other threads touch the timers meanwhile, then a number of
  rounds one above the number of active timers is enough; every timer due at lo is called, no timer twice, each with its
  own callback and argument; and the dispatcher waits until the first remaining timer expires.
\<close>

theorem sw_timer_dispatch_live:
  assumes laws: "list_laws ops" and inv: "timer_inv ops m"
    and clock: "steady clk lo hi (Suc (length (lo_nodes ops (tm_links m) List_active))) (tm_time m)" "0 \<le> lo" "hi < 2 ^ 63"
    and cyclic: "\<forall>x t. tm_heap m x = Some t \<and> tmr_type t = TAL_TIMER_CYCLE \<longrightarrow> hi - lo < uint (tmr_interval t)"
  shows "\<exists>calls nx m'. timer_dispatch (Suc (length (lo_nodes ops (tm_links m) List_active))) ops clk (\<lambda>_ _ _ m. m) (\<lambda>m. m) SEM_WAIT_FOREVER m =
      Some (calls, nx, m') \<and> timer_inv ops m' \<and> served ops lo hi m calls \<and> wakes ops lo hi SEM_WAIT_FOREVER nx m'"
  using length_filter_le by (intro dispatch_live [OF laws clock(2,3) _ _ inv clock(1) _ cyclic]) (auto simp: short_def less_Suc_eq_le)

theorem sw_timer_dispatch_live_witness:
  "\<exists>calls nx m'. timer_dispatch 2 seq_lists demo_clock (\<lambda>_ _ _ m. m) (\<lambda>m. m) SEM_WAIT_FOREVER (demo_started 10 TAL_TIMER_CYCLE) =
     Some (calls, nx, m') \<and> served seq_lists 110 110 (demo_started 10 TAL_TIMER_CYCLE) calls \<and> calls \<noteq> []"
proof -
  let ?m = "demo_started 10 TAL_TIMER_CYCLE"
  have len: "Suc (length (lo_nodes seq_lists (tm_links ?m) List_active)) = 2"
    by (simp add: demo_started_eq)
  have st: "steady demo_clock 110 110 2 (tm_time ?m)"
    unfolding demo_started_eq numeral_2_eq_2
    by (simp add: timer_mgr0_def demo_clock_def tal_time_get_system_time_def get_millisecond_def)
  have cyc: "\<forall>x t. tm_heap ?m x = Some t \<and> tmr_type t = TAL_TIMER_CYCLE \<longrightarrow> (110 :: int) - 110 < uint (tmr_interval t)"
    by (simp add: demo_started_eq)
  obtain calls nx m' where "timer_dispatch 2 seq_lists demo_clock (\<lambda>_ _ _ m. m) (\<lambda>m. m) SEM_WAIT_FOREVER ?m = Some (calls, nx, m')"
    "served seq_lists 110 110 ?m calls"
    using sw_timer_dispatch_live [OF seq_lists_laws demo_started_inv [of 10 TAL_TIMER_CYCLE], unfolded len, OF st _ _ cyc] by auto
  moreover from this(2) have "calls \<noteq> []"
    by (auto simp: served_def demo_started_eq expire_of_def)
  ultimately show ?thesis by blast
qed


lemma zero_cycle_spins:
  assumes laws: "list_laws ops" and hi: "hi < 2 ^ 63"
  shows "timer_inv ops m \<Longrightarrow> steady clk lo hi n (tm_time m) \<Longrightarrow> 0 \<le> lo \<Longrightarrow> x \<in> set (lo_nodes ops (tm_links m) List_active) \<Longrightarrow>
    tm_heap m x = Some t \<Longrightarrow> tmr_type t = TAL_TIMER_CYCLE \<Longrightarrow> tmr_interval t = 0 \<Longrightarrow> uint (tmr_expire_time t) \<le> lo \<Longrightarrow>
    timer_dispatch n ops clk (\<lambda>_ _ _ m. m) (\<lambda>m. m) nx0 m = None"
proof (induction n arbitrary: m lo t)
  case (Suc n)
  obtain now m0 where n: "now_ms clk m = (of_int now, m0)" "lo \<le> now" "now \<le> hi" "steady clk now hi n (tm_time m0)"
    "timer_inv ops m0 = timer_inv ops m" "tm_heap m0 = tm_heap m" "tm_links m0 = tm_links m"
    by (rule steady_now [OF Suc.prems(2)])
  have inv: "timer_inv ops m0" and nb: "0 \<le> now" "now < 2 ^ 63" "now < 2 ^ 64"
    using n Suc.prems(1,3) hi by simp_all
  obtain y as where y: "lo_nodes ops (tm_links m0) List_active = y # as"
    using Suc.prems(4) n(7) by (cases "lo_nodes ops (tm_links m) List_active") auto
  then obtain u where u: "tm_heap m0 y = Some u"
    using inv_alloc [OF inv, of y List_active] by auto
  have "uint (tmr_expire_time u) \<le> uint (tmr_expire_time t)"
    using active_least [OF inv y, of x] Suc.prems(4,5) u n(6,7) by (simp add: expire_of_def)
  then have "tmr_expire_time u \<le> of_int now"
    using Suc.prems(8) n(2) u64_le_int [OF nb(1,3)] by simp
  then obtain m1 where m1: "timer_poll ops clk m = Some (Poll_fire y (tmr_cb u), m1)" "timer_inv ops m1"
    "tm_time m1 = tm_time m0" "tm_heap m1 = (tm_heap m0)(y \<mapsto> fired (of_int now) u)"
    "lo_nodes ops (tm_links m1) List_active = (if tmr_type u = TAL_TIMER_ONCE then as else insert_by (expire_of (tm_heap m1)) y as)"
    using poll_fire [OF n(1) laws inv y u] by auto
  obtain t' where t': "tm_heap m1 x = Some t'" "tmr_type t' = TAL_TIMER_CYCLE" "tmr_interval t' = 0" "uint (tmr_expire_time t') \<le> now"
    using Suc.prems(5-8) m1(4) n(2,6) u uint_later [OF nb(1,2), of 0] by (cases "y = x") (auto simp: fired_def)
  have "x \<in> set (lo_nodes ops (tm_links m1) List_active)"
    using Suc.prems(4-6) y u n(6,7) m1(5) by auto
  then have "timer_dispatch n ops clk (\<lambda>_ _ _ m. m) (\<lambda>m. m) nx0 (m1\<lparr> tm_last_cb := 0 \<rparr>) = None"
    using m1(2,3) n(4) nb(1) t' by (intro Suc.IH [of _ now t']) simp_all
  then show ?case
    using m1(1,4) inv_timer [OF inv u] by (simp add: Let_def)
qed simp

text \<open>
  C34: A cyclic timer with interval 0 hangs the timer thread: once it is due, the dispatcher never returns, whatever
  number of rounds it is given.  Such a timer comes from starting a new timer with the time 0.
\<close>

theorem sw_timer_zero_cycle_spins:
  assumes "list_laws ops" and "timer_inv ops m" and "steady clk lo hi n (tm_time m)" "0 \<le> lo" "hi < 2 ^ 63"
    and "x \<in> set (lo_nodes ops (tm_links m) List_active)" "tm_heap m x = Some t"
    and "tmr_type t = TAL_TIMER_CYCLE" "tmr_interval t = 0" "uint (tmr_expire_time t) \<le> lo"
  shows "timer_dispatch n ops clk (\<lambda>_ _ _ m. m) (\<lambda>m. m) SEM_WAIT_FOREVER m = None"
  using assms by (intro zero_cycle_spins)

theorem sw_timer_zero_cycle_spins_witness:
  "timer_dispatch 3 seq_lists demo_clock (\<lambda>_ _ _ m. m) (\<lambda>m. m) SEM_WAIT_FOREVER (demo_started 0 TAL_TIMER_CYCLE) = None"
proof -
  have "steady demo_clock 110 110 3 (tm_time (demo_started 0 TAL_TIMER_CYCLE))"
    unfolding demo_started_eq numeral_3_eq_3
    by (simp add: timer_mgr0_def demo_clock_def tal_time_get_system_time_def get_millisecond_def)
  from sw_timer_zero_cycle_spins [OF seq_lists_laws demo_started_inv this, of 5] show ?thesis
    by (simp add: demo_started_eq)
qed

text \<open>
  C35: A timer deleted by another thread between the critical section of the dispatcher and the call of its callback
  is used after it is freed.
\<close>

theorem sw_timer_delete_race:
  assumes laws: "list_laws ops" and inv: "timer_inv ops m" and clock: "steady clk lo hi (Suc 0) (tm_time m)" "0 \<le> lo" "hi < 2 ^ 63"
    and x: "lo_nodes ops (tm_links m) List_active = x # as" "tm_heap m x = Some t" "uint (tmr_expire_time t) \<le> lo"
  shows "timer_dispatch (Suc n) ops clk call (\<lambda>m. snd (the (tal_sw_timer_delete ops x m))) nx0 m = None"
proof -
  obtain now m0 where n: "now_ms clk m = (of_int now, m0)" "lo \<le> now" "now \<le> hi"
    "timer_inv ops m0 = timer_inv ops m" "tm_heap m0 = tm_heap m" "tm_links m0 = tm_links m"
    by (rule steady_now [OF clock(1)])
  have inv0: "timer_inv ops m0" and x0: "lo_nodes ops (tm_links m0) List_active = x # as" "tm_heap m0 x = Some t"
    using n inv x by simp_all
  have "tmr_expire_time t \<le> of_int now"
    using u64_le_int [of now "tmr_expire_time t"] n(2,3) x(3) clock by simp
  then obtain m1 where m1: "timer_poll ops clk m = Some (Poll_fire x (tmr_cb t), m1)" "tm_heap m1 = (tm_heap m0)(x \<mapsto> fired (of_int now) t)"
    using poll_fire [OF n(1) laws inv0 x0] by auto
  have "tm_heap (snd (the (tal_sw_timer_delete ops x m1))) x = None"
    using m1(2) inv_timer [OF inv0 x0(2)] by (simp add: tal_sw_timer_delete_def sem_post_def)
  then show ?thesis
    using m1(1) inv_timer [OF inv0 x0(2)] by (simp add: Let_def)
qed

theorem sw_timer_delete_race_witness:
  "timer_dispatch 2 seq_lists demo_clock (\<lambda>_ _ _ m. m) (\<lambda>m. snd (the (tal_sw_timer_delete seq_lists 5 m))) SEM_WAIT_FOREVER
     (demo_started 10 TAL_TIMER_ONCE) = None"
proof -
  have st: "steady demo_clock 110 110 (Suc 0) (tm_time (demo_started 10 TAL_TIMER_ONCE))"
    unfolding demo_started_eq
    by (simp add: timer_mgr0_def demo_clock_def tal_time_get_system_time_def get_millisecond_def)
  have t: "tm_heap (demo_started 10 TAL_TIMER_ONCE) 5 = Some \<lparr> tmr_cb = 7, tmr_data = 9, tmr_expire_time = 110, tmr_interval = 10,
     tmr_is_running = True, tmr_timer_id = 5, tmr_type = TAL_TIMER_ONCE \<rparr>"
    by (simp add: demo_started_eq)
  show ?thesis
    unfolding numeral_2_eq_2
    by (rule sw_timer_delete_race [OF seq_lists_laws demo_started_inv st _ _ demo_started_eq(2) t]) simp_all
qed

end
