(* ===== verification/TalEvent.thy ===== *)
theory TalEvent
  imports TuyaList
begin

text \<open>
  Events, \<^verbatim>\<open>src/src/tal_system/src/tal_event.c\<close>.  Event and subscription objects are named by their
  addresses, and reading an address that is not allocated is \<open>None\<close>; the lists are those of the platform
  (theory \<open>TuyaList\<close>).  Names and descriptions are the bytes before the terminator.  The result of an
  allocation is an argument of the operations that make one (\<open>0\<close> is \<^verbatim>\<open>NULL\<close>).  Callbacks are a
  function \<open>cbs\<close> from the callback and the data to its return code; they do not change the event manager.
\<close>

section \<open>State\<close>

record subscribe_node =
  sn_name :: bytes
  sn_desc :: bytes
  sn_type :: u8
  sn_cb :: nat

record event_node =
  en_name :: bytes

datatype event_head = Event_root | Free_root | Subs_of nat

record 'h event_manage =
  em_inited :: bool
  em_event_cnt :: int
  em_links :: 'h
  em_events :: "nat \<rightharpoonup> event_node"
  em_subs :: "nat \<rightharpoonup> subscribe_node"

type_synonym ('h, 'p) event_lists = "('h, event_head, 'p, nat) list_ops"

abbreviation (input) SUBSCRIBE_TYPE_NORMAL :: u8 where "SUBSCRIBE_TYPE_NORMAL \<equiv> 0"
abbreviation (input) SUBSCRIBE_TYPE_EMERGENCY :: u8 where "SUBSCRIBE_TYPE_EMERGENCY \<equiv> 1"
abbreviation (input) SUBSCRIBE_TYPE_ONETIME :: u8 where "SUBSCRIBE_TYPE_ONETIME \<equiv> 2"
abbreviation (input) EVENT_NAME_MAX_LEN :: nat where "EVENT_NAME_MAX_LEN \<equiv> 16"
abbreviation (input) EVENT_DESC_MAX_LEN :: nat where "EVENT_DESC_MAX_LEN \<equiv> 32"
abbreviation (input) OPRT_BASE_EVENT_INVALID_EVENT_NAME :: operate_ret where "OPRT_BASE_EVENT_INVALID_EVENT_NAME \<equiv> - 3840"
abbreviation (input) OPRT_BASE_EVENT_INVALID_EVENT_DESC :: operate_ret where "OPRT_BASE_EVENT_INVALID_EVENT_DESC \<equiv> - 3841"

section \<open>Operations\<close>

definition event_name_is_valid :: "bytes option \<Rightarrow> bool" where
  "event_name_is_valid name =
     (case name of None \<Rightarrow> False | Some n \<Rightarrow> \<not> (length n > EVENT_NAME_MAX_LEN \<or> length n \<le> 0))"

definition event_desc_is_valid :: "bytes option \<Rightarrow> bool" where
  "event_desc_is_valid desc =
     (case desc of None \<Rightarrow> False | Some d \<Rightarrow> \<not> (length d > EVENT_DESC_MAX_LEN \<or> length d \<le> 0))"

text \<open>The walk over the list of free subscriptions when an event is created.\<close>

definition adopt :: "('h, 'p) event_lists \<Rightarrow> nat \<Rightarrow> nat \<Rightarrow> subscribe_node \<Rightarrow> 'h \<Rightarrow> 'h" where
  "adopt ops ev x s h =
     (let h = lo_del ops x h in
      if sn_type s = SUBSCRIBE_TYPE_EMERGENCY then lo_add ops x (lo_head ops (Subs_of ev)) h else lo_add_tail ops x (Subs_of ev) h)"

fun adopt_free ::
  "('h, 'p) event_lists \<Rightarrow> (nat \<rightharpoonup> subscribe_node) \<Rightarrow> bytes \<Rightarrow> nat \<Rightarrow> nat list \<Rightarrow> 'h \<Rightarrow> 'h option" where
  "adopt_free ops subs name ev [] h = Some h"
| "adopt_free ops subs name ev (x # xs) h = do {
     s \<leftarrow> subs x;
     adopt_free ops subs name ev xs
       (if sn_name s = name then adopt ops ev x s h else h) }"

definition event_node_create_init ::
  "('h, 'p) event_lists \<Rightarrow> bytes \<Rightarrow> nat \<Rightarrow> 'h event_manage \<Rightarrow> (nat \<times> 'h event_manage) option" where
  "event_node_create_init ops name ptr m =
     (if ptr = 0 then Some (0, m)
      else do {
        h \<leftarrow> adopt_free ops (em_subs m) name ptr (lo_nodes ops (em_links m) Free_root) (lo_init ops (Subs_of ptr) (em_links m));
        Some (ptr, m\<lparr> em_events := (em_events m)(ptr \<mapsto> \<lparr> en_name = name \<rparr>),
                      em_links := lo_add_tail ops ptr Event_root h, em_event_cnt := em_event_cnt m + 1 \<rparr>) })"

definition event_node_get :: "('h, 'p) event_lists \<Rightarrow> bytes \<Rightarrow> 'h event_manage \<Rightarrow> nat option option" where
  "event_node_get ops name m = find_node (em_events m) (\<lambda>e. en_name e = name) (lo_nodes ops (em_links m) Event_root)"

definition event_node_get_free_subscribe :: "('h, 'p) event_lists \<Rightarrow> subscribe_node \<Rightarrow> 'h event_manage \<Rightarrow> nat option option" where
  "event_node_get_free_subscribe ops s m =
     find_node (em_subs m) (\<lambda>e. sn_name e = sn_name s \<and> sn_desc e = sn_desc s \<and> sn_cb e = sn_cb s) (lo_nodes ops (em_links m) Free_root)"

definition event_node_get_subscribe :: "('h, 'p) event_lists \<Rightarrow> nat \<Rightarrow> subscribe_node \<Rightarrow> 'h event_manage \<Rightarrow> nat option option" where
  "event_node_get_subscribe ops ev s m =
     find_node (em_subs m) (\<lambda>e. sn_desc e = sn_desc s \<and> sn_cb e = sn_cb s) (lo_nodes ops (em_links m) (Subs_of ev))"

text \<open>
  The dispatch loop over the subscriptions \<open>xs\<close> still to serve; its result is the return code, the callbacks
  called, and the new state.
\<close>

fun dispatch_subs ::
  "('h, 'p) event_lists \<Rightarrow> (nat \<Rightarrow> 'd \<Rightarrow> operate_ret) \<Rightarrow> 'd \<Rightarrow> nat list \<Rightarrow> operate_ret \<Rightarrow> 'h event_manage \<Rightarrow>
     (operate_ret \<times> nat list \<times> 'h event_manage) option" where
  "dispatch_subs ops cbs dat [] rt m = Some (rt, [], m)"
| "dispatch_subs ops cbs dat (x # xs) rt m = do {
     s \<leftarrow> em_subs m x;
     (let rt = (if sn_cb s \<noteq> 0 then cbs (sn_cb s) dat else rt);
          m = (if sn_type s = SUBSCRIBE_TYPE_ONETIME
               then m\<lparr> em_links := lo_del ops x (em_links m), em_subs := (em_subs m)(x := None) \<rparr> else m) in do {
      (rt, calls, m) \<leftarrow> dispatch_subs ops cbs dat xs rt m;
      Some (rt, (if sn_cb s \<noteq> 0 then [sn_cb s] else []) @ calls, m) }) }"

definition event_node_dispatch ::
  "('h, 'p) event_lists \<Rightarrow> (nat \<Rightarrow> 'd \<Rightarrow> operate_ret) \<Rightarrow> nat \<Rightarrow> 'd \<Rightarrow> 'h event_manage \<Rightarrow> (operate_ret \<times> nat list \<times> 'h event_manage) option" where
  "event_node_dispatch ops cbs ev dat m = dispatch_subs ops cbs dat (lo_nodes ops (em_links m) (Subs_of ev)) OPRT_OK m"

definition event_node_add_free_subscribe ::
  "('h, 'p) event_lists \<Rightarrow> nat \<Rightarrow> subscribe_node \<Rightarrow> 'h event_manage \<Rightarrow> (operate_ret \<times> 'h event_manage) option" where
  "event_node_add_free_subscribe ops ptr s m = do {
     old \<leftarrow> event_node_get_free_subscribe ops s m;
     if old \<noteq> None then Some (OPRT_OK, m)
     else if ptr = 0 then Some (OPRT_MALLOC_FAILED, m)
     else Some (OPRT_OK, m\<lparr> em_subs := (em_subs m)(ptr \<mapsto> s), em_links := lo_add_tail ops ptr Free_root (em_links m) \<rparr>) }"

definition event_node_add_subscribe ::
  "('h, 'p) event_lists \<Rightarrow> nat \<Rightarrow> nat \<Rightarrow> subscribe_node \<Rightarrow> 'h event_manage \<Rightarrow> (operate_ret \<times> 'h event_manage) option" where
  "event_node_add_subscribe ops ptr ev s m = do {
     old \<leftarrow> event_node_get_subscribe ops ev s m;
     if old \<noteq> None then Some (OPRT_OK, m)
     else if ptr = 0 then Some (OPRT_MALLOC_FAILED, m)
     else Some (OPRT_OK, m\<lparr> em_subs := (em_subs m)(ptr \<mapsto> s),
       em_links := (if sn_type s = SUBSCRIBE_TYPE_EMERGENCY then lo_add ops ptr (lo_head ops (Subs_of ev)) (em_links m)
                    else lo_add_tail ops ptr (Subs_of ev) (em_links m)) \<rparr>) }"

definition event_node_del_free_subscribe ::
  "('h, 'p) event_lists \<Rightarrow> subscribe_node \<Rightarrow> 'h event_manage \<Rightarrow> (operate_ret \<times> 'h event_manage) option" where
  "event_node_del_free_subscribe ops s m = do {
     old \<leftarrow> event_node_get_free_subscribe ops s m;
     Some (case old of None \<Rightarrow> (OPRT_OK, m)
       | Some x \<Rightarrow> (OPRT_OK, m\<lparr> em_links := lo_del ops x (em_links m), em_subs := (em_subs m)(x := None) \<rparr>)) }"

definition event_node_del_subscribe ::
  "('h, 'p) event_lists \<Rightarrow> nat \<Rightarrow> subscribe_node \<Rightarrow> 'h event_manage \<Rightarrow> (operate_ret \<times> 'h event_manage) option" where
  "event_node_del_subscribe ops ev s m = do {
     old \<leftarrow> event_node_get_subscribe ops ev s m;
     Some (case old of None \<Rightarrow> (OPRT_OK, m)
       | Some x \<Rightarrow> (OPRT_OK, m\<lparr> em_links := lo_del ops x (em_links m), em_subs := (em_subs m)(x := None) \<rparr>)) }"

definition tal_event_init :: "('h, 'p) event_lists \<Rightarrow> 'h event_manage \<Rightarrow> operate_ret \<times> 'h event_manage" where
  "tal_event_init ops m =
     (if em_inited m then (OPRT_OK, m)
      else (OPRT_OK, m\<lparr> em_links := lo_init ops Free_root (lo_init ops Event_root (em_links m)), em_event_cnt := 0, em_inited := True \<rparr>))"

definition tal_event_publish ::
  "('h, 'p) event_lists \<Rightarrow> (nat \<Rightarrow> 'd \<Rightarrow> operate_ret) \<Rightarrow> nat \<Rightarrow> bytes option \<Rightarrow> 'd \<Rightarrow> 'h event_manage \<Rightarrow>
     (operate_ret \<times> nat list \<times> 'h event_manage) option" where
  "tal_event_publish ops cbs ptr name dat m =
     (let m = (if em_inited m then m else snd (tal_event_init ops m)) in
      if \<not> event_name_is_valid name then Some (OPRT_BASE_EVENT_INVALID_EVENT_NAME, [], m)
      else do {
        ev \<leftarrow> event_node_get ops (the name) m;
        (ev, m) \<leftarrow> (case ev of Some ev \<Rightarrow> Some (ev, m) | None \<Rightarrow> event_node_create_init ops (the name) ptr m);
        if ev = 0 then Some (OPRT_MALLOC_FAILED, [], m)
        else event_node_dispatch ops cbs ev dat m })"

definition tal_event_subscribe ::
  "('h, 'p) event_lists \<Rightarrow> nat \<Rightarrow> bytes option \<Rightarrow> bytes option \<Rightarrow> nat \<Rightarrow> u8 \<Rightarrow> 'h event_manage \<Rightarrow> (operate_ret \<times> 'h event_manage) option" where
  "tal_event_subscribe ops ptr name desc cb ty m =
     (let m = (if em_inited m then m else snd (tal_event_init ops m)) in
      if \<not> event_desc_is_valid desc then Some (OPRT_BASE_EVENT_INVALID_EVENT_DESC, m)
      else if \<not> event_name_is_valid name then Some (OPRT_BASE_EVENT_INVALID_EVENT_NAME, m)
      else
        (let s = \<lparr> sn_name = the name, sn_desc = the desc, sn_type = ty, sn_cb = cb \<rparr> in do {
         ev \<leftarrow> event_node_get ops (the name) m;
         (case ev of None \<Rightarrow> event_node_add_free_subscribe ops ptr s m
          | Some ev \<Rightarrow> event_node_add_subscribe ops ptr ev s m) }))"

definition tal_event_unsubscribe ::
  "('h, 'p) event_lists \<Rightarrow> bytes option \<Rightarrow> bytes option \<Rightarrow> nat \<Rightarrow> 'h event_manage \<Rightarrow> (operate_ret \<times> 'h event_manage) option" where
  "tal_event_unsubscribe ops name desc cb m =
     (let m = (if em_inited m then m else snd (tal_event_init ops m)) in
      if \<not> event_desc_is_valid desc then Some (OPRT_BASE_EVENT_INVALID_EVENT_DESC, m)
      else if \<not> event_name_is_valid name then Some (OPRT_BASE_EVENT_INVALID_EVENT_NAME, m)
      else
        (let s = \<lparr> sn_name = the name, sn_desc = the desc, sn_type = 0, sn_cb = cb \<rparr> in do {
         ev \<leftarrow> event_node_get ops (the name) m;
         (case ev of None \<Rightarrow> event_node_del_free_subscribe ops s m
          | Some ev \<Rightarrow> event_node_del_subscribe ops ev s m) }))"

section \<open>What the manager stores\<close>

text \<open>
  The subscriptions of a name, in the order of service.  Before the first publication of a name they are on the list of
  free subscriptions; \<open>place\<close> is how an event takes them over.
\<close>

definition place :: "'a list \<Rightarrow> ('a \<Rightarrow> subscribe_node) \<Rightarrow> 'a \<Rightarrow> 'a list" where
  "place xs f x = (if sn_type (f x) = SUBSCRIBE_TYPE_EMERGENCY then x # xs else xs @ [x])"

definition event_of :: "('h, 'p) event_lists \<Rightarrow> 'h event_manage \<Rightarrow> bytes \<Rightarrow> nat option" where
  "event_of ops m name = find (\<lambda>p. en_name (the (em_events m p)) = name) (lo_nodes ops (em_links m) Event_root)"

definition sub_of :: "'h event_manage \<Rightarrow> nat \<Rightarrow> subscribe_node" where
  "sub_of m x = the (em_subs m x)"

definition event_nodes :: "('h, 'p) event_lists \<Rightarrow> 'h event_manage \<Rightarrow> bytes \<Rightarrow> nat list" where
  "event_nodes ops m name =
     (case event_of ops m name of
        Some p \<Rightarrow> lo_nodes ops (em_links m) (Subs_of p)
      | None \<Rightarrow> foldl (\<lambda>xs. place xs (sub_of m)) [] (filter (\<lambda>x. sn_name (sub_of m x) = name) (lo_nodes ops (em_links m) Free_root)))"

definition event_view :: "('h, 'p) event_lists \<Rightarrow> 'h event_manage \<Rightarrow> bytes \<Rightarrow> subscribe_node list" where
  "event_view ops m name = map (sub_of m) (event_nodes ops m name)"

definition sub_key :: "subscribe_node \<Rightarrow> bytes \<times> nat" where
  "sub_key s = (sn_desc s, sn_cb s)"

definition event_inv :: "('h, 'p) event_lists \<Rightarrow> 'h event_manage \<Rightarrow> bool" where
  "event_inv ops m \<longleftrightarrow> em_inited m \<and> lists_ok ops (em_links m) \<and>
     set (lo_nodes ops (em_links m) Event_root) = dom (em_events m) \<and>
     (\<forall>x. x \<in> dom (em_subs m) \<longleftrightarrow> x \<in> set (lo_nodes ops (em_links m) Free_root) \<or> (\<exists>p. x \<in> set (lo_nodes ops (em_links m) (Subs_of p)))) \<and>
     dom (em_events m) \<inter> dom (em_subs m) = {} \<and> 0 \<notin> dom (em_events m) \<and>
     (\<forall>p. p \<notin> dom (em_events m) \<longrightarrow> lo_nodes ops (em_links m) (Subs_of p) = []) \<and>
     (\<forall>p e x. em_events m p = Some e \<longrightarrow> x \<in> set (lo_nodes ops (em_links m) (Subs_of p)) \<longrightarrow> sn_name (sub_of m x) = en_name e) \<and>
     (\<forall>p e x. em_events m p = Some e \<longrightarrow> x \<in> set (lo_nodes ops (em_links m) Free_root) \<longrightarrow> sn_name (sub_of m x) \<noteq> en_name e) \<and>
     (\<forall>p q e. em_events m p = Some e \<longrightarrow> em_events m q = Some e \<longrightarrow> p = q) \<and>
     (\<forall>name. distinct (map sub_key (event_view ops m name))) \<and>
     em_event_cnt m = int (length (lo_nodes ops (em_links m) Event_root))"

section \<open>The invariant\<close>

lemma eventD:
  assumes "event_inv ops m"
  shows "em_inited m" "lists_ok ops (em_links m)" "set (lo_nodes ops (em_links m) Event_root) = dom (em_events m)"
    "\<forall>x. x \<in> dom (em_subs m) \<longleftrightarrow> x \<in> set (lo_nodes ops (em_links m) Free_root) \<or> (\<exists>p. x \<in> set (lo_nodes ops (em_links m) (Subs_of p)))"
    "dom (em_events m) \<inter> dom (em_subs m) = {}" "0 \<notin> dom (em_events m)"
    "\<forall>p. p \<notin> dom (em_events m) \<longrightarrow> lo_nodes ops (em_links m) (Subs_of p) = []"
    "\<forall>p e x. em_events m p = Some e \<longrightarrow> x \<in> set (lo_nodes ops (em_links m) (Subs_of p)) \<longrightarrow> sn_name (sub_of m x) = en_name e"
    "\<forall>p e x. em_events m p = Some e \<longrightarrow> x \<in> set (lo_nodes ops (em_links m) Free_root) \<longrightarrow> sn_name (sub_of m x) \<noteq> en_name e"
    "\<forall>p q e. em_events m p = Some e \<longrightarrow> em_events m q = Some e \<longrightarrow> p = q"
    "\<forall>name. distinct (map sub_key (event_view ops m name))"
    "em_event_cnt m = int (length (lo_nodes ops (em_links m) Event_root))"
  using assms unfolding event_inv_def by simp_all

lemma find_SomeD: "find P xs = Some x \<Longrightarrow> x \<in> set xs \<and> P x"
  by (auto simp: find_Some_iff)

lemma event_node_eq: "e = \<lparr> en_name = n \<rparr> \<longleftrightarrow> en_name e = n"
  by (cases e) simp

lemma event_of_Some:
  assumes "event_inv ops m"
  shows "event_of ops m name = Some p \<longleftrightarrow> em_events m p = Some \<lparr> en_name = name \<rparr>"
proof -
  note root = eventD(3) [OF assms] and inj = eventD(10) [OF assms]
  have name: "en_name (the (em_events m q)) = name \<longleftrightarrow> em_events m q = Some \<lparr> en_name = name \<rparr>" if "q \<in> dom (em_events m)" for q
    using that by (auto simp: event_node_eq)
  show ?thesis
  proof
    assume "event_of ops m name = Some p"
    then have "p \<in> dom (em_events m)" "en_name (the (em_events m p)) = name"
      using root find_SomeD unfolding event_of_def by fastforce+
    then show "em_events m p = Some \<lparr> en_name = name \<rparr>"
      using name by blast
  next
    assume p: "em_events m p = Some \<lparr> en_name = name \<rparr>"
    then have "p \<in> set (lo_nodes ops (em_links m) Event_root)"
      using root by auto
    then obtain q where q: "event_of ops m name = Some q"
      using p unfolding event_of_def by (cases "find (\<lambda>p. en_name (the (em_events m p)) = name) (lo_nodes ops (em_links m) Event_root)")
        (auto simp: find_None_iff)
    then have "q \<in> dom (em_events m)" "en_name (the (em_events m q)) = name"
      using root find_SomeD unfolding event_of_def by fastforce+
    then show "event_of ops m name = Some p"
      using name [of q] q p inj by blast
  qed
qed

lemma event_node_get_ok: "event_inv ops m \<Longrightarrow> event_node_get ops name m = Some (event_of ops m name)"
  unfolding event_node_get_def event_of_def by (rule find_node_find) (simp add: eventD(3))

lemma placed_filter:
  "foldl (\<lambda>xs. place xs f) [] xs = rev (filter (\<lambda>x. sn_type (f x) = 1) xs) @ filter (\<lambda>x. sn_type (f x) \<noteq> 1) xs"
  by (induction xs rule: rev_induct) (auto simp: place_def)

lemma linked_event:
  assumes "event_inv ops m" "x \<in> set (lo_nodes ops (em_links m) (Subs_of p))"
  shows "em_events m p = Some \<lparr> en_name = sn_name (sub_of m x) \<rparr>"
proof -
  have "p \<in> dom (em_events m)"
    using assms(2) eventD(7) [OF assms(1)] by force
  then obtain e where e: "em_events m p = Some e" by auto
  then have "sn_name (sub_of m x) = en_name e"
    using assms(2) eventD(8) [OF assms(1)] by blast
  then show ?thesis
    using e by (simp add: event_node_eq)
qed

lemma set_event_nodes:
  assumes "event_inv ops m"
  shows "set (event_nodes ops m name) = {x \<in> dom (em_subs m). sn_name (sub_of m x) = name}"
proof (cases "event_of ops m name")
  case None
  then have "x \<notin> set (lo_nodes ops (em_links m) (Subs_of p))" if "sn_name (sub_of m x) = name" for x p
    using that linked_event [OF assms, of x p] event_of_Some [OF assms, of name p] by auto
  then show ?thesis
    using None eventD(4) [OF assms] by (auto simp: event_nodes_def placed_filter)
next
  case (Some p)
  then have p: "em_events m p = Some \<lparr> en_name = name \<rparr>"
    using event_of_Some [OF assms] by blast
  have "q = p" if "x \<in> set (lo_nodes ops (em_links m) (Subs_of q))" "sn_name (sub_of m x) = name" for x q
    using linked_event [OF assms that(1)] that(2) p eventD(10) [OF assms] by blast
  moreover have "x \<notin> set (lo_nodes ops (em_links m) Free_root)" if "sn_name (sub_of m x) = name" for x
    using that p eventD(9) [OF assms] by force
  moreover have "sn_name (sub_of m x) = name" if "x \<in> set (lo_nodes ops (em_links m) (Subs_of p))" for x
    using that p eventD(8) [OF assms] by force
  ultimately have "x \<in> set (lo_nodes ops (em_links m) (Subs_of p)) \<longleftrightarrow> x \<in> dom (em_subs m) \<and> sn_name (sub_of m x) = name" for x
    using eventD(4) [OF assms] by metis
  then show ?thesis
    using Some by (simp add: event_nodes_def set_eq_iff)
qed

lemma distinct_event_nodes: "event_inv ops m \<Longrightarrow> distinct (event_nodes ops m name)"
  using eventD(2) [of ops m] by (auto simp: event_nodes_def placed_filter lists_ok_def split: option.split)

text \<open>A subscription is removed.\<close>

lemma del_nodes:
  assumes "list_laws ops" "event_inv ops m" "x \<in> dom (em_subs m)"
  shows "lo_nodes ops (lo_del ops x (em_links m)) l = filter (\<lambda>y. y \<noteq> x) (lo_nodes ops (em_links m) l)"
proof -
  obtain l' where "x \<in> set (lo_nodes ops (em_links m) l')"
    using assms(3) eventD(4) [OF assms(2)] by metis
  then have "lo_nodes ops (lo_del ops x (em_links m)) l = remove1 x (lo_nodes ops (em_links m) l)"
    by (rule list_laws_del [OF assms(1) eventD(2) [OF assms(2)]])
  moreover have "distinct (lo_nodes ops (em_links m) l)"
    using eventD(2) [OF assms(2)] by (simp add: lists_ok_def)
  ultimately show ?thesis
    by (simp add: distinct_remove1_removeAll removeAll_filter_not_eq eq_commute)
qed

lemma del_sub:
  assumes laws: "list_laws ops" and inv: "event_inv ops m" and x: "x \<in> dom (em_subs m)"
    and m': "m' = m\<lparr> em_links := lo_del ops x (em_links m), em_subs := (em_subs m)(x := None) \<rparr>"
  shows "event_of ops m' = event_of ops m" "event_nodes ops m' name = filter (\<lambda>y. y \<noteq> x) (event_nodes ops m name)"
    "event_view ops m' name = map (sub_of m) (filter (\<lambda>y. y \<noteq> x) (event_nodes ops m name))" "event_inv ops m'"
proof -
  have f: "em_events m' = em_events m" "em_inited m' = em_inited m" "em_event_cnt m' = em_event_cnt m" "em_subs m' = (em_subs m)(x := None)"
    "\<And>l. lo_nodes ops (em_links m') l = filter (\<lambda>y. y \<noteq> x) (lo_nodes ops (em_links m) l)"
    using del_nodes [OF laws inv x] by (simp_all add: m')
  have root: "filter (\<lambda>y. y \<noteq> x) (lo_nodes ops (em_links m) Event_root) = lo_nodes ops (em_links m) Event_root"
    using eventD(3,5) [OF inv] x by (intro filter_True) auto
  have sub: "sub_of m' y = sub_of m y" if "y \<noteq> x" for y
    using that by (simp add: sub_of_def f)
  have flt: "filter (\<lambda>y. P (sub_of m' y)) (filter (\<lambda>y. y \<noteq> x) xs) = filter (\<lambda>y. y \<noteq> x) (filter (\<lambda>y. P (sub_of m y)) xs)" for P xs
    by (induction xs) (auto simp: sub)
  show ev: "event_of ops m' = event_of ops m"
    by (rule ext) (simp add: event_of_def f root)
  show nd: "event_nodes ops m' name = filter (\<lambda>y. y \<noteq> x) (event_nodes ops m name)" for name
    by (cases "event_of ops m name") (simp_all add: event_nodes_def ev placed_filter f rev_filter
      flt [of "\<lambda>s. sn_name s = name"] flt [of "\<lambda>s. sn_type s = 1"] flt [of "\<lambda>s. sn_type s \<noteq> 1"] del: filter_filter)
  show vw: "event_view ops m' name = map (sub_of m) (filter (\<lambda>y. y \<noteq> x) (event_nodes ops m name))" for name
    by (simp add: event_view_def nd sub)
  have keys: "distinct (map sub_key (event_view ops m' name))" for name
  proof -
    have "distinct (map (\<lambda>y. sub_key (sub_of m y)) (event_nodes ops m name))"
      using eventD(11) [OF inv] by (simp add: event_view_def comp_def)
    then show ?thesis
      by (simp add: vw comp_def distinct_map_filter)
  qed
  have "lists_ok ops (em_links m')"
    using eventD(2) [OF inv] by (auto simp: lists_ok_def f)
  then show "event_inv ops m'"
    unfolding event_inv_def using eventD [OF inv] keys
    by (auto simp: f root sub)
qed


text \<open>A subscription is added, to the list of its event or to the free ones.\<close>

definition with_sub :: "('h, 'p) event_lists \<Rightarrow> 'h event_manage \<Rightarrow> nat \<Rightarrow> subscribe_node \<Rightarrow> event_head \<Rightarrow> nat list" where
  "with_sub ops m ptr s l =
     (case event_of ops m (sn_name s) of
        None \<Rightarrow> if l = Free_root then lo_nodes ops (em_links m) l @ [ptr] else lo_nodes ops (em_links m) l
      | Some p \<Rightarrow> if l = Subs_of p then place (lo_nodes ops (em_links m) l) (\<lambda>_. s) ptr else lo_nodes ops (em_links m) l)"

lemma set_place [simp]: "set (place xs f x) = insert x (set xs)"
  by (auto simp: place_def)

lemma set_with_sub:
  "set (with_sub ops m ptr s l) = set (lo_nodes ops (em_links m) l) \<union>
     (if l = (case event_of ops m (sn_name s) of None \<Rightarrow> Free_root | Some p \<Rightarrow> Subs_of p) then {ptr} else {})"
  by (auto simp: with_sub_def split: option.splits)

lemma add_sub_facts:
  assumes inv: "event_inv ops m" and ptr: "ptr \<notin> dom (em_subs m)" "ptr \<notin> dom (em_events m)"
    and f: "em_events m' = em_events m" "em_inited m' = em_inited m" "em_event_cnt m' = em_event_cnt m" "em_subs m' = (em_subs m)(ptr \<mapsto> s)"
      "\<And>l. lo_nodes ops (em_links m') l = with_sub ops m ptr s l" "lists_ok ops (em_links m')"
  shows "ptr \<notin> set (lo_nodes ops (em_links m) l)" "lo_nodes ops (em_links m') Event_root = lo_nodes ops (em_links m) Event_root"
    "event_of ops m' = event_of ops m" "y \<noteq> ptr \<Longrightarrow> sub_of m' y = sub_of m y" "sub_of m' ptr = s"
proof -
  show "ptr \<notin> set (lo_nodes ops (em_links m) l)"
    using ptr eventD(3,4) [OF inv] by (cases l) blast+
  show root: "lo_nodes ops (em_links m') Event_root = lo_nodes ops (em_links m) Event_root"
    by (simp add: f(5) with_sub_def split: option.split)
  show "event_of ops m' = event_of ops m"
    by (rule ext) (simp add: event_of_def f(1) root)
  show "y \<noteq> ptr \<Longrightarrow> sub_of m' y = sub_of m y" "sub_of m' ptr = s"
    by (simp_all add: sub_of_def f)
qed

lemma add_sub_view:
  assumes inv: "event_inv ops m" and ptr: "ptr \<notin> dom (em_subs m)" "ptr \<notin> dom (em_events m)"
    and f: "em_events m' = em_events m" "em_inited m' = em_inited m" "em_event_cnt m' = em_event_cnt m" "em_subs m' = (em_subs m)(ptr \<mapsto> s)"
      "\<And>l. lo_nodes ops (em_links m') l = with_sub ops m ptr s l" "lists_ok ops (em_links m')"
  shows "event_view ops m' name = (if name = sn_name s then place (event_view ops m name) (\<lambda>s. s) s else event_view ops m name)"
proof -
  note un = add_sub_facts(1) [OF inv ptr f] and ev = add_sub_facts(3) [OF inv ptr f] and sub = add_sub_facts(4) [OF inv ptr f]
    and sp = add_sub_facts(5) [OF inv ptr f]
  have flt: "filter (\<lambda>y. P (sub_of m' y)) xs = filter (\<lambda>y. P (sub_of m y)) xs" if "ptr \<notin> set xs" for P xs
    using that by (intro filter_cong refl) (metis sub)
  note flts = flt [of _ "\<lambda>s. sn_name s = name" for name] flt [of _ "\<lambda>s. sn_type s = 1"] flt [of _ "\<lambda>s. sn_type s \<noteq> 1"]
  have nd: "event_nodes ops m' name = (if name = sn_name s then place (event_nodes ops m name) (\<lambda>_. s) ptr else event_nodes ops m name)" for name
  proof (cases "event_of ops m name")
    case None
    then show ?thesis
      using un [of Free_root] by (auto simp: event_nodes_def ev f(5) with_sub_def placed_filter flts sp place_def simp del: filter_filter split: option.split)
  next
    case (Some p)
    then have "q = p \<longleftrightarrow> name = sn_name s" if "event_of ops m (sn_name s) = Some q" for q
      using that Some event_of_Some [OF inv, of name p] event_of_Some [OF inv, of "sn_name s" q] by (metis event_node_eq option.inject)
    then show ?thesis
      using Some by (auto simp: event_nodes_def ev f(5) with_sub_def split: option.split)
  qed
  have un2: "ptr \<notin> set (event_nodes ops m name)" for name
    using ptr(1) set_event_nodes [OF inv] by auto
  then have "map (sub_of m') (event_nodes ops m name) = map (sub_of m) (event_nodes ops m name)" for name
    by (intro map_cong refl) (metis sub)
  then show "event_view ops m' name = (if name = sn_name s then place (event_view ops m name) (\<lambda>s. s) s else event_view ops m name)"
    by (simp add: event_view_def nd place_def sp)
qed

lemma add_sub_inv:
  assumes inv: "event_inv ops m" and ptr: "ptr \<notin> dom (em_subs m)" "ptr \<notin> dom (em_events m)"
    and new: "sub_key s \<notin> sub_key ` set (event_view ops m (sn_name s))"
    and f: "em_events m' = em_events m" "em_inited m' = em_inited m" "em_event_cnt m' = em_event_cnt m" "em_subs m' = (em_subs m)(ptr \<mapsto> s)"
      "\<And>l. lo_nodes ops (em_links m') l = with_sub ops m ptr s l" "lists_ok ops (em_links m')"
  shows "event_inv ops m'"
proof -
  note un = add_sub_facts(1) [OF inv ptr f] and root = add_sub_facts(2) [OF inv ptr f] and sub = add_sub_facts(4) [OF inv ptr f]
    and sp = add_sub_facts(5) [OF inv ptr f] and vw = add_sub_view [OF inv ptr f]
  have keys: "distinct (map sub_key (event_view ops m' name))" for name
    using new eventD(11) [OF inv] by (auto simp: vw place_def)
  have home: "sn_name s \<noteq> en_name e" if "event_of ops m (sn_name s) = None" "em_events m p = Some e" for p e
    using that event_of_Some [OF inv, of "sn_name s" p] by (auto simp: event_node_eq)
  have home': "sn_name s = en_name e" "p \<in> dom (em_events m)" if "event_of ops m (sn_name s) = Some p" "em_events m p = Some e" for p e
    using that event_of_Some [OF inv, of "sn_name s" p] by auto
  have "lo_nodes ops (em_links m') (Subs_of p) = []" if "p \<notin> dom (em_events m)" for p
    using that eventD(7) [OF inv] event_of_Some [OF inv, of "sn_name s" p]
    by (auto simp: f(5) with_sub_def split: option.split)
  moreover have "sn_name (sub_of m' x) = en_name e" if "em_events m p = Some e" "x \<in> set (lo_nodes ops (em_links m') (Subs_of p))" for p e x
    using that eventD(8) [OF inv] home' un [of "Subs_of p"]
    by (cases "x = ptr") (auto simp: f(5) set_with_sub sub sp split: option.splits if_splits)
  moreover have "sn_name (sub_of m' x) \<noteq> en_name e" if "em_events m p = Some e" "x \<in> set (lo_nodes ops (em_links m') Free_root)" for p e x
    using that eventD(9) [OF inv] home un [of Free_root]
    by (cases "x = ptr") (auto simp: f(5) set_with_sub sub sp split: option.splits if_splits)
  moreover have "x \<in> dom (em_subs m') \<longleftrightarrow> x \<in> set (lo_nodes ops (em_links m') Free_root) \<or> (\<exists>p. x \<in> set (lo_nodes ops (em_links m') (Subs_of p)))" for x
  proof -
    have "x \<in> dom (em_subs m') \<longleftrightarrow> x = ptr \<or> x \<in> dom (em_subs m)"
      by (auto simp: f(4))
    moreover have "x \<in> set (lo_nodes ops (em_links m') Free_root) \<longleftrightarrow>
        x \<in> set (lo_nodes ops (em_links m) Free_root) \<or> x = ptr \<and> event_of ops m (sn_name s) = None"
      by (auto simp: f(5) set_with_sub split: option.split)
    moreover have "(\<exists>p. x \<in> set (lo_nodes ops (em_links m') (Subs_of p))) \<longleftrightarrow>
        (\<exists>p. x \<in> set (lo_nodes ops (em_links m) (Subs_of p))) \<or> x = ptr \<and> event_of ops m (sn_name s) \<noteq> None"
      by (cases "event_of ops m (sn_name s)") (simp_all add: f(5) set_with_sub, metis)
    ultimately show ?thesis
      using eventD(4) [OF inv] by blast
  qed
  ultimately show "event_inv ops m'"
    unfolding event_inv_def using eventD(1,3,5,6,10,12) [OF inv] keys f(6) ptr by (simp add: f(1-4) root)
qed

text \<open>An event is created and adopts the free subscriptions of its name.\<close>

lemma adopt_nodes:
  assumes laws: "list_laws ops" and ok: "lists_ok ops h" and x: "x \<in> set (lo_nodes ops h Free_root)"
  shows "lists_ok ops (adopt ops ev x s h)"
    "lo_nodes ops (adopt ops ev x s h) (Subs_of ev) = place (lo_nodes ops h (Subs_of ev)) (\<lambda>_. s) x"
    "lo_nodes ops (adopt ops ev x s h) Free_root = filter (\<lambda>y. y \<noteq> x) (lo_nodes ops h Free_root)"
    "l \<noteq> Free_root \<Longrightarrow> l \<noteq> Subs_of ev \<Longrightarrow> lo_nodes ops (adopt ops ev x s h) l = lo_nodes ops h l"
proof -
  note un = del_unlinks [OF laws ok x] and del = list_laws_del [OF laws ok x]
  have other: "remove1 x (lo_nodes ops h l) = lo_nodes ops h l" if "l \<noteq> Free_root" for l
    using ok x that unfolding lists_ok_def by (intro remove1_idem) blast
  have free: "remove1 x (lo_nodes ops h Free_root) = filter (\<lambda>y. y \<noteq> x) (lo_nodes ops h Free_root)"
    using ok by (simp add: lists_ok_def distinct_remove1_removeAll removeAll_filter_not_eq eq_commute)
  show "lists_ok ops (adopt ops ev x s h)"
    using ok_add_tail [OF laws un(2,1)] ok_add_head [OF laws un(2,1)] by (simp add: adopt_def Let_def)
  show "lo_nodes ops (adopt ops ev x s h) (Subs_of ev) = place (lo_nodes ops h (Subs_of ev)) (\<lambda>_. s) x"
    "lo_nodes ops (adopt ops ev x s h) Free_root = filter (\<lambda>y. y \<noteq> x) (lo_nodes ops h Free_root)"
    "l \<noteq> Free_root \<Longrightarrow> l \<noteq> Subs_of ev \<Longrightarrow> lo_nodes ops (adopt ops ev x s h) l = lo_nodes ops h l"
    by (simp_all add: adopt_def Let_def list_laws_add_tail [OF laws un(2,1)] list_laws_add_head [OF laws un(2,1)] del other free place_def)
qed

lemma adopt_free_nodes:
  assumes laws: "list_laws ops"
  shows "lists_ok ops h \<Longrightarrow> distinct xs \<Longrightarrow> set xs \<subseteq> set (lo_nodes ops h Free_root) \<Longrightarrow> set xs \<subseteq> dom subs \<Longrightarrow>
    \<exists>h'. adopt_free ops subs name ev xs h = Some h' \<and> lists_ok ops h' \<and>
      lo_nodes ops h' (Subs_of ev) =
        foldl (\<lambda>xs. place xs (\<lambda>x. the (subs x))) (lo_nodes ops h (Subs_of ev)) (filter (\<lambda>x. sn_name (the (subs x)) = name) xs) \<and>
      lo_nodes ops h' Free_root = filter (\<lambda>x. \<not> (x \<in> set xs \<and> sn_name (the (subs x)) = name)) (lo_nodes ops h Free_root) \<and>
      (\<forall>l. l \<noteq> Free_root \<longrightarrow> l \<noteq> Subs_of ev \<longrightarrow> lo_nodes ops h' l = lo_nodes ops h l)"
proof (induction xs arbitrary: h)
  case (Cons x xs)
  then obtain s where s: "subs x = Some s" by auto
  have step: "adopt_free ops subs name ev (x # xs) h = adopt_free ops subs name ev xs (if sn_name s = name then adopt ops ev x s h else h)"
    using s by simp
  show ?case
  proof (cases "sn_name s = name")
    case True
    have x: "x \<in> set (lo_nodes ops h Free_root)"
      using Cons.prems(3) by simp
    note a = adopt_nodes [OF laws Cons.prems(1) x, where ev = ev and s = s]
    have "set xs \<subseteq> set (lo_nodes ops (adopt ops ev x s h) Free_root)"
      using Cons.prems(2,3) a(3) by auto
    from Cons.IH [OF a(1) _ this] Cons.prems(2-4) obtain h' where h': "adopt_free ops subs name ev xs (adopt ops ev x s h) = Some h'"
      "lists_ok ops h'"
      "lo_nodes ops h' (Subs_of ev) =
        foldl (\<lambda>xs. place xs (\<lambda>x. the (subs x))) (lo_nodes ops (adopt ops ev x s h) (Subs_of ev)) (filter (\<lambda>x. sn_name (the (subs x)) = name) xs)"
      "lo_nodes ops h' Free_root = filter (\<lambda>x. \<not> (x \<in> set xs \<and> sn_name (the (subs x)) = name)) (lo_nodes ops (adopt ops ev x s h) Free_root)"
      "\<forall>l. l \<noteq> Free_root \<longrightarrow> l \<noteq> Subs_of ev \<longrightarrow> lo_nodes ops h' l = lo_nodes ops (adopt ops ev x s h) l"
      by auto
    have "place ys (\<lambda>_. s) x = place ys (\<lambda>x. the (subs x)) x" for ys
      using s by (simp add: place_def)
    then show ?thesis
      using step True s h' a(2-4) Cons.prems(3) by (auto intro!: filter_cong)
  next
    case False
    then show ?thesis
      using Cons.IH [OF Cons.prems(1)] Cons.prems(2-4) step s by (auto intro!: filter_cong)
  qed
qed simp

lemma create_event_nodes:
  assumes laws: "list_laws ops" and inv: "event_inv ops m" and no: "event_of ops m name = None"
    and ptr: "ptr \<noteq> 0" "ptr \<notin> dom (em_subs m)" "ptr \<notin> dom (em_events m)"
  obtains m' where "event_node_create_init ops name ptr m = Some (ptr, m')"
    "em_subs m' = em_subs m" "em_events m' = (em_events m)(ptr \<mapsto> \<lparr> en_name = name \<rparr>)" "em_inited m' = em_inited m"
    "em_event_cnt m' = em_event_cnt m + 1" "lists_ok ops (em_links m')"
    "lo_nodes ops (em_links m') Event_root = lo_nodes ops (em_links m) Event_root @ [ptr]"
    "\<forall>p. lo_nodes ops (em_links m') (Subs_of p) = (if p = ptr then event_nodes ops m name else lo_nodes ops (em_links m) (Subs_of p))"
    "lo_nodes ops (em_links m') Free_root = filter (\<lambda>x. sn_name (sub_of m x) \<noteq> name) (lo_nodes ops (em_links m) Free_root)"
proof -
  define h0 where "h0 = lo_init ops (Subs_of ptr) (em_links m)"
  have sptr: "lo_nodes ops (em_links m) (Subs_of ptr) = []"
    using eventD(7) [OF inv] ptr(3) by blast
  then have h0: "lo_nodes ops h0 l = lo_nodes ops (em_links m) l" for l
    by (auto simp: h0_def list_laws_init [OF laws])
  then have ok0: "lists_ok ops h0"
    using eventD(2) [OF inv] by (simp add: lists_ok_def)
  let ?free = "lo_nodes ops (em_links m) Free_root"
  have fr: "distinct ?free" "set ?free \<subseteq> dom (em_subs m)"
    using eventD(2,4) [OF inv] by (auto simp: lists_ok_def)
  obtain h where h: "adopt_free ops (em_subs m) name ptr ?free h0 = Some h" "lists_ok ops h"
    "lo_nodes ops h (Subs_of ptr) = event_nodes ops m name"
    "lo_nodes ops h Free_root = filter (\<lambda>x. sn_name (sub_of m x) \<noteq> name) ?free"
    "\<And>l. l \<noteq> Free_root \<Longrightarrow> l \<noteq> Subs_of ptr \<Longrightarrow> lo_nodes ops h l = lo_nodes ops (em_links m) l"
    using adopt_free_nodes [OF laws ok0 fr(1) _ fr(2), of name ptr] no sptr
    by (auto simp: h0 event_nodes_def sub_of_def [abs_def] cong: filter_cong)
  have un: "unlinked ops h ptr"
    unfolding unlinked_def
  proof
    fix l show "ptr \<notin> set (lo_nodes ops h l)"
      using ptr(2,3) eventD(3,4) [OF inv] h(4) h(5) [of l] h(3) set_event_nodes [OF inv, of name]
      by (cases "l = Free_root"; cases "l = Subs_of ptr"; cases l) auto
  qed
  define m' where "m' = m\<lparr> em_events := (em_events m)(ptr \<mapsto> \<lparr> en_name = name \<rparr>), em_links := lo_add_tail ops ptr Event_root h,
    em_event_cnt := em_event_cnt m + 1 \<rparr>"
  have f: "em_subs m' = em_subs m" "em_events m' = (em_events m)(ptr \<mapsto> \<lparr> en_name = name \<rparr>)" "em_inited m' = em_inited m"
    "em_event_cnt m' = em_event_cnt m + 1" "lists_ok ops (em_links m')"
    using ok_add_tail [OF laws h(2) un] by (simp_all add: m'_def)
  have "event_node_create_init ops name ptr m = Some (ptr, m')"
    using ptr(1) h(1) by (simp add: event_node_create_init_def m'_def h0_def)
  then show ?thesis
    using that f h(3-5) by (simp add: m'_def list_laws_add_tail [OF laws h(2) un])
qed

lemma find_snoc: "find P (xs @ [x]) = (case find P xs of None \<Rightarrow> if P x then Some x else None | Some y \<Rightarrow> Some y)"
  by (induction xs) auto

lemma create_event:
  assumes laws: "list_laws ops" and inv: "event_inv ops m" and no: "event_of ops m name = None"
    and ptr: "ptr \<noteq> 0" "ptr \<notin> dom (em_subs m)" "ptr \<notin> dom (em_events m)"
  obtains m' where "event_node_create_init ops name ptr m = Some (ptr, m')" "event_inv ops m'" "event_view ops m' = event_view ops m"
    "event_of ops m' name = Some ptr"
proof -
  obtain m' where m': "event_node_create_init ops name ptr m = Some (ptr, m')"
    and f: "em_subs m' = em_subs m" "em_events m' = (em_events m)(ptr \<mapsto> \<lparr> en_name = name \<rparr>)" "em_inited m' = em_inited m"
      "em_event_cnt m' = em_event_cnt m + 1" "lists_ok ops (em_links m')"
    and nodes: "lo_nodes ops (em_links m') Event_root = lo_nodes ops (em_links m) Event_root @ [ptr]"
      "\<forall>p. lo_nodes ops (em_links m') (Subs_of p) = (if p = ptr then event_nodes ops m name else lo_nodes ops (em_links m) (Subs_of p))"
      "lo_nodes ops (em_links m') Free_root = filter (\<lambda>x. sn_name (sub_of m x) \<noteq> name) (lo_nodes ops (em_links m) Free_root)"
    by (rule create_event_nodes [OF laws inv no ptr])
  have sub: "sub_of m' = sub_of m"
    by (simp add: sub_of_def [abs_def] f)
  have "find (\<lambda>p. en_name (the (em_events m' p)) = n) (lo_nodes ops (em_links m) Event_root) = event_of ops m n" for n
    unfolding event_of_def using ptr(3) eventD(3) [OF inv] by (intro find_cong refl) (auto simp: f)
  then have ev: "event_of ops m' n = (case event_of ops m n of Some p \<Rightarrow> Some p | None \<Rightarrow> if n = name then Some ptr else None)" for n
    unfolding event_of_def [of ops m'] nodes(1) find_snoc by (simp add: f eq_commute split: option.split)
  have nd: "event_nodes ops m' n = event_nodes ops m n" for n
  proof (cases "event_of ops m n")
    case None
    then show ?thesis
      by (auto simp: event_nodes_def [of ops m'] ev nodes(2) [rule_format] nodes(3) sub) (auto simp: event_nodes_def conj_commute cong: conj_cong)
  next
    case (Some p)
    then have "p \<noteq> ptr"
      using event_of_Some [OF inv, of n p] ptr(3) by auto
    then show ?thesis
      using Some by (simp add: event_nodes_def ev nodes(2) [rule_format])
  qed
  then have vw: "event_view ops m' = event_view ops m"
    by (simp add: event_view_def [abs_def] sub)
  have new: "en_name e \<noteq> name" if "em_events m p = Some e" for p e
    using that no event_of_Some [OF inv, of name p] by (auto simp: event_node_eq)
  note sn = set_event_nodes [OF inv, of name] and np = nodes(2) [rule_format]
  have "x \<in> dom (em_subs m) \<longleftrightarrow> x \<in> set (lo_nodes ops (em_links m') Free_root) \<or> (\<exists>p. x \<in> set (lo_nodes ops (em_links m') (Subs_of p)))" for x
  proof -
    have "x \<in> set (lo_nodes ops (em_links m) (Subs_of p)) \<Longrightarrow> p \<noteq> ptr" for p
      using linked_event [OF inv, of x p] ptr(3) by auto
    then have "(\<exists>p. x \<in> set (lo_nodes ops (em_links m) (Subs_of p))) \<longleftrightarrow> (\<exists>p. p \<noteq> ptr \<and> x \<in> set (lo_nodes ops (em_links m) (Subs_of p)))"
      by blast
    moreover have "(\<exists>p. x \<in> set (lo_nodes ops (em_links m') (Subs_of p))) \<longleftrightarrow>
        x \<in> set (event_nodes ops m name) \<or> (\<exists>p. p \<noteq> ptr \<and> x \<in> set (lo_nodes ops (em_links m) (Subs_of p)))"
      unfolding np by (rule iffI; elim exE disjE) (auto split: if_splits)
    moreover have "x \<in> set (lo_nodes ops (em_links m') Free_root) \<longleftrightarrow>
        x \<in> set (lo_nodes ops (em_links m) Free_root) \<and> sn_name (sub_of m x) \<noteq> name"
      by (simp add: nodes(3))
    ultimately show ?thesis
      using eventD(4) [OF inv] sn by blast
  qed
  moreover have "\<forall>p e x. em_events m' p = Some e \<longrightarrow> x \<in> set (lo_nodes ops (em_links m') (Subs_of p)) \<longrightarrow> sn_name (sub_of m x) = en_name e"
    using eventD(8) [OF inv] sn by (auto simp: f(2) np)
  moreover have "\<forall>p e x. em_events m' p = Some e \<longrightarrow> x \<in> set (lo_nodes ops (em_links m') Free_root) \<longrightarrow> sn_name (sub_of m x) \<noteq> en_name e"
    using eventD(9) [OF inv] by (auto simp: f(2) nodes(3))
  moreover have "\<forall>p q e. em_events m' p = Some e \<longrightarrow> em_events m' q = Some e \<longrightarrow> p = q"
    using eventD(10) [OF inv] new by (auto simp: f(2) dest: new)
  moreover have "\<forall>p. p \<notin> dom (em_events m') \<longrightarrow> lo_nodes ops (em_links m') (Subs_of p) = []"
    using eventD(7) [OF inv] by (auto simp: f(2) np)
  moreover have "set (lo_nodes ops (em_links m') Event_root) = dom (em_events m')" "dom (em_events m') \<inter> dom (em_subs m) = {}" "0 \<notin> dom (em_events m')"
    "em_event_cnt m' = int (length (lo_nodes ops (em_links m') Event_root))"
    using eventD(3,5,6,12) [OF inv] ptr by (auto simp: f(2,4) nodes(1))
  ultimately have "event_inv ops m'"
    unfolding event_inv_def sub vw f(1) using eventD(1,11) [OF inv] f(3,5) by simp
  then show ?thesis
    using that m' vw ev [of name] no by simp
qed

section \<open>The operations on the stored subscriptions\<close>

lemma dispatch_subs_ok:
  assumes laws: "list_laws ops"
  shows "event_inv ops m \<Longrightarrow> distinct xs \<Longrightarrow> set xs \<subseteq> dom (em_subs m) \<Longrightarrow>
    \<exists>m' calls. dispatch_subs ops cbs dat xs rt m = Some (if calls = [] then rt else cbs (last calls) dat, calls, m') \<and> event_inv ops m' \<and>
      calls = filter (\<lambda>c. c \<noteq> 0) (map (\<lambda>x. sn_cb (sub_of m x)) xs) \<and> (\<forall>y \<in> dom (em_subs m'). em_subs m' y = em_subs m y) \<and>
      (\<forall>n. event_nodes ops m' n = filter (\<lambda>y. \<not> (y \<in> set xs \<and> sn_type (sub_of m y) = 2)) (event_nodes ops m n))"
proof (induction xs arbitrary: m rt)
  case (Cons x xs)
  then obtain s where s: "em_subs m x = Some s" "sub_of m x = s"
    by (auto simp: sub_of_def)
  define m1 where "m1 = (if sn_type s = 2 then m\<lparr> em_links := lo_del ops x (em_links m), em_subs := (em_subs m)(x := None) \<rparr> else m)"
  have x: "x \<in> dom (em_subs m)"
    using s by auto
  have m1: "event_inv ops m1" "\<And>n. event_nodes ops m1 n = filter (\<lambda>y. \<not> (y = x \<and> sn_type s = 2)) (event_nodes ops m n)"
    "\<And>y. y \<noteq> x \<Longrightarrow> em_subs m1 y = em_subs m y"
    using del_sub(2,4) [OF laws Cons.prems(1) x refl] Cons.prems(1) by (simp_all add: m1_def)
  have sub: "y \<noteq> x \<Longrightarrow> sub_of m1 y = sub_of m y" for y
    using m1(3) by (simp add: sub_of_def)
  have xs: "distinct xs" "x \<notin> set xs" "set xs \<subseteq> dom (em_subs m1)"
  proof -
    show "distinct xs" and x': "x \<notin> set xs"
      using Cons.prems(2) by auto
    show "set xs \<subseteq> dom (em_subs m1)"
      using Cons.prems(3) m1(3) x' by (metis domIff list.set_intros(2) subset_iff)
  qed
  define rt1 where "rt1 = (if sn_cb s \<noteq> 0 then cbs (sn_cb s) dat else rt)"
  obtain m' calls where r: "dispatch_subs ops cbs dat xs rt1 m1 = Some (if calls = [] then rt1 else cbs (last calls) dat, calls, m')"
    "event_inv ops m'" "calls = filter (\<lambda>c. c \<noteq> 0) (map (\<lambda>x. sn_cb (sub_of m1 x)) xs)" "\<forall>y \<in> dom (em_subs m'). em_subs m' y = em_subs m1 y"
    "\<forall>n. event_nodes ops m' n = filter (\<lambda>y. \<not> (y \<in> set xs \<and> sn_type (sub_of m1 y) = 2)) (event_nodes ops m1 n)"
    using Cons.IH [OF m1(1) xs(1,3), of rt1] by blast
  have sub': "\<forall>y \<in> set xs. sub_of m1 y = sub_of m y"
    using sub xs(2) by metis
  have "em_subs m' y = em_subs m y" if y: "y \<in> dom (em_subs m')" for y
    using r(4) [rule_format, OF y] y m1(3) by (cases "y = x"; cases "sn_type s = 2") (auto simp: m1_def)
  moreover have "event_nodes ops m' n = filter (\<lambda>y. \<not> (y \<in> set (x # xs) \<and> sn_type (sub_of m y) = 2)) (event_nodes ops m n)" for n
    unfolding r(5) [rule_format] m1(2) filter_filter
    by (intro filter_cong refl) (use s(2) sub' in auto)
  moreover define calls' where "calls' = (if sn_cb s \<noteq> 0 then [sn_cb s] else []) @ calls"
  have "map (\<lambda>x. sn_cb (sub_of m1 x)) xs = map (\<lambda>x. sn_cb (sub_of m x)) xs"
    using sub' by simp
  then have "calls' = filter (\<lambda>c. c \<noteq> 0) (map (\<lambda>x. sn_cb (sub_of m x)) (x # xs))"
    unfolding calls'_def r(3) by (simp only:) (simp add: s(2))
  moreover have "(if calls = [] then rt1 else cbs (last calls) dat) = (if calls' = [] then rt else cbs (last calls') dat)"
    by (simp add: calls'_def rt1_def)
  then have "dispatch_subs ops cbs dat (x # xs) rt m = Some (if calls' = [] then rt else cbs (last calls') dat, calls', m')"
    using s(1) r(1) by (cases "sn_cb s = 0") (simp_all add: Let_def rt1_def calls'_def flip: m1_def)
  ultimately show ?case
    using r(2) by blast
qed simp

lemma find_sub:
  assumes inv: "event_inv ops m"
  obtains r where "(case event_of ops m (sn_name s) of None \<Rightarrow> event_node_get_free_subscribe ops s m
      | Some p \<Rightarrow> event_node_get_subscribe ops p s m) = Some r"
    "r = None \<Longrightarrow> sub_key s \<notin> sub_key ` set (event_view ops m (sn_name s))"
    "\<And>x. r = Some x \<Longrightarrow> x \<in> set (event_nodes ops m (sn_name s)) \<and> sub_key (sub_of m x) = sub_key s"
proof -
  have dom: "set (lo_nodes ops (em_links m) l) \<subseteq> dom (em_subs m)" if "l \<noteq> Event_root" for l
    using that eventD(4) [OF inv] by (cases l) blast+
  show ?thesis
  proof (cases "event_of ops m (sn_name s)")
    case None
    let ?P = "\<lambda>e. sn_name e = sn_name s \<and> sn_desc e = sn_desc s \<and> sn_cb e = sn_cb s"
    let ?r = "find (\<lambda>x. ?P (the (em_subs m x))) (lo_nodes ops (em_links m) Free_root)"
    have "event_node_get_free_subscribe ops s m = Some ?r"
      unfolding event_node_get_free_subscribe_def by (rule find_node_find) (simp add: dom)
    moreover have "set (event_nodes ops m (sn_name s)) = {x \<in> set (lo_nodes ops (em_links m) Free_root). sn_name (sub_of m x) = sn_name s}"
      using None by (auto simp: event_nodes_def placed_filter)
    ultimately show ?thesis
      using None by (intro that [of ?r]) (auto simp: sub_key_def event_view_def find_None_iff sub_of_def dest!: find_SomeD)
  next
    case (Some p)
    let ?P = "\<lambda>e. sn_desc e = sn_desc s \<and> sn_cb e = sn_cb s"
    let ?r = "find (\<lambda>x. ?P (the (em_subs m x))) (lo_nodes ops (em_links m) (Subs_of p))"
    have "event_node_get_subscribe ops p s m = Some ?r"
      unfolding event_node_get_subscribe_def by (rule find_node_find) (simp add: dom)
    moreover have "event_nodes ops m (sn_name s) = lo_nodes ops (em_links m) (Subs_of p)"
      using Some by (simp add: event_nodes_def)
    ultimately show ?thesis
      using Some by (intro that [of ?r]) (auto simp: sub_key_def event_view_def find_None_iff sub_of_def dest!: find_SomeD)
  qed
qed

text \<open>The operations of the abstract service: the subscriptions of every name.\<close>

definition spec_subscribe :: "subscribe_node \<Rightarrow> subscribe_node list \<Rightarrow> subscribe_node list" where
  "spec_subscribe s xs = (if sub_key s \<in> sub_key ` set xs then xs else place xs (\<lambda>s. s) s)"

definition spec_unsubscribe :: "bytes \<times> nat \<Rightarrow> subscribe_node list \<Rightarrow> subscribe_node list" where
  "spec_unsubscribe k xs = filter (\<lambda>s. sub_key s \<noteq> k) xs"

definition spec_published :: "subscribe_node list \<Rightarrow> subscribe_node list" where
  "spec_published xs = filter (\<lambda>s. sn_type s \<noteq> SUBSCRIBE_TYPE_ONETIME) xs"

definition spec_calls :: "subscribe_node list \<Rightarrow> nat list" where
  "spec_calls xs = filter (\<lambda>c. c \<noteq> 0) (map sn_cb xs)"

definition free_ptr :: "'h event_manage \<Rightarrow> nat \<Rightarrow> bool" where
  "free_ptr m ptr \<longleftrightarrow> ptr \<noteq> 0 \<and> ptr \<notin> dom (em_subs m) \<and> ptr \<notin> dom (em_events m)"

lemma free_ptr_unlinked:
  assumes "event_inv ops m" "free_ptr m ptr"
  shows "unlinked ops (em_links m) ptr"
  unfolding unlinked_def
proof
  fix l show "ptr \<notin> set (lo_nodes ops (em_links m) l)"
    using assms(2) eventD(3,4) [OF assms(1)] unfolding free_ptr_def by (cases l) blast+
qed

lemma publish_ok:
  assumes laws: "list_laws ops" and inv: "event_inv ops m" and name: "event_name_is_valid (Some n)"
    and ptr: "event_of ops m n = None \<Longrightarrow> free_ptr m ptr"
  shows "\<exists>m'. tal_event_publish ops cbs ptr (Some n) dat m =
      Some (if spec_calls (event_view ops m n) = [] then OPRT_OK else cbs (last (spec_calls (event_view ops m n))) dat,
            spec_calls (event_view ops m n), m') \<and>
    event_inv ops m' \<and> event_view ops m' = (event_view ops m)(n := spec_published (event_view ops m n))"
proof -
  obtain p m1 where p: "event_inv ops m1" "event_view ops m1 = event_view ops m" "event_of ops m1 n = Some p" "p \<noteq> 0"
    "(case event_of ops m n of Some ev \<Rightarrow> Some (ev, m) | None \<Rightarrow> event_node_create_init ops n ptr m) = Some (p, m1)"
  proof (cases "event_of ops m n")
    case None
    then have pt: "ptr \<noteq> 0" "ptr \<notin> dom (em_subs m)" "ptr \<notin> dom (em_events m)"
      using ptr by (simp_all add: free_ptr_def)
    obtain m1 where "event_node_create_init ops n ptr m = Some (ptr, m1)" "event_inv ops m1" "event_view ops m1 = event_view ops m"
      "event_of ops m1 n = Some ptr"
      by (rule create_event [OF laws inv None pt])
    then show ?thesis
      using that [of m1 ptr] None pt(1) by simp
  next
    case (Some p)
    then have "p \<noteq> 0"
      using event_of_Some [OF inv] eventD(6) [OF inv] by (metis domI)
    then show ?thesis
      using that [OF inv refl Some] Some by simp
  qed
  have nodes: "lo_nodes ops (em_links m1) (Subs_of p) = event_nodes ops m1 n"
    using p(3) by (simp add: event_nodes_def)
  have sx: "set (event_nodes ops m1 n) \<subseteq> dom (em_subs m1)"
    using set_event_nodes [OF p(1), of n] by auto
  obtain m' calls where m': "dispatch_subs ops cbs dat (event_nodes ops m1 n) OPRT_OK m1 =
      Some (if calls = [] then OPRT_OK else cbs (last calls) dat, calls, m')" "event_inv ops m'"
    "calls = filter (\<lambda>c. c \<noteq> 0) (map (\<lambda>x. sn_cb (sub_of m1 x)) (event_nodes ops m1 n))"
    "\<forall>y \<in> dom (em_subs m'). em_subs m' y = em_subs m1 y"
    "\<forall>k. event_nodes ops m' k = filter (\<lambda>y. \<not> (y \<in> set (event_nodes ops m1 n) \<and> sn_type (sub_of m1 y) = 2)) (event_nodes ops m1 k)"
    using dispatch_subs_ok [OF laws p(1) distinct_event_nodes [OF p(1)] sx, of cbs dat OPRT_OK] by blast
  have calls: "calls = spec_calls (event_view ops m n)"
    unfolding m'(3) p(2) [symmetric] by (simp add: spec_calls_def event_view_def comp_def)
  have "event_view ops m' k = ((event_view ops m)(n := spec_published (event_view ops m n))) k" for k
  proof -
    have "map (sub_of m') (event_nodes ops m' k) = map (sub_of m1) (event_nodes ops m' k)"
      using m'(4) set_event_nodes [OF m'(2), of k] by (auto simp: sub_of_def)
    moreover have "event_nodes ops m' k = (if k = n then filter (\<lambda>y. sn_type (sub_of m1 y) \<noteq> 2) (event_nodes ops m1 k) else event_nodes ops m1 k)"
      unfolding m'(5) [rule_format] set_event_nodes [OF p(1), of n]
      using set_event_nodes [OF p(1), of k] by (auto intro!: filter_cong filter_True)
    ultimately show ?thesis
      unfolding p(2) [symmetric] by (auto simp: event_view_def spec_published_def filter_map comp_def)
  qed
  then have "event_view ops m' = (event_view ops m)(n := spec_published (event_view ops m n))"
    by (rule ext)
  moreover have "tal_event_publish ops cbs ptr (Some n) dat m = Some (if calls = [] then OPRT_OK else cbs (last calls) dat, calls, m')"
    using name eventD(1) [OF inv] event_node_get_ok [OF inv, of n] p(4,5) m'(1)
    unfolding tal_event_publish_def option.sel by (simp add: event_node_dispatch_def nodes)
  ultimately show ?thesis
    using m'(2) calls by blast
qed


lemma subscribe_ok:
  assumes laws: "list_laws ops" and inv: "event_inv ops m" and ptr: "free_ptr m ptr"
    and valid: "event_name_is_valid (Some n)" "event_desc_is_valid (Some d)"
  shows "\<exists>m'. tal_event_subscribe ops ptr (Some n) (Some d) cb ty m = Some (OPRT_OK, m') \<and> event_inv ops m' \<and>
    event_view ops m' = (event_view ops m)(n := spec_subscribe \<lparr> sn_name = n, sn_desc = d, sn_type = ty, sn_cb = cb \<rparr> (event_view ops m n))"
proof -
  define s where "s = \<lparr> sn_name = n, sn_desc = d, sn_type = ty, sn_cb = cb \<rparr>"
  have n: "sn_name s = n"
    by (simp add: s_def)
  obtain r where r: "(case event_of ops m (sn_name s) of None \<Rightarrow> event_node_get_free_subscribe ops s m
      | Some p \<Rightarrow> event_node_get_subscribe ops p s m) = Some r"
    "r = None \<Longrightarrow> sub_key s \<notin> sub_key ` set (event_view ops m (sn_name s))"
    "\<And>x. r = Some x \<Longrightarrow> x \<in> set (event_nodes ops m (sn_name s)) \<and> sub_key (sub_of m x) = sub_key s"
    by (rule find_sub [OF inv, of s]) blast
  have op: "tal_event_subscribe ops ptr (Some n) (Some d) cb ty m =
      (case event_of ops m n of None \<Rightarrow> event_node_add_free_subscribe ops ptr s m | Some ev \<Rightarrow> event_node_add_subscribe ops ptr ev s m)"
    using valid eventD(1) [OF inv] event_node_get_ok [OF inv, of n]
    unfolding tal_event_subscribe_def option.sel by (simp flip: s_def)
  show ?thesis
  proof (cases r)
    case None
    note un = free_ptr_unlinked [OF inv ptr]
    define m' where "m' = m\<lparr> em_subs := (em_subs m)(ptr \<mapsto> s), em_links := (case event_of ops m n of
        None \<Rightarrow> lo_add_tail ops ptr Free_root (em_links m)
      | Some p \<Rightarrow> (if sn_type s = 1 then lo_add ops ptr (lo_head ops (Subs_of p)) (em_links m) else lo_add_tail ops ptr (Subs_of p) (em_links m))) \<rparr>"
    have pt: "ptr \<notin> dom (em_subs m)" "ptr \<notin> dom (em_events m)" "ptr \<noteq> 0"
      using ptr by (simp_all add: free_ptr_def)
    have "lo_nodes ops (em_links m') l = with_sub ops m ptr s l" for l
      by (simp add: m'_def with_sub_def place_def n list_laws_add_tail [OF laws eventD(2) [OF inv] un]
          list_laws_add_head [OF laws eventD(2) [OF inv] un] split: option.split)
    moreover have "lists_ok ops (em_links m')"
      by (simp add: m'_def ok_add_tail [OF laws eventD(2) [OF inv] un] ok_add_head [OF laws eventD(2) [OF inv] un] split: option.split)
    ultimately have v: "event_inv ops m'"
      "event_view ops m' k = (if k = sn_name s then place (event_view ops m k) (\<lambda>s. s) s else event_view ops m k)" for k
      using add_sub_inv [OF inv pt(1,2) r(2) [OF None], of m'] add_sub_view [OF inv pt(1,2), of m' s] by (simp_all add: m'_def)
    have "tal_event_subscribe ops ptr (Some n) (Some d) cb ty m = Some (OPRT_OK, m')"
      using op r(1) None pt(3) unfolding n
      by (cases "event_of ops m n") (simp_all add: event_node_add_free_subscribe_def event_node_add_subscribe_def m'_def)
    then show ?thesis
      using v r(2) [OF None] by (auto simp: n spec_subscribe_def simp flip: s_def)
  next
    case (Some x)
    have "tal_event_subscribe ops ptr (Some n) (Some d) cb ty m = Some (OPRT_OK, m)"
      using op r(1) Some unfolding n
      by (cases "event_of ops m n") (simp_all add: event_node_add_free_subscribe_def event_node_add_subscribe_def)
    moreover have "sub_key s \<in> sub_key ` set (event_view ops m n)"
      using r(3) [OF Some] unfolding n by (auto simp: event_view_def image_image intro: rev_image_eqI)
    ultimately show ?thesis
      using inv by (simp add: spec_subscribe_def fun_upd_idem flip: s_def)
  qed
qed

lemma unsubscribe_ok:
  assumes laws: "list_laws ops" and inv: "event_inv ops m"
    and valid: "event_name_is_valid (Some n)" "event_desc_is_valid (Some d)"
  shows "\<exists>m'. tal_event_unsubscribe ops (Some n) (Some d) cb m = Some (OPRT_OK, m') \<and> event_inv ops m' \<and>
    event_view ops m' = (event_view ops m)(n := spec_unsubscribe (d, cb) (event_view ops m n))"
proof -
  define s where "s = \<lparr> sn_name = n, sn_desc = d, sn_type = 0, sn_cb = cb \<rparr>"
  have n: "sn_name s = n" "sub_key s = (d, cb)"
    by (simp_all add: s_def sub_key_def)
  obtain r where r: "(case event_of ops m (sn_name s) of None \<Rightarrow> event_node_get_free_subscribe ops s m
      | Some p \<Rightarrow> event_node_get_subscribe ops p s m) = Some r"
    "r = None \<Longrightarrow> sub_key s \<notin> sub_key ` set (event_view ops m (sn_name s))"
    "\<And>x. r = Some x \<Longrightarrow> x \<in> set (event_nodes ops m (sn_name s)) \<and> sub_key (sub_of m x) = sub_key s"
    by (rule find_sub [OF inv, of s]) blast
  define m' where "m' = (case r of None \<Rightarrow> m
    | Some x \<Rightarrow> m\<lparr> em_links := lo_del ops x (em_links m), em_subs := (em_subs m)(x := None) \<rparr>)"
  have "tal_event_unsubscribe ops (Some n) (Some d) cb m =
      (case event_of ops m n of None \<Rightarrow> event_node_del_free_subscribe ops s m | Some ev \<Rightarrow> event_node_del_subscribe ops ev s m)"
    using valid eventD(1) [OF inv] event_node_get_ok [OF inv, of n]
    unfolding tal_event_unsubscribe_def option.sel by (simp flip: s_def)
  also have "\<dots> = Some (OPRT_OK, m')"
    using r(1) unfolding n m'_def
    by (cases "event_of ops m n"; cases r) (simp_all add: event_node_del_free_subscribe_def event_node_del_subscribe_def)
  finally have op: "tal_event_unsubscribe ops (Some n) (Some d) cb m = Some (OPRT_OK, m')" .
  show ?thesis
  proof (cases r)
    case None
    then have "spec_unsubscribe (d, cb) (event_view ops m n) = event_view ops m n"
      using r(2) n unfolding spec_unsubscribe_def by (intro filter_True) (metis image_eqI)
    then show ?thesis
      using op None inv by (simp add: m'_def fun_upd_idem)
  next
    case (Some x)
    then have x: "x \<in> set (event_nodes ops m n)" "sub_key (sub_of m x) = (d, cb)"
      using r(3) n by auto
    then have xd: "x \<in> dom (em_subs m)" "sn_name (sub_of m x) = n"
      using set_event_nodes [OF inv, of n] by auto
    have "m' = m\<lparr> em_links := lo_del ops x (em_links m), em_subs := (em_subs m)(x := None) \<rparr>"
      using Some by (simp add: m'_def)
    note del = del_sub [OF laws inv xd(1) this]
    have inj: "y = x" if "y \<in> set (event_nodes ops m n)" "sub_key (sub_of m y) = (d, cb)" for y
    proof -
      have "distinct (map (\<lambda>y. sub_key (sub_of m y)) (event_nodes ops m n))"
        using eventD(11) [OF inv, rule_format, of n] by (simp add: event_view_def comp_def)
      then have "inj_on (\<lambda>y. sub_key (sub_of m y)) (set (event_nodes ops m n))"
        by (simp only: distinct_map)
      then show ?thesis
        by (rule inj_onD) (simp_all only: that x)
    qed
    have "event_view ops m' k = ((event_view ops m)(n := spec_unsubscribe (d, cb) (event_view ops m n))) k" for k
    proof (cases "k = n")
      case True
      have "filter (\<lambda>y. y \<noteq> x) (event_nodes ops m n) = filter (\<lambda>y. sub_key (sub_of m y) \<noteq> (d, cb)) (event_nodes ops m n)"
        by (intro filter_cong refl) (metis inj x(2))
      then show ?thesis
        using True unfolding del(3) by (simp add: event_view_def spec_unsubscribe_def filter_map comp_def)
    next
      case False
      then have "filter (\<lambda>y. y \<noteq> x) (event_nodes ops m k) = event_nodes ops m k"
        using xd set_event_nodes [OF inv, of k] by (intro filter_True) auto
      then show ?thesis
        using False unfolding del(3) by (simp add: event_view_def)
    qed
    then have "event_view ops m' = (event_view ops m)(n := spec_unsubscribe (d, cb) (event_view ops m n))"
      by (rule ext)
    then show ?thesis
      using op del(4) by blast
  qed
qed

section \<open>Reachable states\<close>

text \<open>Calls of the interface from a manager whose lists are empty; an allocation fails or gives a free address.\<close>

definition event_start :: "('h, 'p) event_lists \<Rightarrow> 'h event_manage \<Rightarrow> bool" where
  "event_start ops m \<longleftrightarrow> (\<exists>m0. \<not> em_inited m0 \<and> em_events m0 = Map.empty \<and> em_subs m0 = Map.empty \<and>
     (\<forall>l. lo_nodes ops (em_links m0) l = []) \<and> tal_event_init ops m0 = (OPRT_OK, m))"

inductive event_step :: "('h, 'p) event_lists \<Rightarrow> 'h event_manage \<Rightarrow> 'h event_manage \<Rightarrow> bool" for ops where
  step_init: "tal_event_init ops m = (rc, m') \<Longrightarrow> event_step ops m m'"
| step_subscribe: "ptr = 0 \<or> free_ptr m ptr \<Longrightarrow> tal_event_subscribe ops ptr name desc cb ty m = Some (rc, m') \<Longrightarrow> event_step ops m m'"
| step_unsubscribe: "tal_event_unsubscribe ops name desc cb m = Some (rc, m') \<Longrightarrow> event_step ops m m'"
| step_publish: "ptr = 0 \<or> free_ptr m ptr \<Longrightarrow> tal_event_publish ops cbs ptr name (dat :: nat) m = Some (rc, calls, m') \<Longrightarrow> event_step ops m m'"

lemma subscribe_no_memory:
  assumes inv: "event_inv ops m" and op: "tal_event_subscribe ops 0 name desc cb ty m = Some (rc, m')"
  shows "m' = m"
  using op eventD(1) [OF inv] event_node_get_ok [OF inv]
  by (auto simp: tal_event_subscribe_def event_node_add_free_subscribe_def event_node_add_subscribe_def Let_def bind_eq_Some_conv
      split: if_splits option.splits)

lemma valid_Some: "event_name_is_valid name \<Longrightarrow> \<exists>n. name = Some n" "event_desc_is_valid desc \<Longrightarrow> \<exists>d. desc = Some d"
  by (auto simp: event_name_is_valid_def event_desc_is_valid_def split: option.splits)

lemma publish_inv:
  assumes laws: "list_laws ops" and inv: "event_inv ops m" and ptr: "ptr = 0 \<or> free_ptr m ptr"
    and op: "tal_event_publish ops cbs ptr name dat m = Some (rc, calls, m')"
  shows "event_inv ops m'"
proof (cases "event_name_is_valid name")
  case True
  then obtain n where n: "name = Some n" "event_name_is_valid (Some n)"
    using valid_Some(1) by blast
  show ?thesis
  proof (cases "event_of ops m n = None \<and> ptr = 0")
    case True
    then show ?thesis
      using op n inv eventD(1) [OF inv] event_node_get_ok [OF inv, of n] by (simp add: tal_event_publish_def event_node_create_init_def)
  next
    case False
    then show ?thesis
      using publish_ok [OF laws inv n(2), of ptr cbs dat] ptr op n(1) by auto
  qed
next
  case False
  then show ?thesis
    using op inv eventD(1) [OF inv] by (simp add: tal_event_publish_def)
qed

lemma subscribe_inv:
  assumes laws: "list_laws ops" and inv: "event_inv ops m" and ptr: "ptr = 0 \<or> free_ptr m ptr"
    and op: "tal_event_subscribe ops ptr name desc cb ty m = Some (rc, m')"
  shows "event_inv ops m'"
proof (cases "event_name_is_valid name \<and> event_desc_is_valid desc \<and> ptr \<noteq> 0")
  case True
  then obtain n d where "name = Some n" "desc = Some d"
    using valid_Some by blast
  then show ?thesis
    using True subscribe_ok [OF laws inv, of ptr n d cb ty] ptr op by auto
next
  case False
  then show ?thesis
    using op inv eventD(1) [OF inv] subscribe_no_memory [OF inv, of name desc cb ty rc m']
    by (cases "ptr = 0") (auto simp: tal_event_subscribe_def split: if_splits)
qed

lemma unsubscribe_inv:
  assumes laws: "list_laws ops" and inv: "event_inv ops m" and op: "tal_event_unsubscribe ops name desc cb m = Some (rc, m')"
  shows "event_inv ops m'"
proof (cases "event_name_is_valid name \<and> event_desc_is_valid desc")
  case True
  then obtain n d where "name = Some n" "desc = Some d"
    using valid_Some by blast
  then show ?thesis
    using True unsubscribe_ok [OF laws inv, of n d cb] op by auto
next
  case False
  then show ?thesis
    using op inv eventD(1) [OF inv] by (auto simp: tal_event_unsubscribe_def split: if_splits)
qed

interpretation ev: invariant_system "event_start ops" "event_step ops" "\<lambda>m. list_laws ops \<longrightarrow> event_inv ops m" for ops
proof (unfold_locales, safe)
  fix m :: "'a event_manage" assume laws: "list_laws ops" and "event_start ops m"
  then obtain m0 where "\<not> em_inited m0" "em_events m0 = Map.empty" "em_subs m0 = Map.empty"
    "\<forall>l. lo_nodes ops (em_links m0) l = []" "m = snd (tal_event_init ops m0)"
    by (auto simp: event_start_def)
  then show "event_inv ops m"
    by (simp add: event_inv_def tal_event_init_def lists_ok_def list_laws_init [OF laws] event_view_def event_nodes_def event_of_def)
next
  fix m m' :: "'a event_manage" assume laws: "list_laws ops" and step: "event_step ops m m'" and inv: "event_inv ops m"
  from step show "event_inv ops m'"
  proof cases
    case step_init
    then show ?thesis
      using inv eventD(1) [OF inv] by (simp add: tal_event_init_def)
  next
    case step_subscribe
    then show ?thesis by (rule subscribe_inv [OF laws inv])
  next
    case step_unsubscribe
    then show ?thesis by (rule unsubscribe_inv [OF laws inv])
  next
    case step_publish
    then show ?thesis by (rule publish_inv [OF laws inv])
  qed
qed

section \<open>The contract\<close>

text \<open>
  What a client of the events relies on: a view of the subscriptions of every name, and how the three
  operations change it.
\<close>

locale pubsub =
  fixes ok :: "'s \<Rightarrow> bool"
    and view :: "'s \<Rightarrow> bytes \<Rightarrow> subscribe_node list"
    and fresh :: "'s \<Rightarrow> nat \<Rightarrow> bool"
    and subscribe :: "nat \<Rightarrow> bytes option \<Rightarrow> bytes option \<Rightarrow> nat \<Rightarrow> u8 \<Rightarrow> 's \<Rightarrow> (operate_ret \<times> 's) option"
    and unsubscribe :: "bytes option \<Rightarrow> bytes option \<Rightarrow> nat \<Rightarrow> 's \<Rightarrow> (operate_ret \<times> 's) option"
    and publish :: "(nat \<Rightarrow> 'd \<Rightarrow> operate_ret) \<Rightarrow> nat \<Rightarrow> bytes option \<Rightarrow> 'd \<Rightarrow> 's \<Rightarrow> (operate_ret \<times> nat list \<times> 's) option"
  assumes subscribe_law: "ok m \<Longrightarrow> fresh m ptr \<Longrightarrow> event_name_is_valid (Some n) \<Longrightarrow> event_desc_is_valid (Some d) \<Longrightarrow>
      \<exists>m'. subscribe ptr (Some n) (Some d) cb ty m = Some (OPRT_OK, m') \<and> ok m' \<and>
        view m' = (view m)(n := spec_subscribe \<lparr> sn_name = n, sn_desc = d, sn_type = ty, sn_cb = cb \<rparr> (view m n))"
    and unsubscribe_law: "ok m \<Longrightarrow> event_name_is_valid (Some n) \<Longrightarrow> event_desc_is_valid (Some d) \<Longrightarrow>
      \<exists>m'. unsubscribe (Some n) (Some d) cb m = Some (OPRT_OK, m') \<and> ok m' \<and> view m' = (view m)(n := spec_unsubscribe (d, cb) (view m n))"
    and publish_law: "ok m \<Longrightarrow> fresh m ptr \<Longrightarrow> event_name_is_valid (Some n) \<Longrightarrow>
      \<exists>m' rc. publish cbs ptr (Some n) dat m = Some (rc, spec_calls (view m n), m') \<and> ok m' \<and>
        view m' = (view m)(n := spec_published (view m n))"
begin

lemma subscriber_called:
  assumes "ok m" "fresh m p" "event_name_is_valid (Some n)" "event_desc_is_valid (Some d)" "cb \<noteq> 0"
    and "subscribe p (Some n) (Some d) cb ty m = Some (rc, m1)" "fresh m1 q"
  shows "\<exists>rc' calls m2. publish cbs q (Some n) dat m1 = Some (rc', calls, m2) \<and> cb \<in> set calls"
proof -
  have m1: "ok m1" "view m1 n = spec_subscribe \<lparr> sn_name = n, sn_desc = d, sn_type = ty, sn_cb = cb \<rparr> (view m n)"
    using subscribe_law [OF assms(1-4), of cb ty] assms(6) by auto
  have "cb \<in> sn_cb ` set (view m1 n)"
    unfolding m1(2) by (auto simp: spec_subscribe_def sub_key_def image_iff)
  then show ?thesis
    using publish_law [OF m1(1) assms(7,3), of cbs dat] assms(5) by (force simp: spec_calls_def)
qed

lemma unsubscribed_not_called:
  assumes "ok m" "event_name_is_valid (Some n)" "event_desc_is_valid (Some d)"
    and only: "\<forall>s \<in> set (view m n). sn_cb s = cb \<longrightarrow> sn_desc s = d"
    and "unsubscribe (Some n) (Some d) cb m = Some (rc, m1)" "fresh m1 q"
  shows "\<exists>rc' calls m2. publish cbs q (Some n) dat m1 = Some (rc', calls, m2) \<and> cb \<notin> set calls"
proof -
  have m1: "ok m1" "view m1 n = spec_unsubscribe (d, cb) (view m n)"
    using unsubscribe_law [OF assms(1-3), of cb] assms(5) by auto
  have "cb \<notin> sn_cb ` set (view m1 n)"
    unfolding m1(2) using only by (auto simp: spec_unsubscribe_def sub_key_def)
  then show ?thesis
    using publish_law [OF m1(1) assms(6,2), of cbs dat] by (force simp: spec_calls_def)
qed

lemma served_in_order:
  assumes "ok m" "fresh m p" "event_name_is_valid (Some n)" "event_desc_is_valid (Some d)" "cb \<noteq> 0"
    and new: "(d, cb) \<notin> sub_key ` set (view m n)"
    and "subscribe p (Some n) (Some d) cb ty m = Some (rc, m1)" "fresh m1 q"
  shows "\<exists>rc' m2. publish cbs q (Some n) dat m1 =
    Some (rc', if ty = SUBSCRIBE_TYPE_EMERGENCY then cb # spec_calls (view m n) else spec_calls (view m n) @ [cb], m2)"
proof -
  have m1: "ok m1" "view m1 n = spec_subscribe \<lparr> sn_name = n, sn_desc = d, sn_type = ty, sn_cb = cb \<rparr> (view m n)"
    using subscribe_law [OF assms(1-4), of cb ty] assms(7) by auto
  have "view m1 n = place (view m n) (\<lambda>s. s) \<lparr> sn_name = n, sn_desc = d, sn_type = ty, sn_cb = cb \<rparr>"
    unfolding m1(2) using new by (simp add: spec_subscribe_def sub_key_def)
  then show ?thesis
    using publish_law [OF m1(1) assms(8,3), of cbs dat] assms(5) by (auto simp: spec_calls_def place_def)
qed

lemma onetime_once:
  assumes "ok m" "fresh m p" "event_name_is_valid (Some n)"
    and "publish cbs p (Some n) dat m = Some (rc, calls, m1)" "fresh m1 q"
  shows "\<exists>rc' m2. publish cbs q (Some n) dat' m1 = Some (rc', spec_calls (filter (\<lambda>s. sn_type s \<noteq> SUBSCRIBE_TYPE_ONETIME) (view m n)), m2)"
proof -
  have "ok m1" "view m1 n = filter (\<lambda>s. sn_type s \<noteq> SUBSCRIBE_TYPE_ONETIME) (view m n)"
    using publish_law [OF assms(1-3), of cbs dat] assms(4) by (auto simp: spec_published_def)
  then show ?thesis
    using publish_law [OF _ assms(5,3), of cbs dat'] by auto
qed

end

interpretation evs: pubsub "\<lambda>m. list_laws ops \<and> event_inv ops m" "event_view ops" free_ptr "tal_event_subscribe ops"
  "tal_event_unsubscribe ops" "tal_event_publish ops" for ops
proof (unfold_locales, goal_cases)
  case (1 m ptr n d cb ty)
  then show ?case using subscribe_ok [of ops m ptr n d cb ty] by simp
next
  case (2 m n d cb)
  then show ?case using unsubscribe_ok [of ops m n d cb] by simp
next
  case (3 m ptr n cbs dat)
  then show ?case using publish_ok [of ops m n ptr cbs dat] by auto
qed

section \<open>Properties\<close>

definition event_mgr0 :: "(event_head \<Rightarrow> nat list) event_manage" where
  "event_mgr0 = \<lparr> em_inited = False, em_event_cnt = 0, em_links = \<lambda>_. [], em_events = Map.empty, em_subs = Map.empty \<rparr>"

text \<open>A manager with two subscriptions of the name \<open>A\<close>, by the callbacks 1 and 2.\<close>

definition demo_sub :: "nat \<Rightarrow> u8 \<Rightarrow> nat \<Rightarrow> (event_head \<Rightarrow> nat list) event_manage \<Rightarrow> (event_head \<Rightarrow> nat list) event_manage" where
  "demo_sub ptr d cb m = snd (the (tal_event_subscribe seq_lists ptr (Some [0x41]) (Some [d]) cb 0 m))"

definition event_demo :: "(event_head \<Rightarrow> nat list) event_manage" where
  "event_demo = demo_sub 6 0x43 2 (demo_sub 5 0x42 1 (snd (tal_event_init seq_lists event_mgr0)))"

lemma demo_sub_step:
  assumes "reach (event_start seq_lists) (event_step seq_lists) m" "free_ptr m ptr"
  shows "reach (event_start seq_lists) (event_step seq_lists) (demo_sub ptr d cb m)"
    "event_view seq_lists (demo_sub ptr d cb m) =
       (event_view seq_lists m)([0x41] := spec_subscribe \<lparr> sn_name = [0x41], sn_desc = [d], sn_type = 0, sn_cb = cb \<rparr> (event_view seq_lists m [0x41]))"
proof -
  have "event_inv seq_lists m"
    using ev.reach_inv [OF assms(1)] seq_lists_laws by blast
  from subscribe_ok [OF seq_lists_laws this assms(2), of "[0x41]" "[d]" cb 0]
  have s: "tal_event_subscribe seq_lists ptr (Some [0x41]) (Some [d]) cb 0 m = Some (OPRT_OK, demo_sub ptr d cb m)"
    "event_view seq_lists (demo_sub ptr d cb m) =
       (event_view seq_lists m)([0x41] := spec_subscribe \<lparr> sn_name = [0x41], sn_desc = [d], sn_type = 0, sn_cb = cb \<rparr> (event_view seq_lists m [0x41]))"
    by (auto simp: demo_sub_def event_name_is_valid_def event_desc_is_valid_def)
  then show "event_view seq_lists (demo_sub ptr d cb m) =
       (event_view seq_lists m)([0x41] := spec_subscribe \<lparr> sn_name = [0x41], sn_desc = [d], sn_type = 0, sn_cb = cb \<rparr> (event_view seq_lists m [0x41]))"
    by simp
  show "reach (event_start seq_lists) (event_step seq_lists) (demo_sub ptr d cb m)"
    using reach_step [OF assms(1) step_subscribe [OF _ s(1)]] assms(2) by blast
qed

lemma event_demo:
  "reach (event_start seq_lists) (event_step seq_lists) event_demo"
  "event_view seq_lists event_demo [0x41] =
     [\<lparr> sn_name = [0x41], sn_desc = [0x42], sn_type = 0, sn_cb = 1 \<rparr>, \<lparr> sn_name = [0x41], sn_desc = [0x43], sn_type = 0, sn_cb = 2 \<rparr>]"
  "free_ptr event_demo 7" "em_events event_demo = Map.empty" "em_subs event_demo 8 = None"
proof -
  define m0 where "m0 = snd (tal_event_init seq_lists event_mgr0)"
  have m0: "event_start seq_lists m0" "event_view seq_lists m0 [0x41] = []" "free_ptr m0 5"
    unfolding event_start_def m0_def
    by (intro exI [of _ event_mgr0])
      (simp_all add: event_mgr0_def tal_event_init_def seq_lists_def event_view_def event_nodes_def event_of_def free_ptr_def)
  have "reach (event_start seq_lists) (event_step seq_lists) m0"
    using m0(1) by (rule reach_init)
  note r1 = demo_sub_step [OF this m0(3), of "0x42" 1]
  have h1: "demo_sub 5 0x42 1 m0 = m0\<lparr> em_subs := [5 \<mapsto> \<lparr> sn_name = [0x41], sn_desc = [0x42], sn_type = 0, sn_cb = 1 \<rparr>],
      em_links := (\<lambda>_. [])(Free_root := [5]) \<rparr>"
    by (auto simp: demo_sub_def m0_def event_mgr0_def tal_event_init_def tal_event_subscribe_def event_name_is_valid_def
        event_desc_is_valid_def event_node_get_def seq_lists_def event_node_add_free_subscribe_def event_node_get_free_subscribe_def)
  have f: "free_ptr (demo_sub 5 0x42 1 m0) 6"
    unfolding h1 by (simp add: free_ptr_def m0_def event_mgr0_def tal_event_init_def)
  note r2 = demo_sub_step [OF r1(1) f, of "0x43" 2]
  show "reach (event_start seq_lists) (event_step seq_lists) event_demo"
    using r2(1) by (simp add: event_demo_def m0_def)
  show "event_view seq_lists event_demo [0x41] =
     [\<lparr> sn_name = [0x41], sn_desc = [0x42], sn_type = 0, sn_cb = 1 \<rparr>, \<lparr> sn_name = [0x41], sn_desc = [0x43], sn_type = 0, sn_cb = 2 \<rparr>]"
    using r2(2) r1(2) m0(2) by (simp add: event_demo_def m0_def spec_subscribe_def sub_key_def place_def)
  show "free_ptr event_demo 7" "em_events event_demo = Map.empty" "em_subs event_demo 8 = None"
    unfolding event_demo_def m0_def [symmetric] h1
    by (simp_all add: demo_sub_def m0_def event_mgr0_def tal_event_init_def tal_event_subscribe_def event_name_is_valid_def
        event_desc_is_valid_def event_node_get_def seq_lists_def event_node_add_free_subscribe_def event_node_get_free_subscribe_def free_ptr_def)
qed


text \<open>
  C5: The event manager refines the abstract service.  In every reachable state, with memory for one more object, subscribing,
  unsubscribing and publishing succeed and change the subscriptions of every name exactly as the abstract operations do,
  whether or not the name has been published before; and publishing calls the subscribers of the name in their order.
\<close>

theorem event_refinement:
  assumes "list_laws ops" "reach (event_start ops) (event_step ops) m" "free_ptr m ptr"
    and "event_name_is_valid (Some n)" "event_desc_is_valid (Some d)"
  shows "(\<exists>m'. tal_event_subscribe ops ptr (Some n) (Some d) cb ty m = Some (OPRT_OK, m') \<and>
      event_view ops m' = (event_view ops m)(n := spec_subscribe \<lparr> sn_name = n, sn_desc = d, sn_type = ty, sn_cb = cb \<rparr> (event_view ops m n))) \<and>
    (\<exists>m'. tal_event_unsubscribe ops (Some n) (Some d) cb m = Some (OPRT_OK, m') \<and>
      event_view ops m' = (event_view ops m)(n := spec_unsubscribe (d, cb) (event_view ops m n))) \<and>
    (\<exists>m' rc. tal_event_publish ops cbs ptr (Some n) dat m = Some (rc, spec_calls (event_view ops m n), m') \<and>
      event_view ops m' = (event_view ops m)(n := spec_published (event_view ops m n)))"
proof -
  have ok: "list_laws ops \<and> event_inv ops m"
    using ev.reach_inv [OF assms(2)] assms(1) by blast
  show ?thesis
    using evs.subscribe_law [OF ok assms(3-5), of cb ty] evs.unsubscribe_law [OF ok assms(4,5), of cb]
      evs.publish_law [OF ok assms(3,4), of cbs dat] by blast
qed

theorem event_refinement_witness:
  "reach (event_start seq_lists) (event_step seq_lists) event_demo \<and>
   (\<exists>m' rc. tal_event_publish seq_lists (\<lambda>cb _. 0) 7 (Some [0x41]) () event_demo = Some (rc, [1, 2], m'))"
  using event_refinement [OF seq_lists_laws event_demo(1,3), of "[0x41]" "[0x42]" 1 0 "\<lambda>cb _. 0" "()"] event_demo(1)
  by (auto simp: event_name_is_valid_def event_desc_is_valid_def event_demo(2) spec_calls_def)

text \<open>
  C36: Order of service.  After a new subscription of a name, the next publication of the name calls its callback before all
  others if it is an emergency one and after all others otherwise.
\<close>

theorem event_served_in_order:
  assumes "list_laws ops" "reach (event_start ops) (event_step ops) m" "free_ptr m p"
    and "event_name_is_valid (Some n)" "event_desc_is_valid (Some d)" "cb \<noteq> 0" "(d, cb) \<notin> sub_key ` set (event_view ops m n)"
    and "tal_event_subscribe ops p (Some n) (Some d) cb ty m = Some (rc, m1)" "free_ptr m1 q"
  shows "\<exists>rc' m2. tal_event_publish ops cbs q (Some n) dat m1 =
    Some (rc', if ty = SUBSCRIBE_TYPE_EMERGENCY then cb # spec_calls (event_view ops m n) else spec_calls (event_view ops m n) @ [cb], m2)"
proof -
  have ok: "list_laws ops \<and> event_inv ops m"
    using ev.reach_inv [OF assms(2)] assms(1) by blast
  show ?thesis
    by (rule evs.served_in_order [OF ok assms(3-9)])
qed

theorem event_served_in_order_witness:
  "\<exists>m1 rc' m2. tal_event_subscribe seq_lists 7 (Some [0x41]) (Some [0x44]) 3 1 event_demo = Some (0, m1) \<and>
     tal_event_publish seq_lists (\<lambda>cb _. 0) 8 (Some [0x41]) () m1 = Some (rc', [3, 1, 2], m2)"
proof -
  have inv: "event_inv seq_lists event_demo"
    using ev.reach_inv [OF event_demo(1)] seq_lists_laws by blast
  have v: "event_name_is_valid (Some [0x41])" "event_desc_is_valid (Some [0x44])"
    by (simp_all add: event_name_is_valid_def event_desc_is_valid_def)
  obtain m1 where m1: "tal_event_subscribe seq_lists 7 (Some [0x41]) (Some [0x44]) 3 1 event_demo = Some (0, m1)"
    using subscribe_ok [OF seq_lists_laws inv event_demo(3) v] by blast
  have "free_ptr m1 8"
    using m1 event_demo(4,5) event_node_get_ok [OF inv] eventD(1) [OF inv]
    by (auto simp: free_ptr_def tal_event_subscribe_def v Let_def bind_eq_Some_conv event_node_add_free_subscribe_def
        event_node_add_subscribe_def split: option.splits if_splits)
  from event_served_in_order [OF seq_lists_laws event_demo(1,3) v _ _ m1 this, of "\<lambda>cb _. 0" "()"] m1
  show ?thesis
    by (auto simp: event_demo(2) sub_key_def spec_calls_def)
qed



end
