(* ===== verification/WorkQueue.thy ===== *)
theory WorkQueue
  imports SwTimer
begin

text \<open>
  Work queues, \<^verbatim>\<open>src/src/tal_system/src/tal_workqueue.c\<close> and \<^verbatim>\<open>tal_workq_service.c\<close>.  A work queue is a bounded queue
  of callbacks, a counting semaphore and a thread that serves them.  The queue (\<^verbatim>\<open>tuya_queue.h\<close>) and the semaphore come
  with the platform and are parameters: \<open>queue_laws\<close> and \<open>sem_laws\<close> are what the code relies on.  Callbacks and data
  are addresses, \<open>0\<close> is \<^verbatim>\<open>NULL\<close>.
\<close>

section \<open>Platform\<close>

record work_item =
  wi_cb :: nat
  wi_data :: nat

record 'q queue_ops =
  qo_items :: "'q \<Rightarrow> work_item list"
  qo_cap :: "'q \<Rightarrow> nat"
  qo_input :: "work_item \<Rightarrow> 'q \<Rightarrow> operate_ret \<times> 'q"
  qo_input_instant :: "work_item \<Rightarrow> 'q \<Rightarrow> operate_ret \<times> 'q"
  qo_output :: "'q \<Rightarrow> operate_ret \<times> work_item option \<times> 'q"
  qo_traverse :: "(work_item \<Rightarrow> bool \<times> work_item) \<Rightarrow> 'q \<Rightarrow> operate_ret \<times> 'q"
  qo_used_num :: "'q \<Rightarrow> u16"
  so_post :: "nat \<Rightarrow> nat \<Rightarrow> operate_ret \<times> nat"

text \<open>
  The queue keeps its items in order up to its capacity; a walk whose callback never stops changes every item in place;
  and a semaphore below its maximum counts a post.
\<close>

definition queue_accepts :: "'q queue_ops \<Rightarrow> (work_item \<Rightarrow> 'q \<Rightarrow> operate_ret \<times> 'q) \<Rightarrow> (work_item \<Rightarrow> work_item list \<Rightarrow> work_item list) \<Rightarrow> bool" where
  "queue_accepts ops inp place \<longleftrightarrow> (\<forall>q x. if length (qo_items ops q) < qo_cap ops q
     then (\<exists>q'. inp x q = (OPRT_OK, q') \<and> qo_items ops q' = place x (qo_items ops q) \<and> qo_cap ops q' = qo_cap ops q)
     else fst (inp x q) \<noteq> OPRT_OK \<and> snd (inp x q) = q)"

definition queue_serves :: "'q queue_ops \<Rightarrow> bool" where
  "queue_serves ops \<longleftrightarrow> (\<forall>q. case qo_items ops q of
     [] \<Rightarrow> fst (qo_output ops q) \<noteq> OPRT_OK \<and> snd (snd (qo_output ops q)) = q
   | x # xs \<Rightarrow> \<exists>q'. qo_output ops q = (OPRT_OK, Some x, q') \<and> qo_items ops q' = xs \<and> qo_cap ops q' = qo_cap ops q)"

definition queue_walks :: "'q queue_ops \<Rightarrow> bool" where
  "queue_walks ops \<longleftrightarrow> (\<forall>q f. (\<forall>x. fst (f x)) \<longrightarrow>
     (\<exists>q'. qo_traverse ops f q = (OPRT_OK, q') \<and> qo_items ops q' = map (snd \<circ> f) (qo_items ops q) \<and> qo_cap ops q' = qo_cap ops q))"

definition queue_laws :: "'q queue_ops \<Rightarrow> bool" where
  "queue_laws ops \<longleftrightarrow> queue_accepts ops (qo_input ops) (\<lambda>x xs. xs @ [x]) \<and> queue_accepts ops (qo_input_instant ops) (#) \<and>
     queue_serves ops \<and> queue_walks ops \<and> (\<forall>q. qo_used_num ops q = of_nat (length (qo_items ops q)))"

definition sem_laws :: "'q queue_ops \<Rightarrow> bool" where
  "sem_laws ops \<longleftrightarrow> (\<forall>mx c. c < mx \<longrightarrow> so_post ops mx c = (OPRT_OK, Suc c))"

section \<open>Operations\<close>

record 'q workqueue =
  wq_queue :: 'q
  wq_sem :: nat
  wq_sem_max :: nat
  wq_last_cb :: nat

text \<open>
  \<open>None\<close> as the queue is a \<^verbatim>\<open>NULL\<close> handle.  The arguments of the creation are the results of the platform: the
  allocation, the new queue, the semaphore and the thread.
\<close>

definition tal_workqueue_create ::
  "bool \<Rightarrow> operate_ret \<times> 'q \<Rightarrow> operate_ret \<Rightarrow> operate_ret \<Rightarrow> u16 \<Rightarrow> bool \<Rightarrow> bool \<Rightarrow> operate_ret \<times> 'q workqueue option" where
  "tal_workqueue_create alloc queue sem thread queue_len cfg handle =
     (if queue_len = 0 \<or> \<not> cfg \<or> \<not> handle then (OPRT_INVALID_PARM, None)
      else if \<not> alloc then (OPRT_MALLOC_FAILED, None)
      else if fst queue \<noteq> OPRT_OK then (fst queue, None)
      else if sem \<noteq> OPRT_OK then (sem, None)
      else if thread \<noteq> OPRT_OK then (thread, None)
      else (thread, Some \<lparr> wq_queue = snd queue, wq_sem = 0, wq_sem_max = unat queue_len, wq_last_cb = 0 \<rparr>))"

definition sem_post_wq :: "'q queue_ops \<Rightarrow> operate_ret \<times> 'q \<Rightarrow> 'q workqueue \<Rightarrow> operate_ret \<times> 'q workqueue" where
  "sem_post_wq ops r wq =
     (let wq = wq\<lparr> wq_queue := snd r \<rparr> in
      if fst r = OPRT_OK then (let (rc, c) = so_post ops (wq_sem_max wq) (wq_sem wq) in (rc, wq\<lparr> wq_sem := c \<rparr>)) else (fst r, wq))"

definition tal_workqueue_schedule :: "'q queue_ops \<Rightarrow> nat \<Rightarrow> nat \<Rightarrow> 'q workqueue option \<Rightarrow> operate_ret \<times> 'q workqueue option" where
  "tal_workqueue_schedule ops cb dat handle =
     (case handle of None \<Rightarrow> (OPRT_INVALID_PARM, None)
      | Some wq \<Rightarrow>
        if cb = 0 then (OPRT_INVALID_PARM, Some wq)
        else map_prod id Some (sem_post_wq ops (qo_input ops \<lparr> wi_cb = cb, wi_data = dat \<rparr> (wq_queue wq)) wq))"

definition tal_workqueue_schedule_instant :: "'q queue_ops \<Rightarrow> nat \<Rightarrow> nat \<Rightarrow> 'q workqueue option \<Rightarrow> operate_ret \<times> 'q workqueue option" where
  "tal_workqueue_schedule_instant ops cb dat handle =
     (case handle of None \<Rightarrow> (OPRT_INVALID_PARM, None)
      | Some wq \<Rightarrow>
        if cb = 0 then (OPRT_INVALID_PARM, Some wq)
        else map_prod id Some (sem_post_wq ops (qo_input_instant ops \<lparr> wi_cb = cb, wi_data = dat \<rparr> (wq_queue wq)) wq))"

definition work_cancel_traverse :: "work_item \<Rightarrow> work_item \<Rightarrow> bool \<times> work_item" where
  "work_cancel_traverse dst src =
     (let is_same = (wi_cb dst \<noteq> 0 \<and> wi_cb dst = wi_cb src) \<or> (wi_data dst \<noteq> 0 \<and> wi_data dst = wi_data src)
      in (True, if is_same then src\<lparr> wi_cb := 0 \<rparr> else src))"

definition tal_workqueue_cancel :: "'q queue_ops \<Rightarrow> nat \<Rightarrow> nat \<Rightarrow> 'q workqueue option \<Rightarrow> operate_ret \<times> 'q workqueue option" where
  "tal_workqueue_cancel ops cb dat handle =
     (case handle of None \<Rightarrow> (OPRT_INVALID_PARM, None)
      | Some wq \<Rightarrow>
        if cb = 0 \<and> dat = 0 then (OPRT_INVALID_PARM, Some wq)
        else (let (rc, q) = qo_traverse ops (work_cancel_traverse \<lparr> wi_cb = cb, wi_data = dat \<rparr>) (wq_queue wq)
              in (rc, Some (wq\<lparr> wq_queue := q \<rparr>))))"

definition tal_workqueue_traverse ::
  "'q queue_ops \<Rightarrow> (work_item \<Rightarrow> bool \<times> work_item) option \<Rightarrow> 'q workqueue option \<Rightarrow> operate_ret \<times> 'q workqueue option" where
  "tal_workqueue_traverse ops cb handle =
     (case (handle, cb) of
        (Some wq, Some f) \<Rightarrow> (let (rc, q) = qo_traverse ops f (wq_queue wq) in (rc, Some (wq\<lparr> wq_queue := q \<rparr>)))
      | _ \<Rightarrow> (OPRT_INVALID_PARM, handle))"

definition tal_workqueue_get_num :: "'q queue_ops \<Rightarrow> 'q workqueue option \<Rightarrow> u16" where
  "tal_workqueue_get_num ops handle =
     (case handle of None \<Rightarrow> of_int OPRT_INVALID_PARM | Some wq \<Rightarrow> qo_used_num ops (wq_queue wq))"

text \<open>
  The release asks the thread to end and posts the semaphore, so that the thread wakes up.  \<open>deleted wq k\<close> is whether
  the thread, with the queue in that state, has ended at the \<open>k\<close>-th look; \<open>fuel\<close> bounds the number of looks.
\<close>

fun wait_deleted :: "nat \<Rightarrow> (nat \<Rightarrow> bool) \<Rightarrow> nat \<Rightarrow> nat option" where
  "wait_deleted 0 deleted k = None"
| "wait_deleted (Suc fuel) deleted k = (if deleted k then Some k else wait_deleted fuel deleted (Suc k))"

definition tal_workqueue_release ::
  "nat \<Rightarrow> 'q queue_ops \<Rightarrow> operate_ret \<Rightarrow> ('q workqueue \<Rightarrow> nat \<Rightarrow> bool) \<Rightarrow> 'q workqueue option \<Rightarrow> (operate_ret \<times> 'q workqueue option) option" where
  "tal_workqueue_release fuel ops thread_delete deleted handle =
     (case handle of None \<Rightarrow> Some (OPRT_INVALID_PARM, None)
      | Some wq \<Rightarrow>
        if thread_delete \<noteq> OPRT_OK then Some (thread_delete, Some wq)
        else do {
          _ \<leftarrow> wait_deleted fuel (deleted (wq\<lparr> wq_sem := snd (so_post ops (wq_sem_max wq) (wq_sem wq)) \<rparr>)) 0;
          Some (OPRT_OK, None) })"

text \<open>
  The actions of a round of the thread: take a unit of the semaphore (\<open>None\<close> while there is none), fetch an item, and
  call its callback, which is noted while it runs.
\<close>

definition work_wait :: "'q workqueue \<Rightarrow> 'q workqueue option" where
  "work_wait wq = (if wq_sem wq = 0 then None else Some (wq\<lparr> wq_sem := wq_sem wq - 1 \<rparr>))"

definition work_fetch :: "'q queue_ops \<Rightarrow> 'q workqueue \<Rightarrow> work_item option \<times> 'q workqueue" where
  "work_fetch ops wq =
     (let (rc, item, q) = qo_output ops (wq_queue wq); wq = wq\<lparr> wq_queue := q \<rparr>
      in (if rc = OPRT_OK then item else None, wq))"

definition work_begin :: "work_item \<Rightarrow> 'q workqueue \<Rightarrow> work_item list \<times> 'q workqueue" where
  "work_begin item wq = (if wi_cb item \<noteq> 0 then ([item], wq\<lparr> wq_last_cb := wi_cb item \<rparr>) else ([], wq))"

definition work_end :: "work_item \<Rightarrow> 'q workqueue \<Rightarrow> 'q workqueue" where
  "work_end item wq = (if wi_cb item \<noteq> 0 then wq\<lparr> wq_last_cb := 0 \<rparr> else wq)"

text \<open>
  At most \<open>n\<close> rounds of the thread, as long as it finds the semaphore free, with callbacks that leave the queue alone;
  the result is the calls it makes.
\<close>

fun work_thread :: "nat \<Rightarrow> 'q queue_ops \<Rightarrow> 'q workqueue \<Rightarrow> work_item list \<times> 'q workqueue" where
  "work_thread 0 ops wq = ([], wq)"
| "work_thread (Suc n) ops wq =
     (case work_wait wq of None \<Rightarrow> ([], wq)
      | Some wq \<Rightarrow>
        (case work_fetch ops wq of
           (None, wq) \<Rightarrow> work_thread n ops wq
         | (Some item, wq) \<Rightarrow>
             (let (call, wq) = work_begin item wq; (calls, wq) = work_thread n ops (work_end item wq) in (call @ calls, wq))))"

section \<open>The service and delayed work\<close>

text \<open>
  \<^verbatim>\<open>tal_workq_service.c\<close> keeps two queues.  A delayed work is an object with a timer of theory \<open>SwTimer\<close>, whose callback
  \<open>DELAYED_WORK_CB\<close> puts the work into its queue; its argument is the address of the object.
\<close>

datatype workq_service = WORKQ_SYSTEM | WORKQ_HIGHTPRI

record delayed_work =
  dw_timer :: nat
  dw_cb :: nat
  dw_data :: nat
  dw_handle :: workq_service

record ('q, 'h) workq =
  ws_queue :: "workq_service \<Rightarrow> 'q workqueue option"
  ws_timers :: "'h timer_mgr"
  ws_delayed :: "nat \<rightharpoonup> delayed_work"

text \<open>The address of \<^verbatim>\<open>__delayed_work_cb\<close>, any but \<^verbatim>\<open>NULL\<close>.\<close>

abbreviation (input) DELAYED_WORK_CB :: nat where "DELAYED_WORK_CB \<equiv> 7"

abbreviation (input) MAX_NODE_NUM_WORK_QUEUE :: u16 where "MAX_NODE_NUM_WORK_QUEUE \<equiv> 100"
abbreviation (input) MAX_NODE_NUM_MSG_QUEUE :: u16 where "MAX_NODE_NUM_MSG_QUEUE \<equiv> 100"

text \<open>\<open>sys\<close> and \<open>hi\<close> are what the platform answers while a queue is created; a queue created before an error is released.\<close>

definition tal_workq_init ::
  "bool \<times> (operate_ret \<times> 'q) \<times> operate_ret \<times> operate_ret \<Rightarrow> bool \<times> (operate_ret \<times> 'q) \<times> operate_ret \<times> operate_ret \<Rightarrow>
     ('q, 'h) workq \<Rightarrow> operate_ret \<times> ('q, 'h) workq" where
  "tal_workq_init sys hi ws =
     (if ws_queue ws WORKQ_SYSTEM \<noteq> None then (OPRT_OK, ws)
      else
        (let (a, q, s, t) = sys; (rt, h) = tal_workqueue_create a q s t MAX_NODE_NUM_WORK_QUEUE True True in
         if rt \<noteq> OPRT_OK then (rt, ws\<lparr> ws_queue := (\<lambda>_. None) \<rparr>)
         else
           (let (a, q, s, t) = hi; (rt, h') = tal_workqueue_create a q s t MAX_NODE_NUM_MSG_QUEUE True True in
            if rt \<noteq> OPRT_OK then (rt, ws\<lparr> ws_queue := (\<lambda>_. None) \<rparr>)
            else (OPRT_OK, ws\<lparr> ws_queue := (ws_queue ws)(WORKQ_SYSTEM := h, WORKQ_HIGHTPRI := h') \<rparr>))))"

definition tal_workq_get_handle :: "workq_service \<Rightarrow> ('q, 'h) workq \<Rightarrow> 'q workqueue option" where
  "tal_workq_get_handle service ws = ws_queue ws service"

definition on_queue ::
  "workq_service \<Rightarrow> ('q workqueue option \<Rightarrow> operate_ret \<times> 'q workqueue option) \<Rightarrow> ('q, 'h) workq \<Rightarrow> operate_ret \<times> ('q, 'h) workq" where
  "on_queue service f ws =
     (let (rc, h) = f (tal_workq_get_handle service ws) in (rc, ws\<lparr> ws_queue := (ws_queue ws)(service := h) \<rparr>))"

definition tal_workq_schedule :: "'q queue_ops \<Rightarrow> workq_service \<Rightarrow> nat \<Rightarrow> nat \<Rightarrow> ('q, 'h) workq \<Rightarrow> operate_ret \<times> ('q, 'h) workq" where
  "tal_workq_schedule ops service cb dat = on_queue service (tal_workqueue_schedule ops cb dat)"

definition tal_workq_schedule_instant :: "'q queue_ops \<Rightarrow> workq_service \<Rightarrow> nat \<Rightarrow> nat \<Rightarrow> ('q, 'h) workq \<Rightarrow> operate_ret \<times> ('q, 'h) workq" where
  "tal_workq_schedule_instant ops service cb dat = on_queue service (tal_workqueue_schedule_instant ops cb dat)"

definition tal_workq_cancel :: "'q queue_ops \<Rightarrow> workq_service \<Rightarrow> nat \<Rightarrow> nat \<Rightarrow> ('q, 'h) workq \<Rightarrow> operate_ret \<times> ('q, 'h) workq" where
  "tal_workq_cancel ops service cb dat = on_queue service (tal_workqueue_cancel ops cb dat)"

definition tal_workq_get_num :: "'q queue_ops \<Rightarrow> workq_service \<Rightarrow> ('q, 'h) workq \<Rightarrow> u16" where
  "tal_workq_get_num ops service ws = tal_workqueue_get_num ops (tal_workq_get_handle service ws)"

definition delayed_work_cb :: "'q queue_ops \<Rightarrow> nat \<Rightarrow> ('q, 'h) workq \<Rightarrow> ('q, 'h) workq option" where
  "delayed_work_cb ops arg ws = do {
     d \<leftarrow> ws_delayed ws arg;
     Some (snd (tal_workq_schedule ops (dw_handle d) (dw_cb d) (dw_data d) ws)) }"

text \<open>\<open>ptr\<close> and \<open>tptr\<close> are the results of the allocations of the object and of its timer.\<close>

definition tal_workqueue_init_delayed ::
  "('h, 'p) timer_lists \<Rightarrow> nat \<Rightarrow> nat \<Rightarrow> workq_service \<Rightarrow> nat \<Rightarrow> nat \<Rightarrow> bool \<Rightarrow> ('q, 'h) workq \<Rightarrow> operate_ret \<times> nat option \<times> ('q, 'h) workq" where
  "tal_workqueue_init_delayed lops ptr tptr service cb dat want ws =
     (if tal_workq_get_handle service ws = None \<or> \<not> want then (OPRT_INVALID_PARM, None, ws)
      else if ptr = 0 then (OPRT_MALLOC_FAILED, None, ws)
      else
        (let (rc, tid, m) = tal_sw_timer_create lops DELAYED_WORK_CB ptr True tptr (ws_timers ws); ws = ws\<lparr> ws_timers := m \<rparr> in
         case tid of
           None \<Rightarrow> (OPRT_COM_ERROR, None, ws)
         | Some x \<Rightarrow> (OPRT_OK, Some ptr, ws\<lparr> ws_delayed := (ws_delayed ws)(ptr \<mapsto>
             \<lparr> dw_timer = x, dw_cb = cb, dw_data = dat, dw_handle = service \<rparr>) \<rparr>)))"

definition tal_workqueue_start_delayed ::
  "('h, 'p) timer_lists \<Rightarrow> ms_clock \<Rightarrow> nat \<Rightarrow> u32 \<Rightarrow> timer_type \<Rightarrow> ('q, 'h) workq \<Rightarrow> (operate_ret \<times> ('q, 'h) workq) option" where
  "tal_workqueue_start_delayed lops clk p interval ty ws =
     (if p = 0 then Some (OPRT_INVALID_PARM, ws)
      else do {
        d \<leftarrow> ws_delayed ws p;
        (rc, m) \<leftarrow> tal_sw_timer_start lops clk (dw_timer d) interval ty (ws_timers ws);
        Some (rc, ws\<lparr> ws_timers := m \<rparr>) })"

definition tal_workqueue_stop_delayed :: "('h, 'p) timer_lists \<Rightarrow> nat \<Rightarrow> ('q, 'h) workq \<Rightarrow> (operate_ret \<times> ('q, 'h) workq) option" where
  "tal_workqueue_stop_delayed lops p ws =
     (if p = 0 then Some (OPRT_INVALID_PARM, ws)
      else do {
        d \<leftarrow> ws_delayed ws p;
        (rc, m) \<leftarrow> tal_sw_timer_stop lops (dw_timer d) (ws_timers ws);
        Some (rc, ws\<lparr> ws_timers := m \<rparr>) })"

definition tal_workqueue_cancel_delayed ::
  "'q queue_ops \<Rightarrow> ('h, 'p) timer_lists \<Rightarrow> nat \<Rightarrow> ('q, 'h) workq \<Rightarrow> (operate_ret \<times> ('q, 'h) workq) option" where
  "tal_workqueue_cancel_delayed ops lops p ws =
     (if p = 0 then Some (OPRT_INVALID_PARM, ws)
      else do {
        d \<leftarrow> ws_delayed ws p;
        (rc, m) \<leftarrow> tal_sw_timer_delete lops (dw_timer d) (ws_timers ws);
        (let ws = snd (tal_workq_cancel ops (dw_handle d) (dw_cb d) (dw_data d) (ws\<lparr> ws_timers := m \<rparr>))
         in Some (OPRT_OK, ws\<lparr> ws_delayed := (ws_delayed ws)(p := None) \<rparr>)) })"

definition tal_workq_init_delayed ::
  "('h, 'p) timer_lists \<Rightarrow> nat \<Rightarrow> nat \<Rightarrow> workq_service \<Rightarrow> nat \<Rightarrow> nat \<Rightarrow> bool \<Rightarrow> ('q, 'h) workq \<Rightarrow> operate_ret \<times> nat option \<times> ('q, 'h) workq" where
  "tal_workq_init_delayed lops ptr tptr service cb dat want ws = tal_workqueue_init_delayed lops ptr tptr service cb dat want ws"

definition tal_workq_start_delayed ::
  "('h, 'p) timer_lists \<Rightarrow> ms_clock \<Rightarrow> nat \<Rightarrow> u32 \<Rightarrow> timer_type \<Rightarrow> ('q, 'h) workq \<Rightarrow> (operate_ret \<times> ('q, 'h) workq) option" where
  "tal_workq_start_delayed lops clk p interval ty ws = tal_workqueue_start_delayed lops clk p interval ty ws"

definition tal_workq_stop_delayed :: "('h, 'p) timer_lists \<Rightarrow> nat \<Rightarrow> ('q, 'h) workq \<Rightarrow> (operate_ret \<times> ('q, 'h) workq) option" where
  "tal_workq_stop_delayed lops p ws = tal_workqueue_stop_delayed lops p ws"

definition tal_workq_cancel_delayed ::
  "'q queue_ops \<Rightarrow> ('h, 'p) timer_lists \<Rightarrow> nat \<Rightarrow> ('q, 'h) workq \<Rightarrow> (operate_ret \<times> ('q, 'h) workq) option" where
  "tal_workq_cancel_delayed ops lops p ws = tal_workqueue_cancel_delayed ops lops p ws"

text \<open>The calls of a dispatch of the timers, in their order; other callbacks do not concern the queues.\<close>

fun run_calls :: "'q queue_ops \<Rightarrow> (nat \<times> nat \<times> nat) list \<Rightarrow> ('q, 'h) workq \<Rightarrow> ('q, 'h) workq option" where
  "run_calls ops [] ws = Some ws"
| "run_calls ops ((cb, tid, arg) # calls) ws =
     (if cb = DELAYED_WORK_CB then do { ws \<leftarrow> delayed_work_cb ops arg ws; run_calls ops calls ws } else run_calls ops calls ws)"

section \<open>Queues in operation\<close>

text \<open>
  With \<open>k\<close> units of the semaphore in the hands of the thread, the units count the items; the semaphore is made for as
  many as the queue can hold.
\<close>

definition wq_ok :: "'q queue_ops \<Rightarrow> nat \<Rightarrow> 'q workqueue \<Rightarrow> bool" where
  "wq_ok ops k wq \<longleftrightarrow> qo_cap ops (wq_queue wq) = wq_sem_max wq \<and> length (qo_items ops (wq_queue wq)) \<le> wq_sem_max wq \<and>
     wq_sem wq + k = length (qo_items ops (wq_queue wq))"

lemma wq_ok_last_cb [simp]: "wq_ok ops k (wq\<lparr> wq_last_cb := c \<rparr>) = wq_ok ops k wq"
  unfolding wq_ok_def by simp

lemma accepts_room:
  assumes "queue_accepts ops inp place" "length (qo_items ops q) < qo_cap ops q"
  obtains q' where "inp x q = (OPRT_OK, q')" "qo_items ops q' = place x (qo_items ops q)" "qo_cap ops q' = qo_cap ops q"
proof -
  have "if length (qo_items ops q) < qo_cap ops q
     then (\<exists>q'. inp x q = (OPRT_OK, q') \<and> qo_items ops q' = place x (qo_items ops q) \<and> qo_cap ops q' = qo_cap ops q)
     else fst (inp x q) \<noteq> OPRT_OK \<and> snd (inp x q) = q"
    using assms(1) unfolding queue_accepts_def by blast
  with assms(2) show ?thesis
    by (auto intro: that)
qed

lemma accepts_full:
  assumes "queue_accepts ops inp place" "\<not> length (qo_items ops q) < qo_cap ops q"
  shows "fst (inp x q) \<noteq> OPRT_OK" "snd (inp x q) = q"
proof -
  have "if length (qo_items ops q) < qo_cap ops q
     then (\<exists>q'. inp x q = (OPRT_OK, q') \<and> qo_items ops q' = place x (qo_items ops q) \<and> qo_cap ops q' = qo_cap ops q)
     else fst (inp x q) \<noteq> OPRT_OK \<and> snd (inp x q) = q"
    using assms(1) unfolding queue_accepts_def by blast
  with assms(2) show "fst (inp x q) \<noteq> OPRT_OK" "snd (inp x q) = q"
    by simp_all
qed

text \<open>Both ways to schedule: below the capacity the item is placed and the semaphore counts it, otherwise nothing changes.\<close>

lemma sem_post_wq:
  assumes acc: "queue_accepts ops inp place" and len: "\<And>x xs. length (place x xs) = Suc (length xs)"
    and sem: "sem_laws ops" and ok: "wq_ok ops k wq"
  shows "if length (qo_items ops (wq_queue wq)) < wq_sem_max wq
    then (\<exists>wq'. sem_post_wq ops (inp x (wq_queue wq)) wq = (OPRT_OK, wq') \<and> wq_ok ops k wq' \<and>
      qo_items ops (wq_queue wq') = place x (qo_items ops (wq_queue wq)) \<and> wq_last_cb wq' = wq_last_cb wq \<and> wq_sem_max wq' = wq_sem_max wq)
    else fst (sem_post_wq ops (inp x (wq_queue wq)) wq) \<noteq> OPRT_OK \<and> snd (sem_post_wq ops (inp x (wq_queue wq)) wq) = wq"
proof (cases "length (qo_items ops (wq_queue wq)) < qo_cap ops (wq_queue wq)")
  case True
  obtain q' where q': "inp x (wq_queue wq) = (OPRT_OK, q')" "qo_items ops q' = place x (qo_items ops (wq_queue wq))"
    "qo_cap ops q' = qo_cap ops (wq_queue wq)"
    by (rule accepts_room [OF acc True])
  have "wq_sem wq < wq_sem_max wq"
    using ok True unfolding wq_ok_def by linarith
  with sem have "so_post ops (wq_sem_max wq) (wq_sem wq) = (OPRT_OK, Suc (wq_sem wq))"
    unfolding sem_laws_def by blast
  then show ?thesis
    using q' ok True by (simp add: sem_post_wq_def wq_ok_def len)
next
  case False
  have "sem_post_wq ops (inp x (wq_queue wq)) wq = (fst (inp x (wq_queue wq)), wq)"
    using accepts_full [OF acc False, of x] by (simp add: sem_post_wq_def Let_def)
  then show ?thesis
    using accepts_full [OF acc False, of x] ok False by (simp add: wq_ok_def)
qed

lemma schedule_ok:
  assumes "queue_laws ops" "sem_laws ops" "wq_ok ops k wq" "cb \<noteq> 0"
  shows "if length (qo_items ops (wq_queue wq)) < wq_sem_max wq
    then (\<exists>wq'. tal_workqueue_schedule ops cb dat (Some wq) = (OPRT_OK, Some wq') \<and> wq_ok ops k wq' \<and>
      qo_items ops (wq_queue wq') = qo_items ops (wq_queue wq) @ [\<lparr> wi_cb = cb, wi_data = dat \<rparr>] \<and> wq_last_cb wq' = wq_last_cb wq \<and> wq_sem_max wq' = wq_sem_max wq)
    else fst (tal_workqueue_schedule ops cb dat (Some wq)) \<noteq> OPRT_OK \<and> snd (tal_workqueue_schedule ops cb dat (Some wq)) = Some wq"
  using sem_post_wq [OF _ _ assms(2,3), of "qo_input ops" "\<lambda>x xs. xs @ [x]" "\<lparr> wi_cb = cb, wi_data = dat \<rparr>"] assms(1,4)
  by (auto simp: tal_workqueue_schedule_def queue_laws_def split: if_splits)

lemma schedule_instant_ok:
  assumes "queue_laws ops" "sem_laws ops" "wq_ok ops k wq" "cb \<noteq> 0"
  shows "if length (qo_items ops (wq_queue wq)) < wq_sem_max wq
    then (\<exists>wq'. tal_workqueue_schedule_instant ops cb dat (Some wq) = (OPRT_OK, Some wq') \<and> wq_ok ops k wq' \<and>
      qo_items ops (wq_queue wq') = \<lparr> wi_cb = cb, wi_data = dat \<rparr> # qo_items ops (wq_queue wq) \<and> wq_last_cb wq' = wq_last_cb wq \<and> wq_sem_max wq' = wq_sem_max wq)
    else fst (tal_workqueue_schedule_instant ops cb dat (Some wq)) \<noteq> OPRT_OK \<and> snd (tal_workqueue_schedule_instant ops cb dat (Some wq)) = Some wq"
  using sem_post_wq [OF _ _ assms(2,3), of "qo_input_instant ops" "(#)" "\<lparr> wi_cb = cb, wi_data = dat \<rparr>"] assms(1,4)
  by (auto simp: tal_workqueue_schedule_instant_def queue_laws_def split: if_splits)

definition cancels :: "nat \<Rightarrow> nat \<Rightarrow> work_item \<Rightarrow> bool" where
  "cancels cb dat i \<longleftrightarrow> cb \<noteq> 0 \<and> wi_cb i = cb \<or> dat \<noteq> 0 \<and> wi_data i = dat"

lemma cancel_ok:
  assumes "queue_laws ops" "cb \<noteq> 0 \<or> dat \<noteq> 0"
  obtains q' where "tal_workqueue_cancel ops cb dat (Some wq) = (OPRT_OK, Some (wq\<lparr> wq_queue := q' \<rparr>))"
    "qo_items ops q' = map (\<lambda>i. if cancels cb dat i then i\<lparr> wi_cb := 0 \<rparr> else i) (qo_items ops (wq_queue wq))"
    "qo_cap ops q' = qo_cap ops (wq_queue wq)"
proof -
  let ?f = "work_cancel_traverse \<lparr> wi_cb = cb, wi_data = dat \<rparr>"
  have f: "\<forall>x. fst (?f x)" "snd \<circ> ?f = (\<lambda>i. if cancels cb dat i then i\<lparr> wi_cb := 0 \<rparr> else i)"
    by (auto simp: work_cancel_traverse_def cancels_def)
  have "queue_walks ops"
    using assms(1) unfolding queue_laws_def by blast
  then obtain q' where "qo_traverse ops ?f (wq_queue wq) = (OPRT_OK, q')"
    "qo_items ops q' = map (snd \<circ> ?f) (qo_items ops (wq_queue wq))" "qo_cap ops q' = qo_cap ops (wq_queue wq)"
    using f(1) unfolding queue_walks_def by blast
  then show ?thesis
    using assms(2) f(2) by (intro that [of q']) (auto simp: tal_workqueue_cancel_def)
qed

lemma fetch_ok:
  assumes laws: "queue_laws ops" and ok: "wq_ok ops 1 wq"
  obtains i "is" q where "qo_items ops (wq_queue wq) = i # is" "work_fetch ops wq = (Some i, wq\<lparr> wq_queue := q \<rparr>)"
    "qo_items ops q = is" "wq_ok ops 0 (wq\<lparr> wq_queue := q \<rparr>)"
proof -
  obtain i "is" where i: "qo_items ops (wq_queue wq) = i # is"
    using ok by (cases "qo_items ops (wq_queue wq)") (auto simp: wq_ok_def)
  have "case qo_items ops (wq_queue wq) of
     [] \<Rightarrow> fst (qo_output ops (wq_queue wq)) \<noteq> OPRT_OK \<and> snd (snd (qo_output ops (wq_queue wq))) = wq_queue wq
   | x # xs \<Rightarrow> \<exists>q'. qo_output ops (wq_queue wq) = (OPRT_OK, Some x, q') \<and> qo_items ops q' = xs \<and> qo_cap ops q' = qo_cap ops (wq_queue wq)"
    using laws unfolding queue_laws_def queue_serves_def by blast
  then obtain q where "qo_output ops (wq_queue wq) = (OPRT_OK, Some i, q)" "qo_items ops q = is" "qo_cap ops q = qo_cap ops (wq_queue wq)"
    using i by auto
  then show ?thesis
    using i ok by (intro that [of i "is" q]) (auto simp: work_fetch_def wq_ok_def)
qed

lemma wait_ok: "wq_ok ops 0 wq \<Longrightarrow> work_wait wq = Some wq' \<Longrightarrow> wq_ok ops 1 wq' \<and> wq_queue wq' = wq_queue wq \<and> wq_last_cb wq' = wq_last_cb wq"
  unfolding work_wait_def wq_ok_def by (auto split: if_splits)

lemma drain:
  assumes laws: "queue_laws ops"
  shows "wq_ok ops 0 wq \<Longrightarrow> length (qo_items ops (wq_queue wq)) \<le> n \<Longrightarrow>
    \<exists>wq'. work_thread n ops wq = (filter (\<lambda>i. wi_cb i \<noteq> 0) (qo_items ops (wq_queue wq)), wq') \<and> wq_ok ops 0 wq' \<and> qo_items ops (wq_queue wq') = []"
proof (induction n arbitrary: wq)
  case (Suc n)
  show ?case
  proof (cases "work_wait wq")
    case None
    then show ?thesis
      using Suc.prems by (auto simp: work_wait_def wq_ok_def split: if_splits)
  next
    case (Some wq1)
    note w = wait_ok [OF Suc.prems(1) Some]
    from w obtain i "is" q where i: "qo_items ops (wq_queue wq1) = i # is" "work_fetch ops wq1 = (Some i, wq1\<lparr> wq_queue := q \<rparr>)"
      "qo_items ops q = is" "wq_ok ops 0 (wq1\<lparr> wq_queue := q \<rparr>)"
      using fetch_ok [OF laws] by blast
    let ?wq = "work_end i (snd (work_begin i (wq1\<lparr> wq_queue := q \<rparr>)))"
    have b: "fst (work_begin i (wq1\<lparr> wq_queue := q \<rparr>)) = (if wi_cb i \<noteq> 0 then [i] else [])"
      "wq_ok ops 0 ?wq" "wq_queue ?wq = q"
      using i(4) by (auto simp: work_begin_def work_end_def)
    have "length (qo_items ops (wq_queue ?wq)) \<le> n"
      using Suc.prems(2) w i(1,3) b(3) by simp
    then obtain wq' where "work_thread n ops ?wq = (filter (\<lambda>i. wi_cb i \<noteq> 0) is, wq')" "wq_ok ops 0 wq'" "qo_items ops (wq_queue wq') = []"
      using Suc.IH [OF b(2)] b(3) i(3) by auto
    then show ?thesis
      using Some i(1,2) b(1) w by (simp add: split_beta)
  qed
qed (auto simp: wq_ok_def)

section \<open>Interleaving\<close>

text \<open>
  The thread goes through its actions while other threads, or the running callback, schedule and cancel work.  The log
  is the ghost record of the calls.
\<close>

datatype worker = Worker_waiting | Worker_fetching | Worker_calling work_item

record 'q wq_run =
  wr_wq :: "'q workqueue"
  wr_worker :: worker
  wr_log :: "work_item list"

definition wq_start :: "'q queue_ops \<Rightarrow> 'q wq_run \<Rightarrow> bool" where
  "wq_start ops s \<longleftrightarrow> (\<exists>q len. tal_workqueue_create True (OPRT_OK, q) OPRT_OK OPRT_OK len True True = (OPRT_OK, Some (wr_wq s)) \<and>
     qo_items ops q = [] \<and> qo_cap ops q = unat len \<and> wr_worker s = Worker_waiting \<and> wr_log s = [])"

inductive wq_step :: "'q queue_ops \<Rightarrow> 'q wq_run \<Rightarrow> 'q wq_run \<Rightarrow> bool" for ops where
  wq_schedule: "tal_workqueue_schedule ops cb dat (Some (wr_wq s)) = (rc, Some wq) \<Longrightarrow> wq_step ops s (s\<lparr> wr_wq := wq \<rparr>)"
| wq_instant: "tal_workqueue_schedule_instant ops cb dat (Some (wr_wq s)) = (rc, Some wq) \<Longrightarrow> wq_step ops s (s\<lparr> wr_wq := wq \<rparr>)"
| wq_cancel: "tal_workqueue_cancel ops cb dat (Some (wr_wq s)) = (rc, Some wq) \<Longrightarrow> wq_step ops s (s\<lparr> wr_wq := wq \<rparr>)"
| wq_wait: "wr_worker s = Worker_waiting \<Longrightarrow> work_wait (wr_wq s) = Some wq \<Longrightarrow>
    wq_step ops s (s\<lparr> wr_wq := wq, wr_worker := Worker_fetching \<rparr>)"
| wq_fetch_fail: "wr_worker s = Worker_fetching \<Longrightarrow> work_fetch ops (wr_wq s) = (None, wq) \<Longrightarrow>
    wq_step ops s (s\<lparr> wr_wq := wq, wr_worker := Worker_waiting \<rparr>)"
| wq_fetch: "wr_worker s = Worker_fetching \<Longrightarrow> work_fetch ops (wr_wq s) = (Some i, wq) \<Longrightarrow> work_begin i wq = (calls, wq') \<Longrightarrow>
    wq_step ops s (s\<lparr> wr_wq := wq', wr_worker := Worker_calling i, wr_log := wr_log s @ calls \<rparr>)"
| wq_return: "wr_worker s = Worker_calling i \<Longrightarrow>
    wq_step ops s (s\<lparr> wr_wq := work_end i (wr_wq s), wr_worker := Worker_waiting \<rparr>)"

inductive_cases wq_stepE: "wq_step ops s s'"

definition running_cb :: "worker \<Rightarrow> nat" where
  "running_cb w = (case w of Worker_calling i \<Rightarrow> wi_cb i | _ \<Rightarrow> 0)"

definition units_held :: "worker \<Rightarrow> nat" where
  "units_held w = (case w of Worker_fetching \<Rightarrow> 1 | _ \<Rightarrow> 0)"

definition wq_inv :: "'q queue_ops \<Rightarrow> 'q wq_run \<Rightarrow> bool" where
  "wq_inv ops s \<longleftrightarrow> wq_ok ops (units_held (wr_worker s)) (wr_wq s) \<and> wq_last_cb (wr_wq s) = running_cb (wr_worker s) \<and>
     (\<forall>i \<in> set (wr_log s). wi_cb i \<noteq> 0)"

lemma inv_schedule:
  assumes laws: "queue_laws ops" "sem_laws ops" and inv: "wq_inv ops s"
    and op: "tal_workqueue_schedule ops cb dat (Some (wr_wq s)) = (rc, Some wq) \<or> tal_workqueue_schedule_instant ops cb dat (Some (wr_wq s)) = (rc, Some wq)"
  shows "wq_inv ops (s\<lparr> wr_wq := wq \<rparr>)"
proof (cases "cb = 0")
  case True
  then show ?thesis
    using op inv by (auto simp: tal_workqueue_schedule_def tal_workqueue_schedule_instant_def)
next
  case False
  have ok: "wq_ok ops (units_held (wr_worker s)) (wr_wq s)"
    using inv unfolding wq_inv_def by blast
  have "wq_ok ops (units_held (wr_worker s)) wq \<and> wq_last_cb wq = wq_last_cb (wr_wq s)"
    using op schedule_ok [OF laws ok False, of dat] schedule_instant_ok [OF laws ok False, of dat] ok by (auto split: if_splits)
  then show ?thesis
    using inv by (simp add: wq_inv_def)
qed

lemma inv_cancel:
  assumes laws: "queue_laws ops" and inv: "wq_inv ops s"
    and op: "tal_workqueue_cancel ops cb dat (Some (wr_wq s)) = (rc, Some wq)"
  shows "wq_inv ops (s\<lparr> wr_wq := wq \<rparr>)"
proof (cases "cb \<noteq> 0 \<or> dat \<noteq> 0")
  case True
  obtain q' where "tal_workqueue_cancel ops cb dat (Some (wr_wq s)) = (OPRT_OK, Some (wr_wq s\<lparr> wq_queue := q' \<rparr>))"
    "qo_items ops q' = map (\<lambda>i. if cancels cb dat i then i\<lparr> wi_cb := 0 \<rparr> else i) (qo_items ops (wq_queue (wr_wq s)))"
    "qo_cap ops q' = qo_cap ops (wq_queue (wr_wq s))"
    by (rule cancel_ok [OF laws True])
  then show ?thesis
    using op inv by (auto simp: wq_inv_def wq_ok_def)
next
  case False
  then show ?thesis
    using op inv by (auto simp: tal_workqueue_cancel_def)
qed

lemma inv_fetch:
  assumes laws: "queue_laws ops" and inv: "wq_inv ops s" and w: "wr_worker s = Worker_fetching"
  shows "\<exists>i wq. work_fetch ops (wr_wq s) = (Some i, wq) \<and> wq_ok ops 0 wq \<and> wq_last_cb wq = 0"
proof -
  have "wq_ok ops 1 (wr_wq s)" "wq_last_cb (wr_wq s) = 0"
    using inv w by (simp_all add: wq_inv_def units_held_def running_cb_def)
  then show ?thesis
    using fetch_ok [OF laws] by (metis workqueue.simps(4) workqueue.update_convs(1) workqueue.surjective)
qed

lemma inv_wait:
  assumes inv: "wq_inv ops s" and w: "wr_worker s = Worker_waiting" "work_wait (wr_wq s) = Some wq"
  shows "wq_inv ops (s\<lparr> wr_wq := wq, wr_worker := Worker_fetching \<rparr>)"
  using inv w wait_ok [of ops "wr_wq s" wq] by (simp add: wq_inv_def units_held_def running_cb_def)

lemma inv_begin:
  assumes laws: "queue_laws ops" and inv: "wq_inv ops s" and w: "wr_worker s = Worker_fetching"
    "work_fetch ops (wr_wq s) = (Some i, wq)" "work_begin i wq = (calls, wq')"
  shows "wq_inv ops (s\<lparr> wr_wq := wq', wr_worker := Worker_calling i, wr_log := wr_log s @ calls \<rparr>)"
  using inv_fetch [OF laws inv w(1)] inv w
  by (auto simp: wq_inv_def units_held_def running_cb_def work_begin_def split: if_splits)

lemma inv_return:
  assumes inv: "wq_inv ops s" and w: "wr_worker s = Worker_calling i"
  shows "wq_inv ops (s\<lparr> wr_wq := work_end i (wr_wq s), wr_worker := Worker_waiting \<rparr>)"
  using inv w by (auto simp: wq_inv_def units_held_def running_cb_def work_end_def)

interpretation wq: invariant_system "wq_start ops" "wq_step ops" "\<lambda>s. queue_laws ops \<and> sem_laws ops \<longrightarrow> wq_inv ops s" for ops
proof
  fix s
  show "wq_start ops s \<Longrightarrow> queue_laws ops \<and> sem_laws ops \<longrightarrow> wq_inv ops s"
    by (auto simp: wq_start_def tal_workqueue_create_def wq_inv_def wq_ok_def units_held_def running_cb_def dest!: sym [of _ "wr_wq s"] split: if_splits)
next
  fix s s'
  assume inv: "queue_laws ops \<and> sem_laws ops \<longrightarrow> wq_inv ops s" and step: "wq_step ops s s'"
  show "queue_laws ops \<and> sem_laws ops \<longrightarrow> wq_inv ops s'"
  proof
    assume laws: "queue_laws ops \<and> sem_laws ops"
    with inv have i: "wq_inv ops s" by blast
    from step show "wq_inv ops s'"
    proof cases
      case (wq_schedule cb dat rc wq)
      then show ?thesis
        using inv_schedule [OF _ _ i disjI1] laws by simp
    next
      case (wq_instant cb dat rc wq)
      then show ?thesis
        using inv_schedule [OF _ _ i disjI2] laws by simp
    next
      case (wq_cancel cb dat rc wq)
      then show ?thesis
        using inv_cancel [OF _ i] laws by simp
    next
      case (wq_wait wq)
      then show ?thesis
        using inv_wait [OF i] by simp
    next
      case (wq_fetch_fail wq)
      then show ?thesis
        using inv_fetch [OF _ i] laws by auto
    next
      case (wq_fetch it wq calls wq')
      then show ?thesis
        using inv_begin [OF _ i] laws by simp
    next
      case (wq_return it)
      then show ?thesis
        using inv_return [OF i] by simp
    qed
  qed
qed

section \<open>Delayed work\<close>

definition work_of :: "delayed_work \<Rightarrow> work_item" where
  "work_of d = \<lparr> wi_cb = dw_cb d, wi_data = dw_data d \<rparr>"

text \<open>The work a sequence of timer calls brings to a queue, and queues with room for \<open>n\<close> more items.\<close>

definition brought :: "('q, 'h) workq \<Rightarrow> workq_service \<Rightarrow> (nat \<times> nat \<times> nat) list \<Rightarrow> work_item list" where
  "brought ws s calls = concat (map (\<lambda>(cb, tid, arg). case ws_delayed ws arg of
     None \<Rightarrow> [] | Some d \<Rightarrow> if cb = DELAYED_WORK_CB \<and> dw_handle d = s then [work_of d] else []) calls)"

definition room :: "'q queue_ops \<Rightarrow> nat \<Rightarrow> ('q, 'h) workq \<Rightarrow> bool" where
  "room ops n ws \<longleftrightarrow> (\<forall>s. \<exists>wq k. ws_queue ws s = Some wq \<and> wq_ok ops k wq \<and> length (qo_items ops (wq_queue wq)) + n \<le> wq_sem_max wq)"

definition calls_known :: "('q, 'h) workq \<Rightarrow> (nat \<times> nat \<times> nat) list \<Rightarrow> bool" where
  "calls_known ws calls \<longleftrightarrow> (\<forall>cb tid arg. (cb, tid, arg) \<in> set calls \<and> cb = DELAYED_WORK_CB \<longrightarrow> (\<exists>d. ws_delayed ws arg = Some d \<and> dw_cb d \<noteq> 0))"

definition service_items :: "'q queue_ops \<Rightarrow> ('q, 'h) workq \<Rightarrow> workq_service \<Rightarrow> work_item list" where
  "service_items ops ws s = (case ws_queue ws s of None \<Rightarrow> [] | Some wq \<Rightarrow> qo_items ops (wq_queue wq))"

lemma room_mono: "room ops n ws \<Longrightarrow> k \<le> n \<Longrightarrow> room ops k ws"
  unfolding room_def by (meson add_le_cancel_left order_trans)

lemma delayed_cb_ok:
  assumes laws: "queue_laws ops" "sem_laws ops" and room: "room ops (Suc n) ws" and d: "ws_delayed ws arg = Some d" "dw_cb d \<noteq> 0"
  obtains ws' where "delayed_work_cb ops arg ws = Some ws'" "room ops n ws'" "ws_delayed ws' = ws_delayed ws"
    "service_items ops ws' s = service_items ops ws s @ (if dw_handle d = s then [work_of d] else [])"
proof -
  obtain wq k where wq: "ws_queue ws (dw_handle d) = Some wq" "wq_ok ops k wq"
    "length (qo_items ops (wq_queue wq)) + Suc n \<le> wq_sem_max wq"
    using room unfolding room_def by blast
  then obtain wq' where wq': "tal_workqueue_schedule ops (dw_cb d) (dw_data d) (Some wq) = (OPRT_OK, Some wq')" "wq_ok ops k wq'"
    "qo_items ops (wq_queue wq') = qo_items ops (wq_queue wq) @ [work_of d]" "wq_sem_max wq' = wq_sem_max wq"
    using schedule_ok [OF laws wq(2) d(2), of "dw_data d"] by (auto simp: work_of_def split: if_splits)
  let ?ws = "ws\<lparr> ws_queue := (ws_queue ws)(dw_handle d \<mapsto> wq') \<rparr>"
  have "delayed_work_cb ops arg ws = Some ?ws"
    using d(1) wq(1) wq'(1) by (simp add: delayed_work_cb_def tal_workq_schedule_def on_queue_def tal_workq_get_handle_def)
  moreover have "room ops n ?ws"
    unfolding room_def
  proof
    fix s'
    show "\<exists>wq k. ws_queue ?ws s' = Some wq \<and> wq_ok ops k wq \<and> length (qo_items ops (wq_queue wq)) + n \<le> wq_sem_max wq"
      using wq(3) wq' room_mono [OF room, of n] unfolding room_def by (cases "s' = dw_handle d") auto
  qed
  moreover have "service_items ops ?ws s = service_items ops ws s @ (if dw_handle d = s then [work_of d] else [])"
    using wq(1) wq'(3) by (auto simp: service_items_def)
  ultimately show ?thesis
    by (intro that [of ?ws]) simp_all
qed

lemma run_calls_ok:
  assumes laws: "queue_laws ops" "sem_laws ops"
  shows "room ops (length calls) ws \<Longrightarrow> calls_known ws calls \<Longrightarrow>
    \<exists>ws'. run_calls ops calls ws = Some ws' \<and> (\<forall>s. service_items ops ws' s = service_items ops ws s @ brought ws s calls)"
proof (induction calls arbitrary: ws)
  case (Cons c calls)
  obtain cb tid arg where c: "c = (cb, tid, arg)" by (cases c)
  have known: "calls_known ws calls"
    using Cons.prems(2) unfolding calls_known_def by auto
  show ?case
  proof (cases "cb = DELAYED_WORK_CB")
    case True
    then obtain d where d: "ws_delayed ws arg = Some d" "dw_cb d \<noteq> 0"
      using Cons.prems(2) c unfolding calls_known_def by auto
    have room: "room ops (Suc (length calls)) ws"
      using Cons.prems(1) by simp
    obtain ws1 where ws1: "delayed_work_cb ops arg ws = Some ws1" "room ops (length calls) ws1" "ws_delayed ws1 = ws_delayed ws"
      by (rule delayed_cb_ok [OF laws room d])
    have it: "service_items ops ws1 s = service_items ops ws s @ (if dw_handle d = s then [work_of d] else [])" for s
      by (rule delayed_cb_ok [OF laws room d, of s]) (use ws1(1) in simp)
    have "calls_known ws1 calls" "brought ws1 s calls = brought ws s calls" for s
      using known ws1(3) by (simp_all add: calls_known_def brought_def)
    then show ?thesis
      using Cons.IH [of ws1] ws1 it d(1) True c by (auto simp: brought_def)
  next
    case False
    then show ?thesis
      using Cons.IH [of ws] known room_mono [OF Cons.prems(1), of "length calls"] c
      by (auto simp: brought_def split: option.splits)
  qed
qed (simp add: brought_def)

lemma served_bound: "served lops lo hi m calls \<Longrightarrow> length calls \<le> length (lo_nodes lops (tm_links m) List_active)"
proof -
  assume v: "served lops lo hi m calls"
  then have "set (map (fst \<circ> snd) calls) \<subseteq> set (lo_nodes lops (tm_links m) List_active)"
    unfolding served_def short_def by fastforce
  then have "card (set (map (fst \<circ> snd) calls)) \<le> card (set (lo_nodes lops (tm_links m) List_active))"
    by (intro card_mono) simp_all
  then show ?thesis
    using v card_length [of "lo_nodes lops (tm_links m) List_active"] unfolding served_def
    by (metis distinct_card length_map order_trans)
qed

section \<open>Properties\<close>

text \<open>A queue as a list with a capacity, and a semaphore with a maximum.\<close>

definition seq_queue :: "(work_item list \<times> nat) queue_ops" where
  "seq_queue = \<lparr> qo_items = fst, qo_cap = snd,
     qo_input = \<lambda>x (xs, c). if length xs < c then (OPRT_OK, (xs @ [x], c)) else (OPRT_COM_ERROR, (xs, c)),
     qo_input_instant = \<lambda>x (xs, c). if length xs < c then (OPRT_OK, (x # xs, c)) else (OPRT_COM_ERROR, (xs, c)),
     qo_output = \<lambda>(xs, c). (case xs of [] \<Rightarrow> (OPRT_COM_ERROR, None, (xs, c)) | x # xs \<Rightarrow> (OPRT_OK, Some x, (xs, c))),
     qo_traverse = \<lambda>f (xs, c). (OPRT_OK, (map (snd \<circ> f) xs, c)),
     qo_used_num = \<lambda>(xs, c). of_nat (length xs),
     so_post = \<lambda>mx c. if c < mx then (OPRT_OK, Suc c) else (OPRT_COM_ERROR, c) \<rparr>"

lemma seq_queue_laws: "queue_laws seq_queue" "sem_laws seq_queue"
  by (auto simp: queue_laws_def queue_accepts_def queue_serves_def queue_walks_def sem_laws_def seq_queue_def split: list.splits)

lemma cancelled_calls:
  "filter (\<lambda>i. wi_cb i \<noteq> 0) (map (\<lambda>i. if cancels cb dat i then i\<lparr> wi_cb := 0 \<rparr> else i) xs) =
     filter (\<lambda>i. wi_cb i \<noteq> 0 \<and> \<not> (cb \<noteq> 0 \<and> wi_cb i = cb) \<and> \<not> (dat \<noteq> 0 \<and> wi_data i = dat)) xs"
  by (induction xs) (auto simp: cancels_def)

text \<open>A queue for three items with work in it, reached from the creation, whose thread waits.\<close>

definition demo_wq :: "(work_item list \<times> nat) workqueue" where
  "demo_wq = \<lparr> wq_queue = ([\<lparr> wi_cb = 3, wi_data = 4 \<rparr>, \<lparr> wi_cb = 5, wi_data = 4 \<rparr>], 3), wq_sem = 2, wq_sem_max = 3, wq_last_cb = 0 \<rparr>"

definition demo_run :: "(work_item list \<times> nat) wq_run" where
  "demo_run = \<lparr> wr_wq = demo_wq, wr_worker = Worker_waiting, wr_log = [] \<rparr>"

lemma demo_run_reach: "reach (wq_start seq_queue) (wq_step seq_queue) demo_run"
proof -
  let ?wq = "\<lambda>xs. \<lparr> wq_queue = (xs, 3 :: nat), wq_sem = length xs, wq_sem_max = 3, wq_last_cb = 0 \<rparr>"
  let ?s = "\<lambda>xs. \<lparr> wr_wq = ?wq xs, wr_worker = Worker_waiting, wr_log = [] \<rparr>"
  have "wq_start seq_queue (?s [])"
    unfolding wq_start_def by (rule exI [of _ "([], 3)"], rule exI [of _ 3]) (simp add: tal_workqueue_create_def seq_queue_def)
  moreover have "wq_step seq_queue (?s []) (?s [\<lparr> wi_cb = 3, wi_data = 4 \<rparr>])"
    using wq_schedule [of seq_queue 3 4 "?s []" OPRT_OK "?wq [\<lparr> wi_cb = 3, wi_data = 4 \<rparr>]"]
    by (simp add: tal_workqueue_schedule_def sem_post_wq_def seq_queue_def)
  moreover have "wq_step seq_queue (?s [\<lparr> wi_cb = 3, wi_data = 4 \<rparr>]) demo_run"
    using wq_schedule [of seq_queue 5 4 "?s [\<lparr> wi_cb = 3, wi_data = 4 \<rparr>]" OPRT_OK demo_wq]
    by (simp add: tal_workqueue_schedule_def sem_post_wq_def seq_queue_def demo_run_def demo_wq_def)
  ultimately show ?thesis
    by (blast intro: reach_init reach_step)
qed



text \<open>
  C38: A queue drains.  From any reachable state whose thread waits, as many rounds as there are items serve the queue
  completely: the thread calls exactly the items whose callback is not \<^verbatim>\<open>NULL\<close>, in the order of the queue, and ends up
  waiting on an empty queue.
\<close>

theorem workqueue_drains:
  assumes laws: "queue_laws ops" "sem_laws ops" and reach: "reach (wq_start ops) (wq_step ops) s"
    and idle: "wr_worker s = Worker_waiting" and n: "length (qo_items ops (wq_queue (wr_wq s))) \<le> n"
  shows "\<exists>wq. work_thread n ops (wr_wq s) = (filter (\<lambda>i. wi_cb i \<noteq> 0) (qo_items ops (wq_queue (wr_wq s))), wq) \<and>
    qo_items ops (wq_queue wq) = [] \<and> work_wait wq = None"
proof -
  have "wq_ok ops 0 (wr_wq s)"
    using wq.reach_inv [OF reach] laws idle by (simp add: wq_inv_def units_held_def)
  from drain [OF laws(1) this n] show ?thesis
    by (auto simp: work_wait_def wq_ok_def)
qed

theorem workqueue_drains_witness:
  "fst (work_thread 2 seq_queue demo_wq) = [\<lparr> wi_cb = 3, wi_data = 4 \<rparr>, \<lparr> wi_cb = 5, wi_data = 4 \<rparr>]"
  using workqueue_drains [OF seq_queue_laws demo_run_reach, of 2]
  by (auto simp: demo_run_def demo_wq_def seq_queue_def)

text \<open>
  C39: Cancelling.  A cancellation with a callback or data succeeds; afterwards the thread calls, in order, exactly the
  items with a callback that have neither that callback nor that data: work scheduled with another callback but the same
  data is cancelled too.
\<close>

theorem workqueue_cancel_exact:
  assumes laws: "queue_laws ops" "sem_laws ops" and reach: "reach (wq_start ops) (wq_step ops) s"
    and idle: "wr_worker s = Worker_waiting" and arg: "cb \<noteq> 0 \<or> dat \<noteq> 0"
  shows "\<exists>wq. tal_workqueue_cancel ops cb dat (Some (wr_wq s)) = (OPRT_OK, Some wq) \<and>
    fst (work_thread (length (qo_items ops (wq_queue wq))) ops wq) =
      filter (\<lambda>i. wi_cb i \<noteq> 0 \<and> \<not> (cb \<noteq> 0 \<and> wi_cb i = cb) \<and> \<not> (dat \<noteq> 0 \<and> wi_data i = dat)) (qo_items ops (wq_queue (wr_wq s)))"
proof -
  have ok: "wq_ok ops 0 (wr_wq s)"
    using wq.reach_inv [OF reach] laws idle by (simp add: wq_inv_def units_held_def)
  obtain q where q: "tal_workqueue_cancel ops cb dat (Some (wr_wq s)) = (OPRT_OK, Some (wr_wq s\<lparr> wq_queue := q \<rparr>))"
    "qo_items ops q = map (\<lambda>i. if cancels cb dat i then i\<lparr> wi_cb := 0 \<rparr> else i) (qo_items ops (wq_queue (wr_wq s)))"
    "qo_cap ops q = qo_cap ops (wq_queue (wr_wq s))"
    by (rule cancel_ok [OF laws(1) arg])
  have "wq_ok ops 0 (wr_wq s\<lparr> wq_queue := q \<rparr>)"
    using ok q(2,3) by (simp add: wq_ok_def)
  from drain [OF laws(1) this order_refl]
  have "fst (work_thread (length (qo_items ops q)) ops (wr_wq s\<lparr> wq_queue := q \<rparr>)) = filter (\<lambda>i. wi_cb i \<noteq> 0) (qo_items ops q)"
    by auto
  also have "\<dots> = filter (\<lambda>i. wi_cb i \<noteq> 0 \<and> \<not> (cb \<noteq> 0 \<and> wi_cb i = cb) \<and> \<not> (dat \<noteq> 0 \<and> wi_data i = dat)) (qo_items ops (wq_queue (wr_wq s)))"
    unfolding q(2) by (rule cancelled_calls)
  finally show ?thesis
    using q(1) by simp
qed

theorem workqueue_cancel_exact_witness:
  "\<exists>wq. tal_workqueue_cancel seq_queue 3 4 (Some demo_wq) = (OPRT_OK, Some wq) \<and>
     fst (work_thread (length (qo_items seq_queue (wq_queue wq))) seq_queue wq) = []"
  using workqueue_cancel_exact [OF seq_queue_laws demo_run_reach, of 3 4]
  by (simp add: demo_run_def demo_wq_def seq_queue_def)

text \<open>
  C6: Delayed work reaches its queue.  Take a dispatch of the timers under the conditions in which it serves them, delayed
  works whose objects are allocated and have a callback, and queues with room for one item per active timer.  Then the
  dispatch returns, its calls add to each queue exactly the works they stand for, in their order, and the work of every
  timer that is due is among them.
\<close>

theorem delayed_work_queued:
  assumes laws: "list_laws lops" "queue_laws ops" "sem_laws ops" and inv: "timer_inv lops (ws_timers ws)"
    and clock: "steady clk lo hi (Suc (length (lo_nodes lops (tm_links (ws_timers ws)) List_active))) (tm_time (ws_timers ws))" "0 \<le> lo" "hi < 2 ^ 63"
    and cyclic: "\<forall>x t. tm_heap (ws_timers ws) x = Some t \<and> tmr_type t = TAL_TIMER_CYCLE \<longrightarrow> hi - lo < uint (tmr_interval t)"
    and objects: "\<forall>x t. tm_heap (ws_timers ws) x = Some t \<and> tmr_cb t = DELAYED_WORK_CB \<longrightarrow>
      (\<exists>d. ws_delayed ws (tmr_data t) = Some d \<and> dw_cb d \<noteq> 0)"
    and room: "room ops (length (lo_nodes lops (tm_links (ws_timers ws)) List_active)) ws"
  shows "\<exists>calls nx m ws'. timer_dispatch (Suc (length (lo_nodes lops (tm_links (ws_timers ws)) List_active))) lops clk
      (\<lambda>_ _ _ m. m) (\<lambda>m. m) SEM_WAIT_FOREVER (ws_timers ws) = Some (calls, nx, m) \<and>
    run_calls ops calls ws = Some ws' \<and>
    (\<forall>s. service_items ops ws' s = service_items ops ws s @ brought ws s calls) \<and>
    (\<forall>x t d. x \<in> set (lo_nodes lops (tm_links (ws_timers ws)) List_active) \<and> tm_heap (ws_timers ws) x = Some t \<and>
      uint (tmr_expire_time t) \<le> lo \<and> tmr_cb t = DELAYED_WORK_CB \<and> ws_delayed ws (tmr_data t) = Some d \<longrightarrow>
      work_of d \<in> set (brought ws (dw_handle d) calls))"
proof -
  let ?as = "lo_nodes lops (tm_links (ws_timers ws)) List_active"
  have "length (short lops hi (ws_timers ws)) < Suc (length ?as)"
    unfolding short_def by (simp add: less_Suc_eq_le)
  then obtain calls nx m where c: "timer_dispatch (Suc (length ?as)) lops clk (\<lambda>_ _ _ m. m) (\<lambda>m. m) SEM_WAIT_FOREVER (ws_timers ws) = Some (calls, nx, m)"
    "served lops lo hi (ws_timers ws) calls"
    using dispatch_live [OF laws(1) clock(2,3) _ _ inv clock(1) _ cyclic, of "\<lambda>_ _ _ m. m" "\<lambda>m. m" SEM_WAIT_FOREVER] by auto
  have "calls_known ws calls"
    using c(2) objects unfolding served_def calls_known_def by metis
  then obtain ws' where "run_calls ops calls ws = Some ws'"
    "\<forall>s. service_items ops ws' s = service_items ops ws s @ brought ws s calls"
    using run_calls_ok [OF laws(2,3) room_mono [OF room served_bound [OF c(2)]]] by blast
  moreover have "work_of d \<in> set (brought ws (dw_handle d) calls)"
    if h: "x \<in> set ?as" "tm_heap (ws_timers ws) x = Some t" "uint (tmr_expire_time t) \<le> lo" "tmr_cb t = DELAYED_WORK_CB"
      "ws_delayed ws (tmr_data t) = Some d" for x t d
  proof -
    have "uint (expire_of (tm_heap (ws_timers ws)) x) \<le> lo"
      using h(2,3) by (simp add: expire_of_def)
    then obtain cb dt where m: "(cb, x, dt) \<in> set calls"
      using c(2) h(1) unfolding served_def by blast
    then have "cb = tmr_cb t" "dt = tmr_data t"
      using c(2) h(2) unfolding served_def by (metis option.inject)+
    with m show ?thesis
      using h(4,5) unfolding brought_def by force
  qed
  ultimately show ?thesis
    using c(1) by blast
qed

definition demo_workq :: "(work_item list \<times> nat, timer_head \<Rightarrow> nat list) workq" where
  "demo_workq = \<lparr> ws_queue = \<lambda>_. Some demo_wq, ws_timers = demo_started 10 TAL_TIMER_ONCE,
     ws_delayed = [9 \<mapsto> \<lparr> dw_timer = 5, dw_cb = 6, dw_data = 2, dw_handle = WORKQ_SYSTEM \<rparr>] \<rparr>"

theorem delayed_work_queued_witness:
  "\<exists>calls nx m ws'. timer_dispatch 2 seq_lists demo_clock (\<lambda>_ _ _ m. m) (\<lambda>m. m) SEM_WAIT_FOREVER (ws_timers demo_workq) = Some (calls, nx, m) \<and>
     run_calls seq_queue calls demo_workq = Some ws' \<and> \<lparr> wi_cb = 6, wi_data = 2 \<rparr> \<in> set (service_items seq_queue ws' WORKQ_SYSTEM)"
proof -
  let ?m = "demo_started 10 TAL_TIMER_ONCE"
  have len: "length (lo_nodes seq_lists (tm_links (ws_timers demo_workq)) List_active) = 1"
    by (simp add: demo_workq_def demo_started_eq)
  have st: "steady demo_clock 110 110 (Suc 1) (tm_time (ws_timers demo_workq))"
    unfolding demo_workq_def workq.simps demo_started_eq
    by (simp add: timer_mgr0_def demo_clock_def tal_time_get_system_time_def get_millisecond_def)
  have inv: "timer_inv seq_lists (ws_timers demo_workq)"
    by (simp add: demo_workq_def demo_started_inv)
  have cyc: "\<forall>x t. tm_heap (ws_timers demo_workq) x = Some t \<and> tmr_type t = TAL_TIMER_CYCLE \<longrightarrow> (110 :: int) - 110 < uint (tmr_interval t)"
    by (simp add: demo_workq_def demo_started_eq)
  have obj: "\<forall>x t. tm_heap (ws_timers demo_workq) x = Some t \<and> tmr_cb t = DELAYED_WORK_CB \<longrightarrow>
      (\<exists>d. ws_delayed demo_workq (tmr_data t) = Some d \<and> dw_cb d \<noteq> 0)"
    by (simp add: demo_workq_def demo_started_eq)
  have room: "room seq_queue 1 demo_workq"
    unfolding room_def by (simp add: demo_workq_def demo_wq_def wq_ok_def seq_queue_def)
  obtain calls nx m ws' where r: "timer_dispatch (Suc 1) seq_lists demo_clock (\<lambda>_ _ _ m. m) (\<lambda>m. m) SEM_WAIT_FOREVER (ws_timers demo_workq) = Some (calls, nx, m)"
    "run_calls seq_queue calls demo_workq = Some ws'"
    "\<forall>s. service_items seq_queue ws' s = service_items seq_queue demo_workq s @ brought demo_workq s calls"
    "\<forall>x t d. x \<in> set (lo_nodes seq_lists (tm_links (ws_timers demo_workq)) List_active) \<and> tm_heap (ws_timers demo_workq) x = Some t \<and>
      uint (tmr_expire_time t) \<le> 110 \<and> tmr_cb t = DELAYED_WORK_CB \<and> ws_delayed demo_workq (tmr_data t) = Some d \<longrightarrow>
      work_of d \<in> set (brought demo_workq (dw_handle d) calls)"
    using delayed_work_queued [OF seq_lists_laws seq_queue_laws inv, unfolded len, OF st _ _ cyc obj room] by auto
  have "\<lparr> wi_cb = 6, wi_data = 2 \<rparr> \<in> set (brought demo_workq WORKQ_SYSTEM calls)"
    using r(4) by (simp add: demo_workq_def demo_started_eq work_of_def)
  then show ?thesis
    using r(1,2) spec [OF r(3), of WORKQ_SYSTEM] by (auto simp: numeral_2_eq_2)
qed

end
